theory Spec2Isabelle
  imports Main "HOL-Library.Word"
begin

unbundle bit_operations_syntax

section \<open>Machine integers\<close>

text \<open>The code runs on 32-bit x86: \<open>uint\<close>, \<open>int\<close> and pointers are 32-bit
  words, \<open>short\<close> and \<open>ushort\<close> 16-bit words, \<open>char\<close> a byte. Arithmetic wraps
  around; a signed test reads the same bits as two's complement.\<close>

type_synonym u8 = "8 word"
type_synonym u16 = "16 word"
type_synonym u32 = "32 word"


section \<open>JOS kernel: the system calls of kern/syscall.c\<close>

subsection \<open>Constants of the headers\<close>

text \<open>Modelled from the spec: the error codes of inc/error.h (negative small integers,
  referenced by name); the header is not part of the slice. The values are those the
  user library's listing compares against (\<open>-E_IPC_NOT_RECV\<close> is \<open>0xfffffff9\<close>).\<close>

definition E_BAD_ENV :: u32 where "E_BAD_ENV = 2"
definition E_INVAL :: u32 where "E_INVAL = 3"
definition E_NO_MEM :: u32 where "E_NO_MEM = 4"
definition E_NO_FREE_ENV :: u32 where "E_NO_FREE_ENV = 5"
definition E_IPC_NOT_RECV :: u32 where "E_IPC_NOT_RECV = 7"

text \<open>Modelled from the spec: the top of the user address space (inc/memlayout.h); the
  user library's listing substitutes \<open>0xeec00000\<close> for an absent page.\<close>

definition UTOP :: u32 where "UTOP = 0xeec00000"

text \<open>Modelled from the spec: page size and page-table-entry bits of inc/mmu.h
  (present, write, user).\<close>

definition PGSIZE :: u32 where "PGSIZE = 4096"
definition PTE_P :: u32 where "PTE_P = 1"
definition PTE_W :: u32 where "PTE_W = 2"
definition PTE_U :: u32 where "PTE_U = 4"

text \<open>Modelled from the spec: the page-alignment test (a macro of the missing headers):
  an address is page-aligned when it is a multiple of the page size.\<close>

definition IS_PAGE_ALIGNED :: "u32 \<Rightarrow> bool" where
  "IS_PAGE_ALIGNED va = (va AND (PGSIZE - 1) = 0)"

text \<open>Modelled from the spec: the run status of an environment (inc/env.h).\<close>

definition ENV_FREE :: u32 where "ENV_FREE = 0"
definition ENV_DYING :: u32 where "ENV_DYING = 1"
definition ENV_RUNNABLE :: u32 where "ENV_RUNNABLE = 2"
definition ENV_RUNNING :: u32 where "ENV_RUNNING = 3"
definition ENV_NOT_RUNNABLE :: u32 where "ENV_NOT_RUNNABLE = 4"

text \<open>Modelled from the spec: the system-call numbers of inc/syscall.h, as the table of
  the external interfaces lists them.\<close>

definition SYS_cputs :: u32 where "SYS_cputs = 0"
definition SYS_cgetc :: u32 where "SYS_cgetc = 1"
definition SYS_getenvid :: u32 where "SYS_getenvid = 2"
definition SYS_env_destroy :: u32 where "SYS_env_destroy = 3"
definition SYS_page_alloc :: u32 where "SYS_page_alloc = 4"
definition SYS_page_map :: u32 where "SYS_page_map = 5"
definition SYS_page_unmap :: u32 where "SYS_page_unmap = 6"
definition SYS_exofork :: u32 where "SYS_exofork = 7"
definition SYS_env_set_status :: u32 where "SYS_env_set_status = 8"
definition SYS_env_set_trapframe :: u32 where "SYS_env_set_trapframe = 9"
definition SYS_env_set_pgfault_upcall :: u32 where "SYS_env_set_pgfault_upcall = 10"
definition SYS_yield :: u32 where "SYS_yield = 11"
definition SYS_ipc_try_send :: u32 where "SYS_ipc_try_send = 12"
definition SYS_ipc_recv :: u32 where "SYS_ipc_recv = 13"

subsection \<open>Kernel state\<close>

text \<open>The saved registers of an environment. The system calls touch the accumulator
  only; the other registers are carried along as a list.\<close>

record Trapframe =
  reg_eax :: u32
  tf_other :: "u32 list"

text \<open>A page directory: the page-directory indices that have a page table, and the
  page-table entries, keyed by the page's base address, each a physical page and the
  permission bits of the entry.\<close>

record Pgdir =
  pd_tables :: "u32 set"
  pd_ptes :: "u32 \<rightharpoonup> (nat \<times> u32)"

record Env =
  env_id :: u32
  env_parent_id :: u32
  env_status :: u32
  env_tf :: Trapframe
  env_pgfault_upcall :: u32
  env_ipc_recving :: bool
  env_ipc_dstva :: u32
  env_ipc_value :: u32
  env_ipc_from :: u32
  env_ipc_perm :: u32
  env_pgdir :: Pgdir

text \<open>The kernel state: the environment table (a \<open>struct Env *\<close> is a slot index),
  the running environment, the free physical pages, the free environment slots, the
  pending console input and the spans printed on the console.\<close>

record kstate =
  envs :: "nat \<Rightarrow> Env"
  curenv :: nat
  page_free_list :: "nat list"
  env_free_list :: "nat list"
  cons_in :: "u32 list"
  cons_out :: "(u32 \<times> u32) list"

text \<open>What a kernel operation does with control: it returns a value, it never comes
  back to its call site (the scheduler took over), or the kernel panics.\<close>

datatype kres = Ret u32 kstate | NoReturn kstate | Panic string

subsection \<open>Boundary services\<close>

text \<open>Modelled from the spec: the environment-table lookup of kern/env.c, which is not
  part of the slice. Identity 0 names the caller; an identity whose slot is free or holds
  another generation does not exist; with \<open>checkperm\<close> the target must be the caller
  or a child of the caller. The slot of an identity is its low ten bits.\<close>

definition ENVX :: "u32 \<Rightarrow> nat" where
  "ENVX envid = unat (envid AND 1023)"

definition envid2env :: "kstate \<Rightarrow> u32 \<Rightarrow> bool \<Rightarrow> u32 + nat" where
  "envid2env s envid checkperm =
    (if envid = 0 then Inr (curenv s)
     else let e = ENVX envid in
       if env_status (envs s e) = ENV_FREE \<or> env_id (envs s e) \<noteq> envid
       then Inl (- E_BAD_ENV)
       else if checkperm \<and> e \<noteq> curenv s
               \<and> env_parent_id (envs s e) \<noteq> env_id (envs s (curenv s))
       then Inl (- E_BAD_ENV)
       else Inr e)"

text \<open>Modelled from the spec: the physical page allocator of kern/pmap.c, which is not
  part of the slice: a page is taken from the free pages, and there is none when memory
  is exhausted. Page contents and reference counts are not modelled.\<close>

definition page_alloc :: "kstate \<Rightarrow> (nat \<times> kstate) option" where
  "page_alloc s =
    (case page_free_list s of
       [] \<Rightarrow> None
     | p # ps \<Rightarrow> Some (p, s\<lparr>page_free_list := ps\<rparr>))"

definition page_free :: "kstate \<Rightarrow> nat \<Rightarrow> kstate" where
  "page_free s p = s\<lparr>page_free_list := p # page_free_list s\<rparr>"

text \<open>Modelled from the spec: page-table insertion, lookup and removal of kern/pmap.c,
  which are not part of the slice. An entry belongs to the page that holds the address;
  insertion replaces any prior mapping there and fails with NO_MEM when a page table has
  to be built and no page is free.\<close>

definition PTE_ADDR :: "u32 \<Rightarrow> u32" where
  "PTE_ADDR va = va AND NOT (PGSIZE - 1)"

definition PDX :: "u32 \<Rightarrow> u32" where
  "PDX va = drop_bit 22 va"

definition set_pgdir :: "kstate \<Rightarrow> nat \<Rightarrow> Pgdir \<Rightarrow> kstate" where
  "set_pgdir s e pd = s\<lparr>envs := (envs s)(e := (envs s e)\<lparr>env_pgdir := pd\<rparr>)\<rparr>"

definition page_insert :: "kstate \<Rightarrow> nat \<Rightarrow> nat \<Rightarrow> u32 \<Rightarrow> u32 \<Rightarrow> u32 \<times> kstate" where
  "page_insert s e pp va perm =
    (let pd = env_pgdir (envs s e) in
     if PDX va \<in> pd_tables pd
     then (0, set_pgdir s e (pd\<lparr>pd_ptes := (pd_ptes pd)(PTE_ADDR va \<mapsto> (pp, perm OR PTE_P))\<rparr>))
     else (case page_alloc s of
             None \<Rightarrow> (- E_NO_MEM, s)
           | Some (pt, s1) \<Rightarrow>
               (0, set_pgdir s1 e
                     \<lparr>pd_tables = insert (PDX va) (pd_tables pd),
                      pd_ptes = (pd_ptes pd)(PTE_ADDR va \<mapsto> (pp, perm OR PTE_P))\<rparr>)))"

definition page_lookup :: "kstate \<Rightarrow> nat \<Rightarrow> u32 \<Rightarrow> (nat \<times> u32) option" where
  "page_lookup s e va = pd_ptes (env_pgdir (envs s e)) (PTE_ADDR va)"

definition page_remove :: "kstate \<Rightarrow> nat \<Rightarrow> u32 \<Rightarrow> kstate" where
  "page_remove s e va =
    (let pd = env_pgdir (envs s e) in
     set_pgdir s e (pd\<lparr>pd_ptes := (pd_ptes pd)(PTE_ADDR va := None)\<rparr>))"

text \<open>Modelled from the spec: the scheduler's yield primitive of kern/sched.c, which is
  not part of the slice: it reschedules and never returns to its call site.\<close>

definition sched_yield :: "kstate \<Rightarrow> kres" where
  "sched_yield s = NoReturn s"

text \<open>Modelled from the spec: environment destruction of kern/env.c, which is not part
  of the slice: the slot becomes free; destroying the running environment hands the
  processor to the scheduler.\<close>

definition env_destroy :: "kstate \<Rightarrow> nat \<Rightarrow> kres" where
  "env_destroy s e =
    (if env_status (envs s e) = ENV_RUNNING \<and> curenv s \<noteq> e
     then Ret 0 (s\<lparr>envs := (envs s)(e := (envs s e)\<lparr>env_status := ENV_DYING\<rparr>)\<rparr>)
     else let s1 = s\<lparr>envs := (envs s)(e := (envs s e)\<lparr>env_status := ENV_FREE\<rparr>),
                      env_free_list := e # env_free_list s\<rparr>
          in if curenv s = e then sched_yield s1 else Ret 0 s1)"

text \<open>Modelled from the spec: environment allocation of kern/env.c, which is not part of
  the slice: NO_FREE_ENV when no slot is free, NO_MEM when no page is free for the page
  directory; the new environment gets a fresh generation of its slot's identity, the
  given parent, and an empty user address space.\<close>

definition env_alloc :: "kstate \<Rightarrow> u32 \<Rightarrow> (u32 + nat) \<times> kstate" where
  "env_alloc s parent_id =
    (case env_free_list s of
       [] \<Rightarrow> (Inl (- E_NO_FREE_ENV), s)
     | e # es \<Rightarrow>
        (case page_alloc s of
           None \<Rightarrow> (Inl (- E_NO_MEM), s)
         | Some (pg, s1) \<Rightarrow>
            (let old = envs s1 e;
                 g0 = (env_id old + 4096) AND NOT 1023;
                 g = (if g0 \<le>s 0 then 4096 else g0);
                 new = old\<lparr>env_id := g OR of_nat e,
                           env_parent_id := parent_id,
                           env_status := ENV_RUNNABLE,
                           env_pgfault_upcall := 0,
                           env_ipc_recving := False,
                           env_pgdir := \<lparr>pd_tables = {}, pd_ptes = Map.empty\<rparr>\<rparr>
             in (Inr e, s1\<lparr>envs := (envs s1)(e := new), env_free_list := es\<rparr>))))"

text \<open>Modelled from the spec: the user-memory check of kern/pmap.c, which is not part of
  the slice: every page of the span must be below the top of user space and mapped with
  the given permission bits; otherwise the environment is destroyed.\<close>

definition user_mem_check :: "kstate \<Rightarrow> nat \<Rightarrow> u32 \<Rightarrow> u32 \<Rightarrow> u32 \<Rightarrow> bool" where
  "user_mem_check s e va len perm =
    (\<forall>k \<in> set [unat va div 4096 ..< (unat va + unat len + 4095) div 4096].
       k * 4096 < unat UTOP \<and>
       (case pd_ptes (env_pgdir (envs s e)) (of_nat (k * 4096)) of
          None \<Rightarrow> False
        | Some (pp, pte) \<Rightarrow> pte AND perm = perm))"

definition user_mem_assert :: "kstate \<Rightarrow> nat \<Rightarrow> u32 \<Rightarrow> u32 \<Rightarrow> u32 \<Rightarrow> kres" where
  "user_mem_assert s e va len perm =
    (if user_mem_check s e va len perm then Ret 0 s else env_destroy s e)"

text \<open>Modelled from the spec: the console of kern/console.c, which is not part of the
  slice: the next waiting input character, or 0 when none is waiting.\<close>

definition cons_getc :: "kstate \<Rightarrow> u32 \<times> kstate" where
  "cons_getc s =
    (case cons_in s of
       [] \<Rightarrow> (0, s)
     | c # cs \<Rightarrow> (c, s\<lparr>cons_in := cs\<rparr>))"

text \<open>Modelled from the spec: kernel formatted output, which is not part of the slice;
  the user span handed to it is recorded.\<close>

definition cprintf_span :: "kstate \<Rightarrow> u32 \<Rightarrow> u32 \<Rightarrow> kstate" where
  "cprintf_span s va len = s\<lparr>cons_out := cons_out s @ [(va, len)]\<rparr>"

subsection \<open>The system calls\<close>

definition sys_cputs :: "kstate \<Rightarrow> u32 \<Rightarrow> u32 \<Rightarrow> kres" where
  "sys_cputs s va len =
    (case user_mem_assert s (curenv s) va len (PTE_P OR PTE_U) of
       Ret _ s1 \<Rightarrow> Ret 0 (cprintf_span s1 va len)
     | r \<Rightarrow> r)"

definition sys_cgetc :: "kstate \<Rightarrow> kres" where
  "sys_cgetc s = (case cons_getc s of (c, s1) \<Rightarrow> Ret c s1)"

definition sys_getenvid :: "kstate \<Rightarrow> kres" where
  "sys_getenvid s = Ret (env_id (envs s (curenv s))) s"

definition sys_env_destroy :: "kstate \<Rightarrow> u32 \<Rightarrow> kres" where
  "sys_env_destroy s envid =
    (case envid2env s envid True of
       Inl r \<Rightarrow> Ret r s
     | Inr e \<Rightarrow>
        (case env_destroy s e of
           Ret _ s1 \<Rightarrow> Ret 0 s1
         | r \<Rightarrow> r))"

definition sys_yield :: "kstate \<Rightarrow> kres" where
  "sys_yield s = sched_yield s"

definition sys_exofork :: "kstate \<Rightarrow> kres" where
  "sys_exofork s =
    (case env_alloc s (env_id (envs s (curenv s))) of
       (Inl err_code, s1) \<Rightarrow> Ret err_code s1
     | (Inr child, s1) \<Rightarrow>
        (let c0 = envs s1 child;
             c1 = c0\<lparr>env_status := ENV_NOT_RUNNABLE\<rparr>;
             c2 = c1\<lparr>env_tf := env_tf (envs s1 (curenv s1))\<rparr>;
             c3 = c2\<lparr>env_tf := (env_tf c2)\<lparr>reg_eax := 0\<rparr>\<rparr>
         in Ret (env_id c3) (s1\<lparr>envs := (envs s1)(child := c3)\<rparr>)))"

definition sys_env_set_status :: "kstate \<Rightarrow> u32 \<Rightarrow> u32 \<Rightarrow> kres" where
  "sys_env_set_status s envid status =
    (if status \<noteq> ENV_RUNNABLE \<and> status \<noteq> ENV_NOT_RUNNABLE then Ret (- E_INVAL) s
     else case envid2env s envid True of
            Inl err_code \<Rightarrow> Ret err_code s
          | Inr e \<Rightarrow> Ret 0 (s\<lparr>envs := (envs s)(e := (envs s e)\<lparr>env_status := status\<rparr>)\<rparr>))"

definition sys_env_set_trapframe :: "kstate \<Rightarrow> u32 \<Rightarrow> u32 \<Rightarrow> kres" where
  "sys_env_set_trapframe s envid tf = Panic ''sys_env_set_trapframe not implemented''"

definition sys_env_set_pgfault_upcall :: "kstate \<Rightarrow> u32 \<Rightarrow> u32 \<Rightarrow> kres" where
  "sys_env_set_pgfault_upcall s envid func =
    (case envid2env s envid True of
       Inl err_code \<Rightarrow> Ret err_code s
     | Inr e \<Rightarrow> Ret 0 (s\<lparr>envs := (envs s)(e := (envs s e)\<lparr>env_pgfault_upcall := func\<rparr>)\<rparr>))"

text \<open>\<open>check_perm\<close>: the table says, bit by bit, whether the bit must be set (1), must
  not be set (-1) or is optional (0); the loop runs over the twelve entries.\<close>

definition perm_bit :: "int list" where
  "perm_bit = [1, 0, 1, -1, -1, -1, -1, -1, -1, 0, 0, 0]"

fun check_perm_loop :: "u32 \<Rightarrow> nat \<Rightarrow> int list \<Rightarrow> u32" where
  "check_perm_loop perm i [] = 0"
| "check_perm_loop perm i (b # bs) =
    (if b = 1 then
       (if perm AND push_bit i 1 = 0 then - E_INVAL else check_perm_loop perm (Suc i) bs)
     else if b = -1 then
       (if perm AND push_bit i 1 \<noteq> 0 then - E_INVAL else check_perm_loop perm (Suc i) bs)
     else check_perm_loop perm (Suc i) bs)"

definition check_perm :: "u32 \<Rightarrow> u32" where
  "check_perm perm = check_perm_loop perm 0 perm_bit"

definition sys_page_alloc :: "kstate \<Rightarrow> u32 \<Rightarrow> u32 \<Rightarrow> u32 \<Rightarrow> kres" where
  "sys_page_alloc s envid va perm =
    (if UTOP \<le> va then Ret (- E_INVAL) s
     else if check_perm perm <s 0 then Ret (- E_INVAL) s
     else case page_alloc s of
            None \<Rightarrow> Ret (- E_NO_MEM) s
          | Some (new_page, s1) \<Rightarrow>
             (case envid2env s1 envid True of
                Inl err_code \<Rightarrow> Ret err_code s1
              | Inr e \<Rightarrow>
                 (case page_insert s1 e new_page va perm of
                    (err_code, s2) \<Rightarrow>
                      if err_code <s 0 then Ret err_code (page_free s2 new_page)
                      else Ret 0 s2)))"

definition sys_page_map :: "kstate \<Rightarrow> u32 \<Rightarrow> u32 \<Rightarrow> u32 \<Rightarrow> u32 \<Rightarrow> u32 \<Rightarrow> kres" where
  "sys_page_map s srcenvid srcva dstenvid dstva perm =
    (case envid2env s srcenvid True of
       Inl err_code \<Rightarrow> Ret err_code s
     | Inr src_e \<Rightarrow>
    (case envid2env s dstenvid True of
       Inl err_code \<Rightarrow> Ret err_code s
     | Inr dst_e \<Rightarrow>
       if UTOP \<le> srcva \<or> UTOP \<le> dstva then Ret (- E_INVAL) s
       else if \<not> IS_PAGE_ALIGNED srcva \<or> \<not> IS_PAGE_ALIGNED dstva then Ret (- E_INVAL) s
       else (case page_lookup s src_e srcva of
               None \<Rightarrow> Ret (- E_INVAL) s
             | Some (src_page, src_pte) \<Rightarrow>
                 if check_perm perm <s 0 then Ret (- E_INVAL) s
                 else if src_pte AND PTE_W = 0 \<and> perm AND PTE_W \<noteq> 0 then Ret (- E_INVAL) s
                 else (case page_insert s dst_e src_page dstva perm of
                         (err_code, s1) \<Rightarrow>
                           if err_code <s 0 then Ret err_code s1 else Ret 0 s1))))"

definition sys_page_unmap :: "kstate \<Rightarrow> u32 \<Rightarrow> u32 \<Rightarrow> kres" where
  "sys_page_unmap s envid va =
    (case envid2env s envid True of
       Inl err_code \<Rightarrow> Ret err_code s
     | Inr e \<Rightarrow>
         if UTOP \<le> va then Ret (- E_INVAL) s
         else if \<not> IS_PAGE_ALIGNED va then Ret (- E_INVAL) s
         else Ret 0 (page_remove s e va))"

definition sys_ipc_try_send :: "kstate \<Rightarrow> u32 \<Rightarrow> u32 \<Rightarrow> u32 \<Rightarrow> u32 \<Rightarrow> kres" where
  "sys_ipc_try_send s envid val srcva perm =
    (case envid2env s envid False of
       Inl err_code \<Rightarrow> Ret (- E_BAD_ENV) s
     | Inr target_e \<Rightarrow>
       if \<not> env_ipc_recving (envs s target_e) then Ret (- E_IPC_NOT_RECV) s
       else
         let update = (\<lambda>s1.
               let t0 = envs s1 target_e;
                   t1 = t0\<lparr>env_ipc_value := val\<rparr>;
                   t2 = t1\<lparr>env_ipc_from := env_id (envs s1 (curenv s1))\<rparr>;
                   t3 = t2\<lparr>env_ipc_recving := False\<rparr>;
                   t4 = t3\<lparr>env_status := ENV_RUNNABLE\<rparr>;
                   t5 = t4\<lparr>env_tf := (env_tf t4)\<lparr>reg_eax := 0\<rparr>\<rparr>;
                   t6 = t5\<lparr>env_ipc_perm := perm\<rparr>
               in Ret 0 (s1\<lparr>envs := (envs s1)(target_e := t6)\<rparr>))
         in
         if srcva < UTOP \<and> env_ipc_dstva (envs s target_e) < UTOP then
           if \<not> IS_PAGE_ALIGNED srcva then Ret (- E_INVAL) s
           else if check_perm perm <s 0 then Ret (- E_INVAL) s
           else (case page_lookup s (curenv s) srcva of
                   None \<Rightarrow> Ret (- E_INVAL) s
                 | Some (src_page, pte) \<Rightarrow>
                     if perm AND PTE_W \<noteq> 0 \<and> pte AND PTE_W = 0 then Ret (- E_INVAL) s
                     else if env_ipc_dstva (envs s target_e) \<noteq> 0 then
                       (case page_insert s target_e src_page
                               (env_ipc_dstva (envs s target_e)) perm of
                          (err_code, s1) \<Rightarrow>
                            if err_code <s 0 then Ret err_code s1 else update s1)
                     else update s)
         else update s)"

definition sys_ipc_recv :: "kstate \<Rightarrow> u32 \<Rightarrow> kres" where
  "sys_ipc_recv s dstva =
    (if \<not> IS_PAGE_ALIGNED dstva then Ret (- E_INVAL) s
     else
       let c0 = envs s (curenv s);
           c1 = c0\<lparr>env_ipc_recving := True\<rparr>;
           c2 = c1\<lparr>env_ipc_dstva := dstva\<rparr>;
           c3 = c2\<lparr>env_status := ENV_NOT_RUNNABLE\<rparr>
       in (case sched_yield (s\<lparr>envs := (envs s)(curenv s := c3)\<rparr>) of
             Ret _ s1 \<Rightarrow> Ret 0 s1
           | r \<Rightarrow> r))"

text \<open>The dispatcher. The case of \<open>SYS_yield\<close> has no \<open>return\<close>: were the yield to
  come back, control would fall through into the next case. A number that no case
  names leaves the switch and returns 0.\<close>

definition syscall :: "kstate \<Rightarrow> u32 \<Rightarrow> u32 \<Rightarrow> u32 \<Rightarrow> u32 \<Rightarrow> u32 \<Rightarrow> u32 \<Rightarrow> kres" where
  "syscall s syscallno a1 a2 a3 a4 a5 =
    (if syscallno = SYS_cputs then
       (case sys_cputs s a1 a2 of Ret _ s1 \<Rightarrow> Ret 0 s1 | r \<Rightarrow> r)
     else if syscallno = SYS_cgetc then sys_cgetc s
     else if syscallno = SYS_getenvid then sys_getenvid s
     else if syscallno = SYS_env_destroy then sys_env_destroy s a1
     else if syscallno = SYS_yield then
       (case sys_yield s of Ret _ s1 \<Rightarrow> sys_exofork s1 | r \<Rightarrow> r)
     else if syscallno = SYS_exofork then sys_exofork s
     else if syscallno = SYS_page_alloc then sys_page_alloc s a1 a2 a3
     else if syscallno = SYS_page_map then sys_page_map s a1 a2 a3 a4 a5
     else if syscallno = SYS_page_unmap then sys_page_unmap s a1 a2
     else if syscallno = SYS_env_set_status then sys_env_set_status s a1 a2
     else if syscallno = SYS_env_set_pgfault_upcall then sys_env_set_pgfault_upcall s a1 a2
     else if syscallno = SYS_ipc_try_send then sys_ipc_try_send s a1 a2 a3 a4
     else if syscallno = SYS_ipc_recv then sys_ipc_recv s a1
     else Ret 0 s)"

subsection \<open>Example kernel states\<close>

text \<open>A sender (slot 0, running) with one writable page mapped at \<open>0x1000\<close>, and a
  receiver (slot 1) blocked in \<open>ipc_recv\<close> with the given destination address.\<close>

definition env_blank :: Env where
  "env_blank = \<lparr>env_id = 0, env_parent_id = 0, env_status = ENV_FREE,
     env_tf = \<lparr>reg_eax = 0, tf_other = []\<rparr>, env_pgfault_upcall = 0,
     env_ipc_recving = False, env_ipc_dstva = 0, env_ipc_value = 0, env_ipc_from = 0,
     env_ipc_perm = 0, env_pgdir = \<lparr>pd_tables = {}, pd_ptes = Map.empty\<rparr>\<rparr>"

definition env_sender :: Env where
  "env_sender = env_blank\<lparr>env_id := 0x1000, env_status := ENV_RUNNING,
     env_pgdir := \<lparr>pd_tables = {0}, pd_ptes = [0x1000 \<mapsto> (5, 7)]\<rparr>\<rparr>"

definition env_receiver :: "u32 \<Rightarrow> Env" where
  "env_receiver dstva = env_blank\<lparr>env_id := 0x1001, env_status := ENV_NOT_RUNNABLE,
     env_ipc_recving := True, env_ipc_dstva := dstva,
     env_pgdir := \<lparr>pd_tables = {0}, pd_ptes = Map.empty\<rparr>\<rparr>"

definition ipc_state :: "u32 \<Rightarrow> kstate" where
  "ipc_state dstva =
    \<lparr>envs = (\<lambda>_. env_blank)(0 := env_sender, Suc 0 := env_receiver dstva),
     curenv = 0, page_free_list = [9, 10], env_free_list = [2],
     cons_in = [], cons_out = []\<rparr>"


section \<open>JOS user library: strlcpy (lib/string.c, from the listing of user/icode)\<close>

text \<open>The memory of an environment: a byte at every 32-bit address. Pointers are
  addresses, so overlapping source and destination are what they are in C.\<close>

type_synonym mem = "u32 \<Rightarrow> 8 word"

text \<open>The loop \<open>while (--size > 0 && *src != 0) *dst++ = *src++\<close>: the capacity is
  decremented before it is tested. The result is the memory and the final \<open>dst\<close>.\<close>

function strlcpy_loop :: "mem \<Rightarrow> u32 \<Rightarrow> u32 \<Rightarrow> u32 \<Rightarrow> mem \<times> u32" where
  "strlcpy_loop m dst src sz =
    (if sz - 1 \<noteq> 0 \<and> m src \<noteq> 0
     then strlcpy_loop (m(dst := m src)) (dst + 1) (src + 1) (sz - 1)
     else (m, dst))"
  by pat_completeness auto
termination
proof (relation "measure (\<lambda>(m, dst, src, sz). unat (sz - 1))")
  show "wf (measure (\<lambda>(m :: mem, dst :: u32, src :: u32, sz :: u32). unat (sz - 1)))"
    by simp
next
  fix m :: mem and dst src sz :: u32
  assume "sz - 1 \<noteq> 0 \<and> m src \<noteq> 0"
  then show "((m(dst := m src), dst + 1, src + 1, sz - 1), (m, dst, src, sz))
      \<in> measure (\<lambda>(m, dst, src, sz). unat (sz - 1))"
    using measure_unat [of "sz - 1"] by simp
qed

declare strlcpy_loop.simps [simp del]

text \<open>\<open>strlcpy\<close> returns \<open>dst - dst_in\<close>, with the memory it leaves.\<close>

definition strlcpy :: "mem \<Rightarrow> u32 \<Rightarrow> u32 \<Rightarrow> u32 \<Rightarrow> mem \<times> u32" where
  "strlcpy m dst src sz =
    (if 0 < sz then
       (case strlcpy_loop m dst src sz of
          (m1, dst1) \<Rightarrow> (m1(dst1 := 0), dst1 - dst))
     else (m, dst - dst))"

text \<open>The string hello, with its terminator, at the address \<open>0x1000\<close>.\<close>

definition hello_mem :: mem where
  "hello_mem = (\<lambda>_. 0xFF)(0x1000 := 0x68, 0x1001 := 0x65, 0x1002 := 0x6C,
                          0x1003 := 0x6C, 0x1004 := 0x6F, 0x1005 := 0)"


section \<open>xv6 file system: fs.c\<close>

subsection \<open>Constants and layouts of the headers\<close>

text \<open>Modelled from the spec: the constants of fs.h, param.h, stat.h and file.h, which
  are not part of the slice. The comments of \<open>bmap\<close> and \<open>balloc\<close> fix the block size
  (512), the number of direct slots (11, file blocks \<open>[0,11)\<close>), the capacity of an
  indirect block (128, file blocks \<open>[11,139)\<close>) and of the double-indirect tier
  (\<open>[139,16523)\<close>); the maximum file size in blocks is the sum of the three.\<close>

definition BSIZE :: u32 where "BSIZE = 512"
definition NDIRECT :: u32 where "NDIRECT = 11"
definition NINDIRECT :: u32 where "NINDIRECT = 128"
definition NDINDIRECT :: u32 where "NDINDIRECT = 128 * 128"
definition SINGLE_LINKED_INDIRECT_TABLE :: nat where "SINGLE_LINKED_INDIRECT_TABLE = 11"
definition DOUBLE_LINKED_INDIRECT_TABLE :: nat where "DOUBLE_LINKED_INDIRECT_TABLE = 12"
definition MAXFILE :: u32 where "MAXFILE = NDIRECT + NINDIRECT + NDINDIRECT"
definition BPB :: nat where "BPB = 4096"
definition IPB :: u32 where "IPB = 8"
definition DIRSIZ :: nat where "DIRSIZ = 14"
definition ROOTDEV :: u32 where "ROOTDEV = 1"
definition ROOTINO :: u32 where "ROOTINO = 1"
definition NINODE :: nat where "NINODE = 50"
definition NDEV :: u16 where "NDEV = 10"
definition T_DIR :: u16 where "T_DIR = 1"
definition T_FILE :: u16 where "T_FILE = 2"
definition T_DEV :: u16 where "T_DEV = 3"
definition I_BUSY :: u32 where "I_BUSY = 1"
definition I_VALID :: u32 where "I_VALID = 2"

text \<open>A block of the buffer cache is its bytes; the first \<open>BSIZE\<close> of them are the
  block. Integers lie in a block in little-endian order.\<close>

type_synonym blk = "nat \<Rightarrow> u8"

definition rd16 :: "blk \<Rightarrow> nat \<Rightarrow> u16" where
  "rd16 b i = ucast (b i) OR push_bit 8 (ucast (b (i + 1)))"

definition rd32 :: "blk \<Rightarrow> nat \<Rightarrow> u32" where
  "rd32 b i = ucast (b i) OR push_bit 8 (ucast (b (i + 1)))
                OR push_bit 16 (ucast (b (i + 2))) OR push_bit 24 (ucast (b (i + 3)))"

definition wr16 :: "blk \<Rightarrow> nat \<Rightarrow> u16 \<Rightarrow> blk" where
  "wr16 b i v = b(i := ucast v, i + 1 := ucast (drop_bit 8 v))"

definition wr32 :: "blk \<Rightarrow> nat \<Rightarrow> u32 \<Rightarrow> blk" where
  "wr32 b i v = b(i := ucast v, i + 1 := ucast (drop_bit 8 v),
                  i + 2 := ucast (drop_bit 16 v), i + 3 := ucast (drop_bit 24 v))"

text \<open>Modelled from the spec: the superblock of fs.h (total block count, data block
  count, inode count, log size), read from block 1.\<close>

record superblock =
  sb_size :: u32
  sb_nblocks :: u32
  sb_ninodes :: u32
  sb_nlog :: u32

text \<open>Modelled from the spec: the block of the bitmap that holds the bit of block \<open>b\<close>,
  and the block that holds inode \<open>i\<close> (macros of fs.h): the inode region follows the
  superblock, the bitmap follows the inode region.\<close>

definition BBLOCK :: "u32 \<Rightarrow> u32 \<Rightarrow> u32" where
  "BBLOCK b ninodes = b div 4096 + ninodes div IPB + 3"

definition IBLOCK :: "u32 \<Rightarrow> u32" where
  "IBLOCK i = i div IPB + 2"

subsection \<open>State\<close>

text \<open>The in-memory inode of file.h. \<open>addrs\<close> has \<open>NDIRECT + 2\<close> slots.\<close>

record inode =
  i_dev :: u32
  i_inum :: u32
  i_ref :: int
  i_flags :: u32
  i_type :: u16
  i_major :: u16
  i_minor :: u16
  i_nlink :: u16
  i_size :: u32
  i_addrs :: "nat \<Rightarrow> u32"

text \<open>Modelled from the spec: an entry of the device switch table: the read and write
  hooks of a device, absent when unset. A hook gets the inode and the byte count; what
  it does to the device is outside the file system.\<close>

record devsw_entry =
  dev_read :: "(inode \<Rightarrow> u32 \<Rightarrow> u32 \<times> u8 list) option"
  dev_write :: "(inode \<Rightarrow> (nat \<Rightarrow> u8) \<Rightarrow> u32 \<Rightarrow> u32) option"

text \<open>The state of the file system: the blocks as the buffer cache shows them, by
  device and block number; the blocks handed to \<open>log_write\<close>, in order; the inode
  cache (a \<open>struct inode *\<close> is a slot index); the working directory of the running
  process; the device switch.\<close>

record fs_state =
  disk :: "u32 \<times> u32 \<Rightarrow> blk"
  fs_log :: "(u32 \<times> u32) list"
  icache :: "nat \<Rightarrow> inode"
  cwd :: nat
  devsw :: "nat \<Rightarrow> devsw_entry"

text \<open>An operation returns a value and a state, or control does not come back: the
  kernel panics, or the caller sleeps on a busy inode that nobody in this sequential
  model wakes.\<close>

datatype stop = Panic_fs string | Sleep

datatype 'a res = Ok 'a fs_state | Stop stop

definition upd_inode :: "fs_state \<Rightarrow> nat \<Rightarrow> (inode \<Rightarrow> inode) \<Rightarrow> fs_state" where
  "upd_inode s ip f = s\<lparr>icache := (icache s)(ip := f (icache s ip))\<rparr>"

text \<open>Modelled from the spec: the buffer cache and the journaling hook (bio.c, log.c),
  which are not part of the slice. \<open>bread\<close> gives the cached block, a store through
  the buffer's data changes the cached block, \<open>brelse\<close> gives the buffer back, and
  \<open>log_write\<close> records the block. Buffer locking is not modelled.\<close>

definition bread :: "fs_state \<Rightarrow> u32 \<Rightarrow> u32 \<Rightarrow> blk" where
  "bread s dev bno = disk s (dev, bno)"

definition bstore :: "fs_state \<Rightarrow> u32 \<Rightarrow> u32 \<Rightarrow> blk \<Rightarrow> fs_state" where
  "bstore s dev bno b = s\<lparr>disk := (disk s)((dev, bno) := b)\<rparr>"

definition log_write :: "fs_state \<Rightarrow> u32 \<Rightarrow> u32 \<Rightarrow> fs_state" where
  "log_write s dev bno = s\<lparr>fs_log := fs_log s @ [(dev, bno)]\<rparr>"

subsection \<open>Blocks\<close>

definition readsb :: "fs_state \<Rightarrow> u32 \<Rightarrow> superblock" where
  "readsb s dev =
    (let bp = bread s dev 1 in
     \<lparr>sb_size = rd32 bp 0, sb_nblocks = rd32 bp 4, sb_ninodes = rd32 bp 8,
      sb_nlog = rd32 bp 12\<rparr>)"

definition bzero :: "fs_state \<Rightarrow> u32 \<Rightarrow> u32 \<Rightarrow> fs_state" where
  "bzero s dev bno =
    (let bp = bread s dev bno;
         s1 = bstore s dev bno (\<lambda>i. if i < unat BSIZE then 0 else bp i)
     in log_write s1 dev bno)"

text \<open>The inner loop of \<open>balloc\<close> over the bits of one bitmap block: the first bit
  index \<open>bi\<close> with \<open>bi < BPB\<close> and \<open>b + bi < sb.size\<close> whose bit is clear. The loop
  variables are C ints; they are natural numbers here, which is what they are for a
  file system of less than \<open>2^31\<close> blocks.\<close>

function balloc_scan :: "blk \<Rightarrow> nat \<Rightarrow> nat \<Rightarrow> nat \<Rightarrow> nat option" where
  "balloc_scan bp b sz bi =
    (if bi < BPB \<and> b + bi < sz then
       (if bp (bi div 8) AND push_bit (bi mod 8) 1 = 0 then Some bi
        else balloc_scan bp b sz (Suc bi))
     else None)"
  by pat_completeness auto
termination
  by (relation "measure (\<lambda>(bp, b, sz, bi). BPB - bi)") auto

declare balloc_scan.simps [simp del]

function balloc_loop :: "fs_state \<Rightarrow> u32 \<Rightarrow> superblock \<Rightarrow> nat \<Rightarrow> u32 res" where
  "balloc_loop s dev sb b =
    (if b < unat (sb_size sb) then
       (let bno = BBLOCK (of_nat b) (sb_ninodes sb);
            bp = bread s dev bno
        in case balloc_scan bp b (unat (sb_size sb)) 0 of
             Some bi \<Rightarrow>
               (let s1 = bstore s dev bno
                           (bp(bi div 8 := bp (bi div 8) OR push_bit (bi mod 8) 1));
                    s2 = log_write s1 dev bno;
                    s3 = bzero s2 dev (of_nat (b + bi))
                in Ok (of_nat (b + bi)) s3)
           | None \<Rightarrow> balloc_loop s dev sb (b + BPB))
     else Stop (Panic_fs ''balloc: out of blocks''))"
  by pat_completeness auto
termination
  by (relation "measure (\<lambda>(s, dev, sb, b). unat (sb_size sb) - b)")
     (auto simp: BPB_def)

declare balloc_loop.simps [simp del]

definition balloc :: "fs_state \<Rightarrow> u32 \<Rightarrow> u32 res" where
  "balloc s dev = balloc_loop s dev (readsb s dev) 0"

definition bfree :: "fs_state \<Rightarrow> u32 \<Rightarrow> u32 \<Rightarrow> unit res" where
  "bfree s dev b =
    (let sb = readsb s dev;
         bno = BBLOCK b (sb_ninodes sb);
         bp = bread s dev bno;
         bi = unat b mod BPB
     in if bp (bi div 8) AND push_bit (bi mod 8) 1 = 0
        then Stop (Panic_fs ''freeing free block'')
        else Ok () (log_write
               (bstore s dev bno
                  (bp(bi div 8 := bp (bi div 8) AND NOT (push_bit (bi mod 8) 1))))
               dev bno))"


subsection \<open>Inodes\<close>

text \<open>Modelled from the spec: the on-disk inode of fs.h (type, major, minor, link count,
  size, block addresses), 64 bytes, \<open>IPB\<close> to a block.\<close>

definition dinode_off :: "u32 \<Rightarrow> nat" where
  "dinode_off inum = unat (inum mod IPB) * 64"

definition iupdate :: "fs_state \<Rightarrow> nat \<Rightarrow> fs_state" where
  "iupdate s ip =
    (let i = icache s ip;
         bno = IBLOCK (i_inum i);
         bp = bread s (i_dev i) bno;
         d = dinode_off (i_inum i);
         b1 = wr16 bp d (i_type i);
         b2 = wr16 b1 (d + 2) (i_major i);
         b3 = wr16 b2 (d + 4) (i_minor i);
         b4 = wr16 b3 (d + 6) (i_nlink i);
         b5 = wr32 b4 (d + 8) (i_size i);
         b6 = fold (\<lambda>k b. wr32 b (d + 12 + 4 * k) (i_addrs i k)) [0..<13] b5
     in log_write (bstore s (i_dev i) bno b6) (i_dev i) bno)"

text \<open>The scan of \<open>iget\<close> over the cache: a slot that holds the inode ends the scan;
  otherwise the first slot with no reference is remembered.\<close>

fun iget_scan :: "fs_state \<Rightarrow> u32 \<Rightarrow> u32 \<Rightarrow> nat list \<Rightarrow> nat option \<Rightarrow> nat + nat option" where
  "iget_scan s dev inum [] emp = Inr emp"
| "iget_scan s dev inum (i # is) emp =
    (if 0 < i_ref (icache s i) \<and> i_dev (icache s i) = dev \<and> i_inum (icache s i) = inum
     then Inl i
     else iget_scan s dev inum is
            (if emp = None \<and> i_ref (icache s i) = 0 then Some i else emp))"

definition iget :: "fs_state \<Rightarrow> u32 \<Rightarrow> u32 \<Rightarrow> nat res" where
  "iget s dev inum =
    (case iget_scan s dev inum [0..<NINODE] None of
       Inl ip \<Rightarrow> Ok ip (upd_inode s ip (\<lambda>i. i\<lparr>i_ref := i_ref i + 1\<rparr>))
     | Inr None \<Rightarrow> Stop (Panic_fs ''iget: no inodes'')
     | Inr (Some ip) \<Rightarrow>
         Ok ip (upd_inode s ip
                  (\<lambda>i. i\<lparr>i_dev := dev, i_inum := inum, i_ref := 1, i_flags := 0\<rparr>)))"

definition idup :: "fs_state \<Rightarrow> nat \<Rightarrow> nat res" where
  "idup s ip = Ok ip (upd_inode s ip (\<lambda>i. i\<lparr>i_ref := i_ref i + 1\<rparr>))"

definition ilock :: "fs_state \<Rightarrow> nat \<Rightarrow> unit res" where
  "ilock s ip =
    (if i_ref (icache s ip) < 1 then Stop (Panic_fs ''ilock'')
     else if i_flags (icache s ip) AND I_BUSY \<noteq> 0 then Stop Sleep
     else
       let s1 = upd_inode s ip (\<lambda>i. i\<lparr>i_flags := i_flags i OR I_BUSY\<rparr>) in
       if i_flags (icache s1 ip) AND I_VALID = 0 then
         (let i = icache s1 ip;
              bp = bread s1 (i_dev i) (IBLOCK (i_inum i));
              d = dinode_off (i_inum i);
              s2 = upd_inode s1 ip
                     (\<lambda>i. i\<lparr>i_type := rd16 bp d, i_major := rd16 bp (d + 2),
                            i_minor := rd16 bp (d + 4), i_nlink := rd16 bp (d + 6),
                            i_size := rd32 bp (d + 8),
                            i_addrs := (\<lambda>k. if k < 13 then rd32 bp (d + 12 + 4 * k)
                                             else i_addrs i k),
                            i_flags := i_flags i OR I_VALID\<rparr>)
          in if i_type (icache s2 ip) = 0 then Stop (Panic_fs ''ilock: no type'')
             else Ok () s2)
       else Ok () s1)"

definition iunlock :: "fs_state \<Rightarrow> nat \<Rightarrow> unit res" where
  "iunlock s ip =
    (if i_flags (icache s ip) AND I_BUSY = 0 \<or> i_ref (icache s ip) < 1
     then Stop (Panic_fs ''iunlock'')
     else Ok () (upd_inode s ip (\<lambda>i. i\<lparr>i_flags := i_flags i AND NOT I_BUSY\<rparr>)))"

subsection \<open>Inode content\<close>

text \<open>The two steps that \<open>bmap\<close> repeats: take the address in a slot of the inode, or
  in an entry of an indirect block, allocating a block and storing its address when the
  address is 0. A store through the buffer of the indirect block goes to the block as
  the cache holds it after the allocation.\<close>

definition bmap_slot :: "fs_state \<Rightarrow> nat \<Rightarrow> nat \<Rightarrow> u32 res" where
  "bmap_slot s ip k =
    (let addr = i_addrs (icache s ip) k in
     if addr = 0 then
       (case balloc s (i_dev (icache s ip)) of
          Ok addr s1 \<Rightarrow>
            Ok addr (upd_inode s1 ip (\<lambda>i. i\<lparr>i_addrs := (i_addrs i)(k := addr)\<rparr>))
        | Stop e \<Rightarrow> Stop e)
     else Ok addr s)"

definition bmap_entry :: "fs_state \<Rightarrow> u32 \<Rightarrow> u32 \<Rightarrow> nat \<Rightarrow> u32 res" where
  "bmap_entry s dev tbl k =
    (let addr = rd32 (bread s dev tbl) (4 * k) in
     if addr = 0 then
       (case balloc s dev of
          Ok addr s1 \<Rightarrow>
            Ok addr (log_write (bstore s1 dev tbl (wr32 (bread s1 dev tbl) (4 * k) addr))
                       dev tbl)
        | Stop e \<Rightarrow> Stop e)
     else Ok addr s)"

definition bmap :: "fs_state \<Rightarrow> nat \<Rightarrow> u32 \<Rightarrow> u32 res" where
  "bmap s ip bn =
    (if bn < NDIRECT then bmap_slot s ip (unat bn)
     else if bn - NDIRECT < NINDIRECT then
       (case bmap_slot s ip SINGLE_LINKED_INDIRECT_TABLE of
          Ok addr s1 \<Rightarrow> bmap_entry s1 (i_dev (icache s1 ip)) addr (unat (bn - NDIRECT))
        | Stop e \<Rightarrow> Stop e)
     else if bn - NDIRECT - NINDIRECT < NDINDIRECT then
       (case bmap_slot s ip DOUBLE_LINKED_INDIRECT_TABLE of
          Ok addr s1 \<Rightarrow>
            (case bmap_entry s1 (i_dev (icache s1 ip)) addr
                    (unat ((bn - NDIRECT - NINDIRECT) div NINDIRECT)) of
               Ok addr2 s2 \<Rightarrow>
                 bmap_entry s2 (i_dev (icache s2 ip)) addr2
                   (unat ((bn - NDIRECT - NINDIRECT) mod NINDIRECT))
             | Stop e \<Rightarrow> Stop e)
        | Stop e \<Rightarrow> Stop e)
     else Stop (Panic_fs ''bmap: out of range''))"

text \<open>\<open>itrunc\<close>: the loop over the direct slots, the loop over the entries of an
  indirect block, and the loop over the entries of the double-indirect block.\<close>

fun itrunc_direct :: "fs_state \<Rightarrow> nat \<Rightarrow> nat list \<Rightarrow> unit res" where
  "itrunc_direct s ip [] = Ok () s"
| "itrunc_direct s ip (i # is) =
    (if i_addrs (icache s ip) i \<noteq> 0 then
       (case bfree s (i_dev (icache s ip)) (i_addrs (icache s ip) i) of
          Ok _ s1 \<Rightarrow>
            itrunc_direct (upd_inode s1 ip (\<lambda>n. n\<lparr>i_addrs := (i_addrs n)(i := 0)\<rparr>)) ip is
        | Stop e \<Rightarrow> Stop e)
     else itrunc_direct s ip is)"

fun itrunc_entries :: "fs_state \<Rightarrow> u32 \<Rightarrow> u32 \<Rightarrow> nat list \<Rightarrow> unit res" where
  "itrunc_entries s dev tbl [] = Ok () s"
| "itrunc_entries s dev tbl (j # js) =
    (if rd32 (bread s dev tbl) (4 * j) \<noteq> 0 then
       (case bfree s dev (rd32 (bread s dev tbl) (4 * j)) of
          Ok _ s1 \<Rightarrow> itrunc_entries s1 dev tbl js
        | Stop e \<Rightarrow> Stop e)
     else itrunc_entries s dev tbl js)"

fun itrunc_double :: "fs_state \<Rightarrow> u32 \<Rightarrow> u32 \<Rightarrow> nat list \<Rightarrow> unit res" where
  "itrunc_double s dev tbl [] = Ok () s"
| "itrunc_double s dev tbl (j # js) =
    (if rd32 (bread s dev tbl) (4 * j) \<noteq> 0 then
       (case itrunc_entries s dev (rd32 (bread s dev tbl) (4 * j))
               [0..<unat NINDIRECT] of
          Ok _ s1 \<Rightarrow>
            (case bfree s1 dev (rd32 (bread s1 dev tbl) (4 * j)) of
               Ok _ s2 \<Rightarrow> itrunc_double s2 dev tbl js
             | Stop e \<Rightarrow> Stop e)
        | Stop e \<Rightarrow> Stop e)
     else itrunc_double s dev tbl js)"

definition itrunc_single_tier :: "fs_state \<Rightarrow> nat \<Rightarrow> unit res" where
  "itrunc_single_tier s ip =
    (let dev = i_dev (icache s ip);
         t = i_addrs (icache s ip) SINGLE_LINKED_INDIRECT_TABLE in
     if t \<noteq> 0 then
       (case itrunc_entries s dev t [0..<unat NINDIRECT] of
          Ok _ s1 \<Rightarrow>
            (case bfree s1 (i_dev (icache s1 ip))
                    (i_addrs (icache s1 ip) SINGLE_LINKED_INDIRECT_TABLE) of
               Ok _ s2 \<Rightarrow>
                 Ok () (upd_inode s2 ip (\<lambda>n. n\<lparr>i_addrs :=
                          (i_addrs n)(SINGLE_LINKED_INDIRECT_TABLE := 0)\<rparr>))
             | Stop e \<Rightarrow> Stop e)
        | Stop e \<Rightarrow> Stop e)
     else Ok () s)"

definition itrunc_double_tier :: "fs_state \<Rightarrow> nat \<Rightarrow> unit res" where
  "itrunc_double_tier s ip =
    (let dev = i_dev (icache s ip);
         t = i_addrs (icache s ip) DOUBLE_LINKED_INDIRECT_TABLE in
     if t \<noteq> 0 then
       (case itrunc_double s dev t [0..<unat NINDIRECT] of
          Ok _ s1 \<Rightarrow>
            (case bfree s1 (i_dev (icache s1 ip))
                    (i_addrs (icache s1 ip) DOUBLE_LINKED_INDIRECT_TABLE) of
               Ok _ s2 \<Rightarrow>
                 Ok () (upd_inode s2 ip (\<lambda>n. n\<lparr>i_addrs :=
                          (i_addrs n)(DOUBLE_LINKED_INDIRECT_TABLE := 0)\<rparr>))
             | Stop e \<Rightarrow> Stop e)
        | Stop e \<Rightarrow> Stop e)
     else Ok () s)"

definition itrunc :: "fs_state \<Rightarrow> nat \<Rightarrow> unit res" where
  "itrunc s ip =
    (case itrunc_direct s ip [0..<unat NDIRECT] of
       Ok _ s1 \<Rightarrow>
         (case itrunc_single_tier s1 ip of
            Ok _ s2 \<Rightarrow>
              (case itrunc_double_tier s2 ip of
                 Ok _ s3 \<Rightarrow> Ok () (iupdate (upd_inode s3 ip (\<lambda>n. n\<lparr>i_size := 0\<rparr>)) ip)
               | Stop e \<Rightarrow> Stop e)
          | Stop e \<Rightarrow> Stop e)
     | Stop e \<Rightarrow> Stop e)"

definition iput :: "fs_state \<Rightarrow> nat \<Rightarrow> unit res" where
  "iput s ip =
    (if i_ref (icache s ip) = 1 \<and> i_flags (icache s ip) AND I_VALID \<noteq> 0
        \<and> i_nlink (icache s ip) = 0 then
       (if i_flags (icache s ip) AND I_BUSY \<noteq> 0 then Stop (Panic_fs ''iput busy'')
        else
          (case itrunc (upd_inode s ip (\<lambda>i. i\<lparr>i_flags := i_flags i OR I_BUSY\<rparr>)) ip of
             Ok _ s1 \<Rightarrow>
               (let s2 = iupdate (upd_inode s1 ip (\<lambda>i. i\<lparr>i_type := 0\<rparr>)) ip;
                    s3 = upd_inode s2 ip (\<lambda>i. i\<lparr>i_flags := 0\<rparr>)
                in Ok () (upd_inode s3 ip (\<lambda>i. i\<lparr>i_ref := i_ref i - 1\<rparr>)))
           | Stop e \<Rightarrow> Stop e))
     else Ok () (upd_inode s ip (\<lambda>i. i\<lparr>i_ref := i_ref i - 1\<rparr>)))"

definition iunlockput :: "fs_state \<Rightarrow> nat \<Rightarrow> unit res" where
  "iunlockput s ip =
    (case iunlock s ip of
       Ok _ s1 \<Rightarrow> iput s1 ip
     | Stop e \<Rightarrow> Stop e)"


subsection \<open>File data\<close>

text \<open>The step of the copy loops: \<open>m = min(n - tot, BSIZE - off % BSIZE)\<close>.\<close>

definition chunk :: "u32 \<Rightarrow> u32 \<Rightarrow> u32 \<Rightarrow> u32" where
  "chunk off n tot = min (n - tot) (BSIZE - off mod BSIZE)"

lemma chunk_step:
  assumes "tot < n"
  shows "unat (tot + chunk off n tot) = unat tot + unat (chunk off n tot)"
    and "0 < unat (chunk off n tot)"
    and "unat tot + unat (chunk off n tot) \<le> unat n"
proof -
  have le: "chunk off n tot \<le> n - tot"
    by (simp add: chunk_def)
  have sub: "unat (n - tot) = unat n - unat tot"
    using assms by (simp add: unat_sub less_imp_le)
  from le have ule: "unat (chunk off n tot) \<le> unat n - unat tot"
    using sub by (simp add: word_le_nat_alt)
  have "unat tot < unat n"
    using assms by (simp add: word_less_nat_alt)
  with ule show "unat tot + unat (chunk off n tot) \<le> unat n"
    by simp
  moreover have "unat n < 2 ^ 32"
    using unsigned_less [of n, where ?'a = nat] by simp
  ultimately show "unat (tot + chunk off n tot) = unat tot + unat (chunk off n tot)"
    by (simp add: unat_add_lem [THEN iffD1])
  have "off mod BSIZE < BSIZE"
    by (simp add: BSIZE_def word_mod_less_divisor)
  then have "BSIZE - off mod BSIZE \<noteq> 0"
    by auto
  moreover have "n - tot \<noteq> 0"
    using assms by auto
  ultimately have "chunk off n tot \<noteq> 0"
    by (simp add: chunk_def min_def)
  then show "0 < unat (chunk off n tot)"
    by (simp add: unat_gt_0)
qed

text \<open>The loop of \<open>readi\<close>; the bytes copied to \<open>dst\<close> are collected in a list.\<close>

function readi_loop ::
    "fs_state \<Rightarrow> nat \<Rightarrow> u32 \<Rightarrow> u32 \<Rightarrow> u32 \<Rightarrow> u8 list \<Rightarrow> (u8 list) res" where
  "readi_loop s ip off n tot dst =
    (if tot < n then
       (case bmap s ip (off div BSIZE) of
          Ok addr s1 \<Rightarrow>
            (let bp = bread s1 (i_dev (icache s1 ip)) addr;
                 m = chunk off n tot
             in readi_loop s1 ip (off + m) n (tot + m)
                  (dst @ map (\<lambda>k. bp (unat (off mod BSIZE) + k)) [0..<unat m]))
        | Stop e \<Rightarrow> Stop e)
     else Ok dst s)"
  by pat_completeness auto
termination
proof (relation "measure (\<lambda>(s, ip, off, n, tot, dst). unat n - unat tot)")
  show "wf (measure (\<lambda>(s :: fs_state, ip :: nat, off :: u32, n :: u32, tot :: u32,
                       dst :: u8 list). unat n - unat tot))"
    by simp
next
  fix s :: fs_state and ip :: nat and off n tot :: u32 and dst :: "u8 list"
    and addr :: u32 and s1 :: fs_state and bp :: blk and m :: u32
  assume "tot < n" and "m = chunk off n tot"
  then show "((s1, ip, off + m, n, tot + m,
               dst @ map (\<lambda>k. bp (unat (off mod BSIZE) + k)) [0..<unat m]),
              (s, ip, off, n, tot, dst))
            \<in> measure (\<lambda>(s, ip, off, n, tot, dst). unat n - unat tot)"
    using chunk_step [of tot n off] by simp
qed

declare readi_loop.simps [simp del]

definition readi :: "fs_state \<Rightarrow> nat \<Rightarrow> u32 \<Rightarrow> u32 \<Rightarrow> (u32 \<times> u8 list) res" where
  "readi s ip off n =
    (let i = icache s ip in
     if i_type i = T_DEV then
       (if i_major i <s 0 \<or> NDEV \<le>s i_major i then Ok (- 1, []) s
        else case dev_read (devsw s (unat (i_major i))) of
               None \<Rightarrow> Ok (- 1, []) s
             | Some rd \<Rightarrow> Ok (rd i n) s)
     else if i_size i < off \<or> off + n < off then Ok (- 1, []) s
     else
       let n1 = (if i_size i < off + n then i_size i - off else n) in
       case readi_loop s ip off n1 0 [] of
         Ok dst s1 \<Rightarrow> Ok (n1, dst) s1
       | Stop e \<Rightarrow> Stop e)"

text \<open>The loop of \<open>writei\<close>; \<open>src\<close> gives the bytes from the source pointer on. The
  loop returns the final offset.\<close>

function writei_loop ::
    "fs_state \<Rightarrow> nat \<Rightarrow> (nat \<Rightarrow> u8) \<Rightarrow> u32 \<Rightarrow> u32 \<Rightarrow> u32 \<Rightarrow> u32 res" where
  "writei_loop s ip src off n tot =
    (if tot < n then
       (case bmap s ip (off div BSIZE) of
          Ok addr s1 \<Rightarrow>
            (let dev = i_dev (icache s1 ip);
                 bp = bread s1 dev addr;
                 m = chunk off n tot;
                 bo = unat (off mod BSIZE);
                 s2 = bstore s1 dev addr
                        (\<lambda>i. if bo \<le> i \<and> i < bo + unat m then src (i - bo) else bp i);
                 s3 = log_write s2 dev addr
             in writei_loop s3 ip (\<lambda>k. src (unat m + k)) (off + m) n (tot + m))
        | Stop e \<Rightarrow> Stop e)
     else Ok off s)"
  by pat_completeness auto
termination
proof (relation "measure (\<lambda>(s, ip, src, off, n, tot). unat n - unat tot)")
  show "wf (measure (\<lambda>(s :: fs_state, ip :: nat, src :: nat \<Rightarrow> u8, off :: u32, n :: u32,
                       tot :: u32). unat n - unat tot))"
    by simp
next
  fix s :: fs_state and ip :: nat and src :: "nat \<Rightarrow> u8" and off n tot :: u32
    and s3 :: fs_state and m :: u32
  assume "tot < n" and "m = chunk off n tot"
  then show "((s3, ip, \<lambda>k. src (unat m + k), off + m, n, tot + m), (s, ip, src, off, n, tot))
            \<in> measure (\<lambda>(s, ip, src, off, n, tot). unat n - unat tot)"
    using chunk_step [of tot n off] by simp
qed

declare writei_loop.simps [simp del]

definition writei :: "fs_state \<Rightarrow> nat \<Rightarrow> (nat \<Rightarrow> u8) \<Rightarrow> u32 \<Rightarrow> u32 \<Rightarrow> u32 res" where
  "writei s ip src off n =
    (let i = icache s ip in
     if i_type i = T_DEV then
       (if i_major i <s 0 \<or> NDEV \<le>s i_major i then Ok (- 1) s
        else case dev_write (devsw s (unat (i_major i))) of
               None \<Rightarrow> Ok (- 1) s
             | Some wr \<Rightarrow> Ok (wr i src n) s)
     else if i_size i < off \<or> off + n < off then Ok (- 1) s
     else if MAXFILE * BSIZE < off + n then Ok (- 1) s
     else
       case writei_loop s ip src off n 0 of
         Ok off1 s1 \<Rightarrow>
           if 0 < n \<and> i_size (icache s1 ip) < off1
           then Ok n (iupdate (upd_inode s1 ip (\<lambda>i. i\<lparr>i_size := off1\<rparr>)) ip)
           else Ok n s1
       | Stop e \<Rightarrow> Stop e)"


subsection \<open>Directories\<close>

text \<open>A C string or a name buffer is the list of its bytes; the byte after the end of
  the list is the terminator.\<close>

definition cnth :: "u8 list \<Rightarrow> nat \<Rightarrow> u8" where
  "cnth xs i = (if i < length xs then xs ! i else 0)"

text \<open>Modelled from the spec: the bounded string comparison and the bounded, padding
  string copy of string.c, which is not part of the slice: the difference of the first
  mismatching bytes, as unsigned, within the bound; the copy takes the bytes before the
  terminator, at most the bound, and pads with terminators.\<close>

fun strncmp :: "u8 list \<Rightarrow> u8 list \<Rightarrow> nat \<Rightarrow> nat \<Rightarrow> int" where
  "strncmp p q i 0 = 0"
| "strncmp p q i (Suc n) =
    (if cnth p i \<noteq> 0 \<and> cnth p i = cnth q i then strncmp p q (Suc i) n
     else uint (cnth p i) - uint (cnth q i))"

definition strncpy :: "u8 list \<Rightarrow> nat \<Rightarrow> u8 list" where
  "strncpy t n =
    (let cs = take n (takeWhile (\<lambda>c. c \<noteq> 0) t) in cs @ replicate (n - length cs) 0)"

definition namecmp :: "u8 list \<Rightarrow> u8 list \<Rightarrow> int" where
  "namecmp s t = strncmp s t 0 DIRSIZ"

text \<open>Modelled from the spec: the directory entry of fs.h: a 16-bit inode number and a
  name of \<open>DIRSIZ\<close> bytes, 16 bytes in all.\<close>

definition de_inum :: "u8 list \<Rightarrow> u16" where
  "de_inum de = rd16 (cnth de) 0"

definition de_name :: "u8 list \<Rightarrow> u8 list" where
  "de_name de = take DIRSIZ (drop 2 de)"

definition mk_dirent :: "u16 \<Rightarrow> u8 list \<Rightarrow> u8 list" where
  "mk_dirent inum name = [ucast inum, ucast (drop_bit 8 inum)] @ name"

text \<open>The loop of \<open>dirlookup\<close>. On a device inode whose read hook keeps returning
  entries the offset wraps around and the loop does not end: the result is an option,
  \<open>None\<close> when the loop runs forever. A match gives the inode and the offset of the
  entry (what \<open>*poff\<close> receives when the caller asks for it).\<close>

partial_function (option) dirlookup_loop ::
    "fs_state \<Rightarrow> nat \<Rightarrow> u8 list \<Rightarrow> u32 \<Rightarrow> (nat \<times> u32) option res option" where
  "dirlookup_loop s dp name off =
    (if off < i_size (icache s dp) then
       (case readi s dp off 16 of
          Stop e \<Rightarrow> Some (Stop e)
        | Ok (r, de) s1 \<Rightarrow>
            if r \<noteq> 16 then Some (Stop (Panic_fs ''dirlink read''))
            else if de_inum de = 0 then dirlookup_loop s1 dp name (off + 16)
            else if namecmp name (de_name de) = 0 then
              (case iget s1 (i_dev (icache s1 dp)) (ucast (de_inum de)) of
                 Ok ip s2 \<Rightarrow> Some (Ok (Some (ip, off)) s2)
               | Stop e \<Rightarrow> Some (Stop e))
            else dirlookup_loop s1 dp name (off + 16))
     else Some (Ok None s))"

definition dirlookup ::
    "fs_state \<Rightarrow> nat \<Rightarrow> u8 list \<Rightarrow> (nat \<times> u32) option res option" where
  "dirlookup s dp name =
    (if i_type (icache s dp) \<noteq> T_DIR then Some (Stop (Panic_fs ''dirlookup not DIR''))
     else dirlookup_loop s dp name 0)"

text \<open>The second loop of \<open>dirlink\<close>: the offset of the first entry with inode number
  0, or the size when the loop runs to the end.\<close>

partial_function (option) dirlink_scan ::
    "fs_state \<Rightarrow> nat \<Rightarrow> u32 \<Rightarrow> u32 res option" where
  "dirlink_scan s dp off =
    (if off < i_size (icache s dp) then
       (case readi s dp off 16 of
          Stop e \<Rightarrow> Some (Stop e)
        | Ok (r, de) s1 \<Rightarrow>
            if r \<noteq> 16 then Some (Stop (Panic_fs ''dirlink read''))
            else if de_inum de = 0 then Some (Ok off s1)
            else dirlink_scan s1 dp (off + 16))
     else Some (Ok off s))"

definition dirlink :: "fs_state \<Rightarrow> nat \<Rightarrow> u8 list \<Rightarrow> u32 \<Rightarrow> u32 res option" where
  "dirlink s dp name inum =
    (case dirlookup s dp name of
       None \<Rightarrow> None
     | Some (Stop e) \<Rightarrow> Some (Stop e)
     | Some (Ok (Some (ip, poff)) s1) \<Rightarrow>
         (case iput s1 ip of
            Ok _ s2 \<Rightarrow> Some (Ok (- 1) s2)
          | Stop e \<Rightarrow> Some (Stop e))
     | Some (Ok None s1) \<Rightarrow>
         (case dirlink_scan s1 dp 0 of
            None \<Rightarrow> None
          | Some (Stop e) \<Rightarrow> Some (Stop e)
          | Some (Ok off s2) \<Rightarrow>
              (case writei s2 dp (cnth (mk_dirent (ucast inum) (strncpy name DIRSIZ)))
                      off 16 of
                 Stop e \<Rightarrow> Some (Stop e)
               | Ok r s3 \<Rightarrow>
                   if r \<noteq> 16 then Some (Stop (Panic_fs ''dirlink''))
                   else Some (Ok 0 s3))))"

subsection \<open>Paths\<close>

text \<open>A path is the characters of the C string before its terminator; a NUL character
  in the list ends the string as well. \<open>skipelem\<close> gives the rest of the path and the
  name buffer, or nothing when no element is left.\<close>

definition is_slash :: "char \<Rightarrow> bool" where
  "is_slash c = (c = CHR ''/'')"

definition is_nul :: "char \<Rightarrow> bool" where
  "is_nul c = (c = CHR 0x00)"

definition path_end :: "string \<Rightarrow> bool" where
  "path_end path = (case path of [] \<Rightarrow> True | c # cs \<Rightarrow> is_nul c)"

definition skipelem :: "string \<Rightarrow> u8 list \<Rightarrow> (string \<times> u8 list) option" where
  "skipelem path name =
    (let p1 = dropWhile is_slash path in
     if path_end p1 then None
     else
       let s = takeWhile (\<lambda>c. \<not> is_slash c \<and> \<not> is_nul c) p1;
           p2 = dropWhile (\<lambda>c. \<not> is_slash c \<and> \<not> is_nul c) p1;
           len = length s;
           name1 = (if DIRSIZ \<le> len
                    then map of_char (take DIRSIZ s) @ drop DIRSIZ name
                    else map of_char s @ [0] @ drop (len + 1) name)
       in Some (dropWhile is_slash p2, name1))"

text \<open>The loop of \<open>namex\<close>. The result is the inode, or nothing for the null pointer,
  and the name buffer.\<close>

partial_function (option) namex_loop ::
    "fs_state \<Rightarrow> nat \<Rightarrow> string \<Rightarrow> bool \<Rightarrow> u8 list \<Rightarrow> (nat option \<times> u8 list) res option" where
  "namex_loop s ip path nameiparent name =
    (case skipelem path name of
       None \<Rightarrow>
         (if nameiparent then
            (case iput s ip of
               Ok _ s1 \<Rightarrow> Some (Ok (None, name) s1)
             | Stop e \<Rightarrow> Some (Stop e))
          else Some (Ok (Some ip, name) s))
     | Some (path1, name1) \<Rightarrow>
         (case ilock s ip of
            Stop e \<Rightarrow> Some (Stop e)
          | Ok _ s1 \<Rightarrow>
              if i_type (icache s1 ip) \<noteq> T_DIR then
                (case iunlockput s1 ip of
                   Ok _ s2 \<Rightarrow> Some (Ok (None, name1) s2)
                 | Stop e \<Rightarrow> Some (Stop e))
              else if nameiparent \<and> path_end path1 then
                (case iunlock s1 ip of
                   Ok _ s2 \<Rightarrow> Some (Ok (Some ip, name1) s2)
                 | Stop e \<Rightarrow> Some (Stop e))
              else
                (case dirlookup s1 ip name1 of
                   None \<Rightarrow> None
                 | Some (Stop e) \<Rightarrow> Some (Stop e)
                 | Some (Ok None s2) \<Rightarrow>
                     (case iunlockput s2 ip of
                        Ok _ s3 \<Rightarrow> Some (Ok (None, name1) s3)
                      | Stop e \<Rightarrow> Some (Stop e))
                 | Some (Ok (Some (next, poff)) s2) \<Rightarrow>
                     (case iunlockput s2 ip of
                        Ok _ s3 \<Rightarrow> namex_loop s3 next path1 nameiparent name1
                      | Stop e \<Rightarrow> Some (Stop e)))))"

definition namex ::
    "fs_state \<Rightarrow> string \<Rightarrow> bool \<Rightarrow> u8 list \<Rightarrow> (nat option \<times> u8 list) res option" where
  "namex s path nameiparent name =
    (case (if \<not> path_end path \<and> is_slash (hd path) then iget s ROOTDEV ROOTINO
           else idup s (cwd s)) of
       Ok ip s1 \<Rightarrow> namex_loop s1 ip path nameiparent name
     | Stop e \<Rightarrow> Some (Stop e))"

text \<open>\<open>namei\<close> hands \<open>namex\<close> a local buffer of \<open>DIRSIZ\<close> bytes, taken as zeros here,
  and drops it on return.\<close>

definition namei :: "fs_state \<Rightarrow> string \<Rightarrow> nat option res option" where
  "namei s path =
    (case namex s path False (replicate DIRSIZ 0) of
       None \<Rightarrow> None
     | Some (Ok (ip, name) s1) \<Rightarrow> Some (Ok ip s1)
     | Some (Stop e) \<Rightarrow> Some (Stop e))"

definition nameiparent ::
    "fs_state \<Rightarrow> string \<Rightarrow> u8 list \<Rightarrow> (nat option \<times> u8 list) res option" where
  "nameiparent s path name = namex s path True name"


subsection \<open>An example file system\<close>

text \<open>A volume of 32 blocks on device 1 with 8 inodes: superblock in block 1, inodes in
  blocks 2 and 3, the bitmap in block 4 with blocks 0 to 5 in use, and in block 5 the
  content of the root directory: one entry, the name \<open>x\<close> for inode 2. The cache holds
  the root directory (slot 0, the working directory) and the empty file of inode 2
  (slot 1), both locked and valid.\<close>

definition ex_sb :: blk where
  "ex_sb = (\<lambda>_. 0)(0 := 32, 8 := 8)"

definition ex_bitmap :: blk where
  "ex_bitmap = (\<lambda>_. 0)(0 := 0x3F)"

definition ex_dir :: blk where
  "ex_dir = (\<lambda>_. 0)(0 := 2, 2 := 0x78)"

definition ex_inode :: inode where
  "ex_inode = \<lparr>i_dev = 0, i_inum = 0, i_ref = 0, i_flags = 0, i_type = 0, i_major = 0,
     i_minor = 0, i_nlink = 0, i_size = 0, i_addrs = (\<lambda>_. 0)\<rparr>"

definition ex_root :: inode where
  "ex_root = ex_inode\<lparr>i_dev := 1, i_inum := 1, i_ref := 1, i_flags := 3, i_type := T_DIR,
     i_nlink := 1, i_size := 16, i_addrs := (\<lambda>_. 0)(0 := 5)\<rparr>"

definition ex_file :: inode where
  "ex_file = ex_inode\<lparr>i_dev := 1, i_inum := 2, i_ref := 1, i_flags := 3, i_type := T_FILE,
     i_nlink := 1\<rparr>"

definition ex_fs :: fs_state where
  "ex_fs = \<lparr>disk = (\<lambda>_. (\<lambda>_. 0))((1, 1) := ex_sb, (1, 4) := ex_bitmap, (1, 5) := ex_dir),
     fs_log = [],
     icache = (\<lambda>_. ex_inode)(0 := ex_root, Suc 0 := ex_file),
     cwd = 0,
     devsw = (\<lambda>_. \<lparr>dev_read = None, dev_write = None\<rparr>)\<rparr>"

text \<open>The example after the file of inode 2 got its first block: block 6 is marked
  in the bitmap, zeroed, and held in the first direct slot.\<close>

definition ex_fs_alloc :: fs_state where
  "ex_fs_alloc = ex_fs\<lparr>disk := (disk ex_fs)((1, 4) := ex_bitmap(0 := 0x7F), (1, 6) := (\<lambda>i. 0)),
     fs_log := [(1, 4), (1, 6)],
     icache := (icache ex_fs)(Suc 0 := ex_file\<lparr>i_addrs := (\<lambda>_. 0)(0 := 6)\<rparr>)\<rparr>"

text \<open>The example with a size given to the (empty) file of inode 2: a file of that
  size with no block yet.\<close>

definition ex_sized :: "u32 \<Rightarrow> fs_state" where
  "ex_sized z = upd_inode ex_fs (Suc 0) (\<lambda>i. i\<lparr>i_size := z\<rparr>)"


subsection \<open>The block tree of an inode and its consistency\<close>

text \<open>The bit of block \<open>k\<close> in the bitmap, as \<open>balloc\<close> and \<open>bfree\<close> test it.\<close>

definition bit_used :: "blk \<Rightarrow> nat \<Rightarrow> bool" where
  "bit_used bp bi = (bp (bi div 8) AND push_bit (bi mod 8) 1 \<noteq> 0)"

definition blk_used :: "fs_state \<Rightarrow> u32 \<Rightarrow> nat \<Rightarrow> bool" where
  "blk_used s dev k =
    bit_used (bread s dev (BBLOCK (of_nat k) (sb_ninodes (readsb s dev)))) (k mod BPB)"

text \<open>What a successful \<open>balloc\<close> that picks block \<open>k\<close> does to the state: the bit is
  set in the bitmap block, the bitmap block is logged, the block is zeroed and logged.\<close>

definition alloc_effect :: "fs_state \<Rightarrow> u32 \<Rightarrow> nat \<Rightarrow> fs_state" where
  "alloc_effect s dev k =
    (let bno = BBLOCK (of_nat k) (sb_ninodes (readsb s dev));
         bp = bread s dev bno;
         bi = k mod BPB;
         s1 = bstore s dev bno (bp(bi div 8 := bp (bi div 8) OR push_bit (bi mod 8) 1));
         s2 = log_write s1 dev bno
     in bzero s2 dev (of_nat k))"

text \<open>The first block after the bitmap: the blocks below it are the boot block, the
  superblock, the inodes and the bitmap.\<close>

definition data_start :: "fs_state \<Rightarrow> u32 \<Rightarrow> nat" where
  "data_start s dev =
    unat (sb_ninodes (readsb s dev) div IPB) + 3
      + (unat (sb_size (readsb s dev)) - 1) div BPB + 1"

text \<open>The places where an inode keeps a block address: a direct slot, the slot of the
  single-indirect block and an entry of that block, the slot of the double-indirect
  block, an entry of it (a second-level block), and an entry of a second-level block.
  \<open>slot_val\<close> is the address in a place, 0 when the place does not exist (its index is
  out of range, or the block that would hold it is not allocated).\<close>

datatype slot = Direct nat | Single | SingleEnt nat | Double | DoubleEnt nat | Leaf nat nat

definition tbl_entry :: "fs_state \<Rightarrow> nat \<Rightarrow> u32 \<Rightarrow> nat \<Rightarrow> u32" where
  "tbl_entry s ip tbl j =
    (if j < unat NINDIRECT \<and> tbl \<noteq> 0
     then rd32 (bread s (i_dev (icache s ip)) tbl) (4 * j) else 0)"

fun slot_val :: "fs_state \<Rightarrow> nat \<Rightarrow> slot \<Rightarrow> u32" where
  "slot_val s ip (Direct i) = (if i < unat NDIRECT then i_addrs (icache s ip) i else 0)"
| "slot_val s ip Single = i_addrs (icache s ip) SINGLE_LINKED_INDIRECT_TABLE"
| "slot_val s ip (SingleEnt j) =
    tbl_entry s ip (i_addrs (icache s ip) SINGLE_LINKED_INDIRECT_TABLE) j"
| "slot_val s ip Double = i_addrs (icache s ip) DOUBLE_LINKED_INDIRECT_TABLE"
| "slot_val s ip (DoubleEnt k) =
    tbl_entry s ip (i_addrs (icache s ip) DOUBLE_LINKED_INDIRECT_TABLE) k"
| "slot_val s ip (Leaf k j) =
    tbl_entry s ip
      (tbl_entry s ip (i_addrs (icache s ip) DOUBLE_LINKED_INDIRECT_TABLE) k) j"

text \<open>The place of the data block of file block \<open>bn\<close>, the places on the way to it, and
  the address \<open>bmap\<close> finds there without allocating.\<close>

definition leaf_slot :: "u32 \<Rightarrow> slot" where
  "leaf_slot bn =
    (if bn < NDIRECT then Direct (unat bn)
     else if bn - NDIRECT < NINDIRECT then SingleEnt (unat (bn - NDIRECT))
     else Leaf (unat ((bn - NDIRECT - NINDIRECT) div NINDIRECT))
               (unat ((bn - NDIRECT - NINDIRECT) mod NINDIRECT)))"

definition path_slots :: "u32 \<Rightarrow> slot list" where
  "path_slots bn =
    (if bn < NDIRECT then [Direct (unat bn)]
     else if bn - NDIRECT < NINDIRECT then [Single, SingleEnt (unat (bn - NDIRECT))]
     else [Double, DoubleEnt (unat ((bn - NDIRECT - NINDIRECT) div NINDIRECT)),
           Leaf (unat ((bn - NDIRECT - NINDIRECT) div NINDIRECT))
                (unat ((bn - NDIRECT - NINDIRECT) mod NINDIRECT))])"

definition blk_of :: "fs_state \<Rightarrow> nat \<Rightarrow> u32 \<Rightarrow> u32" where
  "blk_of s ip bn = slot_val s ip (leaf_slot bn)"

text \<open>A consistent inode: the blocks below the data area are marked in use, so that
  \<open>balloc\<close> never hands them out; every address the inode holds is a block of the data
  area that is marked in use; and no address is held in two places.\<close>

definition good_blk :: "fs_state \<Rightarrow> u32 \<Rightarrow> u32 \<Rightarrow> bool" where
  "good_blk s dev a =
    (data_start s dev \<le> unat a \<and> unat a < unat (sb_size (readsb s dev))
     \<and> blk_used s dev (unat a))"

definition meta_used :: "fs_state \<Rightarrow> u32 \<Rightarrow> bool" where
  "meta_used s dev =
    (\<forall>k. k < data_start s dev \<and> k < unat (sb_size (readsb s dev)) \<longrightarrow> blk_used s dev k)"

definition inode_wf :: "fs_state \<Rightarrow> nat \<Rightarrow> bool" where
  "inode_wf s ip =
    (meta_used s (i_dev (icache s ip))
     \<and> (\<forall>sl. slot_val s ip sl \<noteq> 0 \<longrightarrow> good_blk s (i_dev (icache s ip)) (slot_val s ip sl))
     \<and> (\<forall>sl sl'. slot_val s ip sl \<noteq> 0 \<and> slot_val s ip sl = slot_val s ip sl'
            \<longrightarrow> sl = sl'))"

text \<open>The places that hold a table (an indirect block), the place of an \<open>addrs\<close> index,
  and the place of an entry of a table.\<close>

fun is_tbl_slot :: "slot \<Rightarrow> bool" where
  "is_tbl_slot Single = True"
| "is_tbl_slot Double = True"
| "is_tbl_slot (DoubleEnt k) = True"
| "is_tbl_slot sl = False"

definition islot :: "nat \<Rightarrow> slot" where
  "islot k =
    (if k = SINGLE_LINKED_INDIRECT_TABLE then Single
     else if k = DOUBLE_LINKED_INDIRECT_TABLE then Double
     else Direct k)"

fun child :: "slot \<Rightarrow> nat \<Rightarrow> slot" where
  "child Single j = SingleEnt j"
| "child Double j = DoubleEnt j"
| "child (DoubleEnt k) j = Leaf k j"
| "child sl j = sl"

text \<open>A block just allocated: in the data area and in use, held in no place of the
  inode, and zeroed.\<close>

definition fresh_blk :: "fs_state \<Rightarrow> nat \<Rightarrow> u32 \<Rightarrow> bool" where
  "fresh_blk s ip a =
    (good_blk s (i_dev (icache s ip)) a \<and> (\<forall>sl. slot_val s ip sl \<noteq> a)
     \<and> (\<forall>i<512. disk s (i_dev (icache s ip), a) i = 0))"

text \<open>How an operation on the content of inode \<open>ip\<close> may change the state: addresses
  that are held stay where they are, the data blocks held keep their bytes, of the inode
  cache only the addresses of \<open>ip\<close> change, the superblock is as before and no block
  in use becomes free.\<close>

definition grows :: "fs_state \<Rightarrow> fs_state \<Rightarrow> nat \<Rightarrow> bool" where
  "grows s s1 ip =
    ((\<forall>sl. slot_val s ip sl \<noteq> 0 \<longrightarrow> slot_val s1 ip sl = slot_val s ip sl)
     \<and> (\<forall>sl. slot_val s ip sl \<noteq> 0 \<and> \<not> is_tbl_slot sl \<longrightarrow>
           disk s1 (i_dev (icache s ip), slot_val s ip sl)
             = disk s (i_dev (icache s ip), slot_val s ip sl))
     \<and> icache s1 = (icache s)(ip := (icache s ip)\<lparr>i_addrs := i_addrs (icache s1 ip)\<rparr>)
     \<and> cwd s1 = cwd s \<and> devsw s1 = devsw s
     \<and> readsb s1 (i_dev (icache s ip)) = readsb s (i_dev (icache s ip))
     \<and> (\<forall>j. j < unat (sb_size (readsb s (i_dev (icache s ip))))
              \<and> blk_used s (i_dev (icache s ip)) j
           \<longrightarrow> blk_used s1 (i_dev (icache s ip)) j))"

text \<open>Every block that is in use after an operation and was free before it is held, and
  is non-zero, in one of the given places, which held 0 before.\<close>

definition new_in :: "fs_state \<Rightarrow> fs_state \<Rightarrow> nat \<Rightarrow> slot set \<Rightarrow> bool" where
  "new_in s s1 ip S =
    (\<forall>j. j < unat (sb_size (readsb s (i_dev (icache s ip))))
          \<and> blk_used s1 (i_dev (icache s ip)) j \<and> \<not> blk_used s (i_dev (icache s ip)) j
       \<longrightarrow> (\<exists>sl\<in>S. slot_val s ip sl = 0 \<and> slot_val s1 ip sl = of_nat j
                  \<and> slot_val s1 ip sl \<noteq> 0))"

text \<open>The content of the file of an inode, byte by byte: the byte at position \<open>p\<close> is
  in the block that holds file block \<open>p div 512\<close>, when that block is mapped.\<close>

definition mapped :: "fs_state \<Rightarrow> nat \<Rightarrow> nat \<Rightarrow> bool" where
  "mapped s ip p = (blk_of s ip (of_nat (p div 512)) \<noteq> 0)"

definition file_byte :: "fs_state \<Rightarrow> nat \<Rightarrow> nat \<Rightarrow> u8" where
  "file_byte s ip p =
    disk s (i_dev (icache s ip), blk_of s ip (of_nat (p div 512))) (p mod 512)"

text \<open>As \<open>grows\<close>, without the promise on the bytes of the data blocks.\<close>

definition keeps :: "fs_state \<Rightarrow> fs_state \<Rightarrow> nat \<Rightarrow> bool" where
  "keeps s s1 ip =
    ((\<forall>sl. slot_val s ip sl \<noteq> 0 \<longrightarrow> slot_val s1 ip sl = slot_val s ip sl)
     \<and> icache s1 = (icache s)(ip := (icache s ip)\<lparr>i_addrs := i_addrs (icache s1 ip)\<rparr>)
     \<and> cwd s1 = cwd s \<and> devsw s1 = devsw s
     \<and> readsb s1 (i_dev (icache s ip)) = readsb s (i_dev (icache s ip)))"

text \<open>What a run of the loop of \<open>writei\<close> that starts at position \<open>p\<close> with \<open>r\<close> bytes
  to go leaves: a consistent inode, the \<open>r\<close> bytes of the source in the file from \<open>p\<close>
  on, and the bytes of the file before \<open>p\<close> as they were.\<close>

definition wrote :: "fs_state \<Rightarrow> fs_state \<Rightarrow> nat \<Rightarrow> (nat \<Rightarrow> u8) \<Rightarrow> nat \<Rightarrow> nat \<Rightarrow> bool" where
  "wrote s s1 ip src p r =
    (inode_wf s1 ip \<and> keeps s s1 ip
     \<and> (\<forall>i. i < r \<longrightarrow> mapped s1 ip (p + i) \<and> file_byte s1 ip (p + i) = src i)
     \<and> (\<forall>q. q < p \<and> mapped s ip q \<longrightarrow> file_byte s1 ip q = file_byte s ip q))"

text \<open>The \<open>k\<close>-th entry of a directory, as the 16 bytes of the file, and an entry that
  \<open>dirlookup\<close> takes for the name: its inode number is not 0 and \<open>namecmp\<close> gives 0.\<close>

definition dirent_at :: "fs_state \<Rightarrow> nat \<Rightarrow> nat \<Rightarrow> u8 list" where
  "dirent_at s dp k = map (\<lambda>i. file_byte s dp (16 * k + i)) [0..<16]"

definition dir_match :: "fs_state \<Rightarrow> nat \<Rightarrow> u8 list \<Rightarrow> nat \<Rightarrow> bool" where
  "dir_match s dp name k =
    (de_inum (dirent_at s dp k) \<noteq> 0 \<and> namecmp name (de_name (dirent_at s dp k)) = 0)"

text \<open>The free blocks of a device, the places among \<open>N\<close> that hold no address, and the
  condition that there is a free block for every such place.\<close>

definition free_blks :: "fs_state \<Rightarrow> u32 \<Rightarrow> nat set" where
  "free_blks s dev = {k. k < unat (sb_size (readsb s dev)) \<and> \<not> blk_used s dev k}"

definition zero_slots :: "fs_state \<Rightarrow> nat \<Rightarrow> slot set \<Rightarrow> slot set" where
  "zero_slots s ip N = {sl \<in> N. slot_val s ip sl = 0}"

definition enough :: "fs_state \<Rightarrow> nat \<Rightarrow> slot set \<Rightarrow> bool" where
  "enough s ip N =
    (finite N \<and> card (zero_slots s ip N) \<le> card (free_blks s (i_dev (icache s ip))))"

text \<open>The places on the way to the blocks of the \<open>r\<close> bytes of a file from position
  \<open>p\<close> on.\<close>

definition range_slots :: "nat \<Rightarrow> nat \<Rightarrow> slot set" where
  "range_slots p r = (\<Union>q \<in> {p..<p + r}. set (path_slots (of_nat (q div 512))))"


section \<open>Properties of the system calls\<close>

lemmas jos_consts =
  E_BAD_ENV_def E_INVAL_def E_NO_MEM_def E_NO_FREE_ENV_def E_IPC_NOT_RECV_def
  UTOP_def PGSIZE_def PTE_P_def PTE_W_def PTE_U_def
  ENV_FREE_def ENV_DYING_def ENV_RUNNABLE_def ENV_RUNNING_def ENV_NOT_RUNNABLE_def

lemmas errs =
  E_BAD_ENV_def E_INVAL_def E_NO_MEM_def E_NO_FREE_ENV_def E_IPC_NOT_RECV_def

lemmas sys_numbers =
  SYS_cputs_def SYS_cgetc_def SYS_getenvid_def SYS_env_destroy_def SYS_page_alloc_def
  SYS_page_map_def SYS_page_unmap_def SYS_exofork_def SYS_env_set_status_def
  SYS_env_set_trapframe_def SYS_env_set_pgfault_upcall_def SYS_yield_def
  SYS_ipc_try_send_def SYS_ipc_recv_def

lemmas ipc_state_defs =
  ipc_state_def env_sender_def env_receiver_def env_blank_def

text \<open>A permission word that \<open>check_perm\<close> accepts has the present bit set, so the
  entry that \<open>page_insert\<close> writes carries exactly the given permission.\<close>

lemma check_perm_present:
  assumes "\<not> check_perm perm <s 0"
  shows "perm AND PTE_P \<noteq> 0"
proof
  assume "perm AND PTE_P = 0"
  then have "check_perm perm = - E_INVAL"
    by (simp add: check_perm_def perm_bit_def PTE_P_def)
  with assms show False
    by (simp add: E_INVAL_def word_sless_alt)
qed

lemma or_present:
  assumes "perm AND PTE_P \<noteq> 0"
  shows "perm OR PTE_P = perm"
proof -
  have "odd perm"
    using assms by (simp add: PTE_P_def and_one_eq mod_2_eq_odd)
  then show ?thesis
    by (simp add: PTE_P_def or_one_eq)
qed

lemma page_insert_pgdir_other:
  assumes "page_insert s e pp va perm = (r, s1)"
  shows "curenv s1 = curenv s"
    and "e' \<noteq> e \<Longrightarrow> envs s1 e' = envs s e'"
    and "env_id (envs s1 e') = env_id (envs s e')"
    and "env_ipc_dstva (envs s1 e') = env_ipc_dstva (envs s e')"
  using assms
  by (auto simp: page_insert_def page_alloc_def set_pgdir_def Let_def
      split: if_splits list.splits)

lemma page_insert_mapped:
  assumes "page_insert s e pp va perm = (r, s1)" and "\<not> r <s 0"
  shows "page_lookup s1 e va = Some (pp, perm OR PTE_P)"
  using assms
  by (auto simp: page_insert_def page_alloc_def set_pgdir_def page_lookup_def Let_def
      E_NO_MEM_def word_sless_alt split: if_splits list.splits)


text \<open>C1. \<open>sys_ipc_try_send\<close> tests the registered receive address of the target for
  being non-zero, not for being below UTOP: a target that registered the address 0, which
  is below UTOP, gets no page, although the sender supplied a mapped, page-aligned page
  below UTOP with a valid permission and the call returns 0. The same call to a target
  that registered the address \<open>0x2000\<close> maps the page there.\<close>

theorem sys_ipc_try_send_dstva_zero:
  "env_ipc_dstva (envs (ipc_state 0) (Suc 0)) < UTOP
   \<and> (0x1000 :: u32) < UTOP \<and> IS_PAGE_ALIGNED 0x1000 \<and> \<not> check_perm 5 <s 0
   \<and> page_lookup (ipc_state 0) (curenv (ipc_state 0)) 0x1000 = Some (5, 7)
   \<and> (case sys_ipc_try_send (ipc_state 0) 0x1001 42 0x1000 5 of
        Ret r s' \<Rightarrow> r = 0 \<and> page_lookup s' (Suc 0) 0 = None
                    \<and> (\<forall>e. env_pgdir (envs s' e) = env_pgdir (envs (ipc_state 0) e))
      | _ \<Rightarrow> False)
   \<and> (case sys_ipc_try_send (ipc_state 0x2000) 0x1001 42 0x1000 5 of
        Ret r s' \<Rightarrow> r = 0 \<and> page_lookup s' (Suc 0) 0x2000 = Some (5, 5)
      | _ \<Rightarrow> False)"
  by (simp add: sys_ipc_try_send_def envid2env_def ENVX_def check_perm_def perm_bit_def
      page_lookup_def page_insert_def set_pgdir_def PDX_def PTE_ADDR_def
      IS_PAGE_ALIGNED_def ipc_state_defs jos_consts Let_def fun_upd_twist)

text \<open>C10. On every successful \<open>ipc_try_send\<close> the target's delivered-permission field
  holds the sender's permission argument; when no page was transferred (the sender's
  address or the target's registered address is not below UTOP) the page directories
  are as before and the field is the argument all the same, not 0.\<close>

theorem sys_ipc_try_send_perm:
  assumes tgt: "envid2env s envid False = Inr t"
      and run: "sys_ipc_try_send s envid val srcva perm = Ret 0 s'"
  shows "env_ipc_perm (envs s' t) = perm
       \<and> (UTOP \<le> srcva \<or> UTOP \<le> env_ipc_dstva (envs s t)
            \<longrightarrow> (\<forall>e. env_pgdir (envs s' e) = env_pgdir (envs s e)))"
proof
  show "env_ipc_perm (envs s' t) = perm"
    using tgt run
    by (auto simp: sys_ipc_try_send_def errs Let_def
        split: if_splits option.splits prod.splits)
next
  show "UTOP \<le> srcva \<or> UTOP \<le> env_ipc_dstva (envs s t)
            \<longrightarrow> (\<forall>e. env_pgdir (envs s' e) = env_pgdir (envs s e))"
    using tgt run
    by (auto simp: sys_ipc_try_send_def errs Let_def
        split: if_splits option.splits prod.splits)
qed

theorem sys_ipc_try_send_perm_witness:
  "envid2env (ipc_state UTOP) 0x1001 False = Inr (Suc 0)
   \<and> sys_ipc_try_send (ipc_state UTOP) 0x1001 42 UTOP 7 =
       Ret 0 (ipc_state UTOP\<lparr>envs := (envs (ipc_state UTOP))(Suc 0 :=
          (env_receiver UTOP)\<lparr>env_status := ENV_RUNNABLE, env_ipc_recving := False,
             env_ipc_value := 42, env_ipc_from := 0x1000, env_ipc_perm := 7\<rparr>)\<rparr>)
   \<and> env_ipc_perm (envs (ipc_state UTOP\<lparr>envs := (envs (ipc_state UTOP))(Suc 0 :=
          (env_receiver UTOP)\<lparr>env_status := ENV_RUNNABLE, env_ipc_recving := False,
             env_ipc_value := 42, env_ipc_from := 0x1000, env_ipc_perm := 7\<rparr>)\<rparr>) (Suc 0)) = 7"
proof -
  have t: "envid2env (ipc_state UTOP) 0x1001 False = Inr (Suc 0)"
    by (simp add: envid2env_def ENVX_def ipc_state_defs jos_consts Let_def)
  have run: "sys_ipc_try_send (ipc_state UTOP) 0x1001 42 UTOP 7 =
       Ret 0 (ipc_state UTOP\<lparr>envs := (envs (ipc_state UTOP))(Suc 0 :=
          (env_receiver UTOP)\<lparr>env_status := ENV_RUNNABLE, env_ipc_recving := False,
             env_ipc_value := 42, env_ipc_from := 0x1000, env_ipc_perm := 7\<rparr>)\<rparr>)"
    by (simp add: sys_ipc_try_send_def envid2env_def ENVX_def ipc_state_defs jos_consts Let_def)
  from sys_ipc_try_send_perm [OF t run] t run show ?thesis
    by simp
qed

text \<open>C2. The dispatcher has no case for the number of \<open>env_set_trapframe\<close>: the call
  leaves the switch and returns 0 with the state as it was, while the kernel operation
  itself, were it reached, would panic.\<close>

theorem syscall_env_set_trapframe_unrouted:
  "syscall s SYS_env_set_trapframe a1 a2 a3 a4 a5 = Ret 0 s
   \<and> sys_env_set_trapframe s a1 a2 = Panic ''sys_env_set_trapframe not implemented''"
  by (simp add: syscall_def sys_env_set_trapframe_def sys_numbers)

text \<open>C3. \<open>sys_page_alloc\<close> does not test the alignment of the address: called through
  the dispatcher with the address \<open>0x1001\<close>, below UTOP and not page-aligned, it
  returns 0 and maps the fresh page in the page that holds the address.\<close>

theorem sys_page_alloc_unaligned:
  "(0x1001 :: u32) < UTOP \<and> \<not> IS_PAGE_ALIGNED 0x1001
   \<and> syscall (ipc_state 0) SYS_page_alloc 0 0x1001 5 0 0 =
       Ret 0 (ipc_state 0\<lparr>page_free_list := [10], envs := (envs (ipc_state 0))(0 :=
          env_sender\<lparr>env_pgdir := \<lparr>pd_tables = {0},
                pd_ptes = [0x1000 \<mapsto> (9, 5)]\<rparr>\<rparr>)\<rparr>)"
  by (simp add: syscall_def sys_numbers sys_page_alloc_def check_perm_def perm_bit_def
      page_alloc_def envid2env_def page_insert_def set_pgdir_def PDX_def PTE_ADDR_def
      IS_PAGE_ALIGNED_def ipc_state_defs jos_consts Let_def)


section \<open>Properties of strlcpy\<close>

lemma of_nat_Suc_neq_0:
  assumes "Suc i < 2 ^ 32"
  shows "(of_nat (Suc i) :: u32) \<noteq> 0"
proof -
  have "unat (of_nat (Suc i) :: u32) = Suc i"
    using assms by (simp add: unat_of_nat del: of_nat_Suc)
  then show ?thesis
    by auto
qed

lemma strlcpy_loop_spec:
  assumes "sz \<noteq> 0"
      and "strlcpy_loop m dst src sz = (m1, dst1)"
  shows "\<exists>k<unat sz. dst1 = dst + of_nat k
          \<and> (Suc k = unat sz \<or> m1 (src + of_nat k) = 0)
          \<and> ((\<forall>i<unat sz. \<forall>j<unat sz. dst + of_nat i \<noteq> src + of_nat j) \<longrightarrow>
               (\<forall>i<k. m (src + of_nat i) \<noteq> 0 \<and> m1 (dst + of_nat i) = m (src + of_nat i))
             \<and> (\<forall>a. (\<forall>i<k. a \<noteq> dst + of_nat i) \<longrightarrow> m1 a = m a))"
  using assms
proof (induction m dst src sz arbitrary: m1 dst1 rule: strlcpy_loop.induct)
  case (1 m dst src sz)
  have pos: "0 < unat sz"
    using "1.prems"(1) by (simp add: unat_gt_0)
  show ?case
  proof (cases "sz - 1 \<noteq> 0 \<and> m src \<noteq> 0")
    case False
    then have res: "m1 = m" "dst1 = dst"
      using "1.prems"(2) by (auto simp: strlcpy_loop.simps [of m dst src sz])
    from False have "Suc 0 = unat sz \<or> m src = 0"
      using pos by (auto simp: unat_minus_one "1.prems"(1) unat_eq_zero [symmetric]
          simp del: unat_eq_zero)
    with res pos show ?thesis
      by (intro exI [of _ 0]) simp
  next
    case True
    let ?m = "m(dst := m src)"
    from True "1.prems"(2) have rec: "strlcpy_loop ?m (dst + 1) (src + 1) (sz - 1) = (m1, dst1)"
      by (simp add: strlcpy_loop.simps [of m dst src sz])
    from True have nz: "sz - 1 \<noteq> 0" by simp
    have us: "unat (sz - 1) = unat sz - 1"
      using "1.prems"(1) by (simp add: unat_minus_one)
    from "1.IH" [OF True nz rec]
    obtain k where k: "k < unat (sz - 1)" "dst1 = dst + 1 + of_nat k"
      "Suc k = unat (sz - 1) \<or> m1 (src + 1 + of_nat k) = 0"
      and dj: "(\<forall>i<unat (sz - 1). \<forall>j<unat (sz - 1). dst + 1 + of_nat i \<noteq> src + 1 + of_nat j) \<Longrightarrow>
               (\<forall>i<k. ?m (src + 1 + of_nat i) \<noteq> 0 \<and> m1 (dst + 1 + of_nat i) = ?m (src + 1 + of_nat i))
             \<and> (\<forall>a. (\<forall>i<k. a \<noteq> dst + 1 + of_nat i) \<longrightarrow> m1 a = ?m a)"
      by blast
    have sk: "Suc k < unat sz" using k(1) us by simp
    have a1: "dst1 = dst + of_nat (Suc k)" using k(2) by simp
    have a2: "Suc (Suc k) = unat sz \<or> m1 (src + of_nat (Suc k)) = 0"
      using k(3) us pos by (auto simp: ac_simps)
    have a3: "(\<forall>i<Suc k. m (src + of_nat i) \<noteq> 0 \<and> m1 (dst + of_nat i) = m (src + of_nat i))
             \<and> (\<forall>a. (\<forall>i<Suc k. a \<noteq> dst + of_nat i) \<longrightarrow> m1 a = m a)"
      if disj: "\<forall>i<unat sz. \<forall>j<unat sz. dst + of_nat i \<noteq> src + of_nat j"
    proof -
      have d0: "dst \<noteq> src + of_nat j" if "j < unat sz" for j
      proof -
        from disj pos that have "dst + of_nat 0 \<noteq> src + of_nat j" by blast
        then show ?thesis by simp
      qed
      have "\<forall>i<unat (sz - 1). \<forall>j<unat (sz - 1). dst + 1 + of_nat i \<noteq> src + 1 + of_nat j"
      proof (intro allI impI)
        fix i j assume "i < unat (sz - 1)" "j < unat (sz - 1)"
        then have "Suc i < unat sz" "Suc j < unat sz" using us by simp_all
        with disj have "dst + of_nat (Suc i) \<noteq> src + of_nat (Suc j)" by blast
        then show "dst + 1 + of_nat i \<noteq> src + 1 + of_nat j"
          by (simp add: add.assoc)
      qed
      from dj [OF this]
      have in1: "\<And>i. i < k \<Longrightarrow> ?m (src + 1 + of_nat i) \<noteq> 0
                    \<and> m1 (dst + 1 + of_nat i) = ?m (src + 1 + of_nat i)"
        and out1: "\<And>a. (\<forall>i<k. a \<noteq> dst + 1 + of_nat i) \<Longrightarrow> m1 a = ?m a"
        by blast+
      have rd: "?m (src + of_nat j) = m (src + of_nat j)" if "j < unat sz" for j
        using d0 [OF that] by simp
      have dst_kept: "m1 dst = m src"
      proof -
        have "\<forall>i<k. dst \<noteq> dst + 1 + of_nat i"
        proof (intro allI impI)
          fix i assume "i < k"
          then have "Suc i < 2 ^ 32"
            using sk unsigned_less [of sz, where ?'a = nat] by simp
          from of_nat_Suc_neq_0 [OF this] show "dst \<noteq> dst + 1 + of_nat i"
            by (simp add: add.assoc)
        qed
        from out1 [OF this] show ?thesis by simp
      qed
      have part1: "m (src + of_nat i) \<noteq> 0 \<and> m1 (dst + of_nat i) = m (src + of_nat i)"
        if "i < Suc k" for i
      proof (cases i)
        case 0
        with True dst_kept show ?thesis by simp
      next
        case (Suc i')
        then have i': "i' < k" using that by simp
        have "Suc i' < unat sz" using i' sk by simp
        from rd [OF this] in1 [OF i'] Suc show ?thesis
          by (simp add: add.assoc)
      qed
      have part2: "m1 a = m a" if "\<forall>i<Suc k. a \<noteq> dst + of_nat i" for a
      proof -
        from that have "a \<noteq> dst + of_nat 0" by blast
        then have "a \<noteq> dst" by simp
        moreover have "\<forall>i<k. a \<noteq> dst + 1 + of_nat i"
        proof (intro allI impI)
          fix i assume "i < k"
          then have "Suc i < Suc k" by simp
          with that have "a \<noteq> dst + of_nat (Suc i)" by blast
          then show "a \<noteq> dst + 1 + of_nat i" by (simp add: add.assoc)
        qed
        ultimately show ?thesis using out1 by simp
      qed
      from part1 part2 show ?thesis by blast
    qed
    from sk a1 a2 a3 show ?thesis
      by (intro exI [of _ "Suc k"]) blast
  qed
qed


lemma of_nat_add_neq:
  assumes "i < k" and "k < 2 ^ 32"
  shows "(p :: u32) + of_nat i \<noteq> p + of_nat k"
proof -
  have "unat (of_nat i :: u32) = i" "unat (of_nat k :: u32) = k"
    using assms by (simp_all add: unat_of_nat)
  with assms(1) have "(of_nat i :: u32) \<noteq> of_nat k"
    by (metis nat_neq_iff)
  then show ?thesis by simp
qed

lemma strlcpy_hello:
  "strlcpy hello_mem 0x2000 0x1000 3 =
     (hello_mem(0x2000 := 0x68, 0x2001 := 0x65, 0x2002 := 0), 2)"
  by (simp add: strlcpy_def strlcpy_loop.simps hello_mem_def)

text \<open>C9 (amended). \<open>strlcpy\<close> with a positive capacity returns the number of bytes it
  copied, which is less than the capacity, and writes the terminator at that index of
  the destination. When source and destination do not overlap within the capacity, the
  bytes copied are the first bytes of the source, none of them the terminator, the copy
  stops at the source's terminator or at capacity - 1 bytes, and no address outside the
  copy and its terminator changes. The value returned is the copied length, the length
  of the source only when the source fits.\<close>

theorem strlcpy_bounded:
  assumes "0 < sz" and "strlcpy m dst src sz = (m', r)"
  shows "unat r < unat sz \<and> m' (dst + r) = 0
       \<and> ((\<forall>i<unat sz. \<forall>j<unat sz. dst + of_nat i \<noteq> src + of_nat j) \<longrightarrow>
            (\<forall>i<unat r. m (src + of_nat i) \<noteq> 0 \<and> m' (dst + of_nat i) = m (src + of_nat i))
          \<and> (Suc (unat r) = unat sz \<or> m (src + r) = 0)
          \<and> (\<forall>a. (\<forall>i\<le>unat r. a \<noteq> dst + of_nat i) \<longrightarrow> m' a = m a))"
proof -
  obtain m1 dst1 where loop: "strlcpy_loop m dst src sz = (m1, dst1)"
    by (cases "strlcpy_loop m dst src sz")
  from assms loop have res: "m' = m1(dst1 := 0)" "r = dst1 - dst"
    by (simp_all add: strlcpy_def)
  from assms(1) have "sz \<noteq> 0" by auto
  from strlcpy_loop_spec [OF this loop]
  obtain k where k: "k < unat sz" "dst1 = dst + of_nat k"
      "Suc k = unat sz \<or> m1 (src + of_nat k) = 0"
    and dj: "(\<forall>i<unat sz. \<forall>j<unat sz. dst + of_nat i \<noteq> src + of_nat j) \<Longrightarrow>
               (\<forall>i<k. m (src + of_nat i) \<noteq> 0 \<and> m1 (dst + of_nat i) = m (src + of_nat i))
             \<and> (\<forall>a. (\<forall>i<k. a \<noteq> dst + of_nat i) \<longrightarrow> m1 a = m a)"
    by blast
  have k32: "k < 2 ^ 32"
    using k(1) unsigned_less [of sz, where ?'a = nat] by simp
  have r: "r = of_nat k" using res(2) k(2) by simp
  have ur: "unat r = k" using r k32 by (simp add: unat_of_nat)
  have c1: "unat r < unat sz" using ur k(1) by simp
  have c2: "m' (dst + r) = 0" using res(1) k(2) r by simp
  have c3: "(\<forall>i<unat r. m (src + of_nat i) \<noteq> 0 \<and> m' (dst + of_nat i) = m (src + of_nat i))
          \<and> (Suc (unat r) = unat sz \<or> m (src + r) = 0)
          \<and> (\<forall>a. (\<forall>i\<le>unat r. a \<noteq> dst + of_nat i) \<longrightarrow> m' a = m a)"
    if disj: "\<forall>i<unat sz. \<forall>j<unat sz. dst + of_nat i \<noteq> src + of_nat j"
  proof -
    from dj [OF disj]
    have in1: "\<And>i. i < k \<Longrightarrow> m (src + of_nat i) \<noteq> 0
                 \<and> m1 (dst + of_nat i) = m (src + of_nat i)"
      and out1: "\<And>a. (\<forall>i<k. a \<noteq> dst + of_nat i) \<Longrightarrow> m1 a = m a"
      by blast+
    have p1: "m (src + of_nat i) \<noteq> 0 \<and> m' (dst + of_nat i) = m (src + of_nat i)"
      if "i < unat r" for i
    proof -
      from that ur have ik: "i < k" by simp
      from of_nat_add_neq [OF ik k32] have "dst + of_nat i \<noteq> dst1" using k(2) by simp
      with in1 [OF ik] res(1) show ?thesis by simp
    qed
    have "\<forall>i<k. src + of_nat k \<noteq> dst + of_nat i"
    proof (intro allI impI)
      fix i assume "i < k"
      then have "i < unat sz" using k(1) by simp
      with disj k(1) have "dst + of_nat i \<noteq> src + of_nat k" by blast
      then show "src + of_nat k \<noteq> dst + of_nat i" by simp
    qed
    from out1 [OF this] k(3) r ur have p2: "Suc (unat r) = unat sz \<or> m (src + r) = 0"
      by auto
    have p3: "m' a = m a" if "\<forall>i\<le>unat r. a \<noteq> dst + of_nat i" for a
    proof -
      from that ur have "a \<noteq> dst + of_nat k" by blast
      moreover from that ur have "\<forall>i<k. a \<noteq> dst + of_nat i" by auto
      ultimately show ?thesis using out1 res(1) k(2) by simp
    qed
    from p1 p2 p3 show ?thesis by blast
  qed
  from c1 c2 c3 show ?thesis by blast
qed

theorem strlcpy_bounded_witness:
  "(0 :: u32) < 3
   \<and> strlcpy hello_mem 0x2000 0x1000 3 =
        (hello_mem(0x2000 := 0x68, 0x2001 := 0x65, 0x2002 := 0), 2)
   \<and> unat (2 :: u32) < unat (3 :: u32)
   \<and> (hello_mem(0x2000 := 0x68, 0x2001 := 0x65, 0x2002 := 0)) (0x2000 + 2) = 0"
proof -
  have pos: "(0 :: u32) < 3" by simp
  from strlcpy_bounded [OF pos strlcpy_hello] pos strlcpy_hello show ?thesis
    by simp
qed

text \<open>C9 as stated fails on its own example: \<open>strlcpy(dst, "hello", 3)\<close> leaves \<open>he\<close>
  and the terminator in the destination, and returns 2, not 5.\<close>

theorem strlcpy_hello_counterexample:
  "hello_mem 0x1000 = 0x68 \<and> hello_mem 0x1001 = 0x65 \<and> hello_mem 0x1002 = 0x6C
   \<and> hello_mem 0x1003 = 0x6C \<and> hello_mem 0x1004 = 0x6F \<and> hello_mem 0x1005 = 0
   \<and> fst (strlcpy hello_mem 0x2000 0x1000 3) 0x2000 = 0x68
   \<and> fst (strlcpy hello_mem 0x2000 0x1000 3) 0x2001 = 0x65
   \<and> fst (strlcpy hello_mem 0x2000 0x1000 3) 0x2002 = 0
   \<and> snd (strlcpy hello_mem 0x2000 0x1000 3) = 2
   \<and> snd (strlcpy hello_mem 0x2000 0x1000 3) \<noteq> 5"
  by (simp add: strlcpy_def strlcpy_loop.simps hello_mem_def)


section \<open>Properties of the file system\<close>

lemmas fs_consts =
  BSIZE_def NDIRECT_def NINDIRECT_def NDINDIRECT_def SINGLE_LINKED_INDIRECT_TABLE_def
  DOUBLE_LINKED_INDIRECT_TABLE_def MAXFILE_def BPB_def IPB_def DIRSIZ_def ROOTDEV_def
  ROOTINO_def NINODE_def NDEV_def T_DIR_def T_FILE_def T_DEV_def I_BUSY_def I_VALID_def

lemmas ex_defs =
  ex_fs_def ex_root_def ex_file_def ex_inode_def ex_sb_def ex_bitmap_def ex_dir_def

subsection \<open>writei: the failing cases\<close>

lemma no_wrap_le:
  fixes off n :: u32
  assumes "\<not> off + n < off"
  shows "n \<le> off + n"
proof -
  from assms have "off \<le> off + n" by (simp add: not_less)
  then have "unat (off + n) = unat off + unat n"
    by (simp add: unat_plus_simple)
  then show ?thesis
    by (simp add: word_le_nat_alt)
qed

lemma maxfile_not_minus_one:
  assumes "(n :: u32) \<le> 8459776"
  shows "n \<noteq> - 1"
proof
  have m1: "(- 1 :: u32) = 4294967295" by simp
  assume "n = - 1"
  with assms have "(- 1 :: u32) \<le> 8459776" by simp
  then have "(4294967295 :: u32) \<le> 8459776" by (simp only: m1)
  then show False by simp
qed

text \<open>C5. For an inode that is not a device, \<open>writei\<close> returns -1 exactly when the
  start offset exceeds the size, the end offset wraps around, or the end offset exceeds
  \<open>MAXFILE * BSIZE\<close>; and then the state is as it was: no block is written, the size is
  unchanged.\<close>

theorem writei_minus_one_iff:
  assumes "i_type (icache s ip) \<noteq> T_DEV"
  shows "((\<exists>s'. writei s ip src off n = Ok (- 1) s') \<longleftrightarrow>
            (i_size (icache s ip) < off \<or> off + n < off \<or> MAXFILE * BSIZE < off + n))
       \<and> (i_size (icache s ip) < off \<or> off + n < off \<or> MAXFILE * BSIZE < off + n
            \<longrightarrow> writei s ip src off n = Ok (- 1) s)"
proof (cases "i_size (icache s ip) < off \<or> off + n < off \<or> MAXFILE * BSIZE < off + n")
  case True
  with assms have "writei s ip src off n = Ok (- 1) s"
    by (auto simp: writei_def Let_def)
  with True show ?thesis by simp
next
  case False
  then have "n \<le> off + n" and "off + n \<le> MAXFILE * BSIZE"
    by (simp_all add: no_wrap_le not_less)
  then have "n \<le> MAXFILE * BSIZE" by simp
  then have "n \<le> 8459776" by (simp add: fs_consts)
  then have n: "n \<noteq> - 1" by (rule maxfile_not_minus_one)
  have "writei s ip src off n \<noteq> Ok (- 1) s'" for s'
    using assms False n
    by (auto simp: writei_def Let_def split: res.splits)
  with False show ?thesis by simp
qed

theorem writei_minus_one_iff_witness:
  "i_type (icache ex_fs (Suc 0)) \<noteq> T_DEV
   \<and> i_size (icache ex_fs (Suc 0)) < 1
   \<and> writei ex_fs (Suc 0) (\<lambda>_. 0x41) 1 4 = Ok (- 1) ex_fs"
proof -
  have t: "i_type (icache ex_fs (Suc 0)) \<noteq> T_DEV"
    by (simp add: ex_defs fs_consts)
  have sz: "i_size (icache ex_fs (Suc 0)) < 1"
    by (simp add: ex_defs)
  from writei_minus_one_iff [OF t, where src = "\<lambda>_. 0x41" and off = 1 and n = 4] t sz show ?thesis
    by simp
qed

subsection \<open>Path resolution without an element\<close>

lemma skipelem_empty: "skipelem [] name = None"
  by (simp add: skipelem_def path_end_def)

lemma skipelem_slashes: "skipelem ''////'' name = None"
  by (simp add: skipelem_def path_end_def is_slash_def)

text \<open>C6 (amended). \<open>skipelem\<close> finds no element in the empty path and in a path of
  slashes only, so \<open>namex\<close> never enters its loop on them: \<open>namei("")\<close> returns the
  working directory's inode with one more reference, \<open>namei("////")\<close> returns what
  \<open>iget\<close> gives for the root inode, and \<open>nameiparent\<close> drops that reference again and
  returns no inode.\<close>

theorem namei_no_element:
  "skipelem '''' name = None \<and> skipelem ''////'' name = None
   \<and> namei s '''' = Some (Ok (Some (cwd s))
                        (upd_inode s (cwd s) (\<lambda>i. i\<lparr>i_ref := i_ref i + 1\<rparr>)))
   \<and> namei s ''////'' =
       (case iget s ROOTDEV ROOTINO of
          Ok ip s1 \<Rightarrow> Some (Ok (Some ip) s1)
        | Stop e \<Rightarrow> Some (Stop e))
   \<and> nameiparent s '''' name =
       (case iput (upd_inode s (cwd s) (\<lambda>i. i\<lparr>i_ref := i_ref i + 1\<rparr>)) (cwd s) of
          Ok u s1 \<Rightarrow> Some (Ok (None, name) s1)
        | Stop e \<Rightarrow> Some (Stop e))
   \<and> nameiparent s ''////'' name =
       (case iget s ROOTDEV ROOTINO of
          Ok ip s1 \<Rightarrow>
            (case iput s1 ip of
               Ok u s2 \<Rightarrow> Some (Ok (None, name) s2)
             | Stop e \<Rightarrow> Some (Stop e))
        | Stop e \<Rightarrow> Some (Stop e))"
proof -
  have slash: "\<not> path_end ''////'' \<and> is_slash (hd ''////'')"
    by (simp add: path_end_def is_slash_def is_nul_def)
  have a: "namei s '''' = Some (Ok (Some (cwd s))
                        (upd_inode s (cwd s) (\<lambda>i. i\<lparr>i_ref := i_ref i + 1\<rparr>)))"
    by (simp add: namei_def namex_def idup_def path_end_def namex_loop.simps skipelem_empty)
  have b: "namei s ''////'' =
       (case iget s ROOTDEV ROOTINO of
          Ok ip s1 \<Rightarrow> Some (Ok (Some ip) s1)
        | Stop e \<Rightarrow> Some (Stop e))"
    using slash
    by (simp add: namei_def namex_def namex_loop.simps skipelem_slashes split: res.splits)
  have c: "nameiparent s '''' name =
       (case iput (upd_inode s (cwd s) (\<lambda>i. i\<lparr>i_ref := i_ref i + 1\<rparr>)) (cwd s) of
          Ok u s1 \<Rightarrow> Some (Ok (None, name) s1)
        | Stop e \<Rightarrow> Some (Stop e))"
    by (simp add: nameiparent_def namex_def idup_def path_end_def namex_loop.simps
        skipelem_empty)
  have d: "nameiparent s ''////'' name =
       (case iget s ROOTDEV ROOTINO of
          Ok ip s1 \<Rightarrow>
            (case iput s1 ip of
               Ok u s2 \<Rightarrow> Some (Ok (None, name) s2)
             | Stop e \<Rightarrow> Some (Stop e))
        | Stop e \<Rightarrow> Some (Stop e))"
    using slash
    by (simp add: nameiparent_def namex_def namex_loop.simps skipelem_slashes
        split: res.splits)
  from a b c d skipelem_empty skipelem_slashes show ?thesis by simp
qed

lemma iget_ex_root:
  "iget ex_fs ROOTDEV ROOTINO =
     Ok 0 (upd_inode ex_fs 0 (\<lambda>i. i\<lparr>i_ref := i_ref i + 1\<rparr>))"
  by (simp add: iget_def NINODE_def upt_conv_Cons ROOTDEV_def ROOTINO_def ex_defs)

text \<open>C6 as stated fails: on the example file system both calls return an inode, the
  root directory in slot 0, which is the working directory too.\<close>

theorem namei_no_element_counterexample:
  "namei ex_fs '''' = Some (Ok (Some 0) (upd_inode ex_fs 0 (\<lambda>i. i\<lparr>i_ref := i_ref i + 1\<rparr>)))
   \<and> namei ex_fs ''////'' =
       Some (Ok (Some 0) (upd_inode ex_fs 0 (\<lambda>i. i\<lparr>i_ref := i_ref i + 1\<rparr>)))"
proof -
  have slash: "\<not> path_end ''////'' \<and> is_slash (hd ''////'')"
    by (simp add: path_end_def is_slash_def is_nul_def)
  have c: "cwd ex_fs = 0" by (simp add: ex_fs_def)
  have a: "namei ex_fs '''' =
      Some (Ok (Some 0) (upd_inode ex_fs 0 (\<lambda>i. i\<lparr>i_ref := i_ref i + 1\<rparr>)))"
    by (simp add: namei_def namex_def idup_def path_end_def namex_loop.simps
        skipelem_empty c)
  have b: "namei ex_fs ''////'' =
      Some (Ok (Some 0) (upd_inode ex_fs 0 (\<lambda>i. i\<lparr>i_ref := i_ref i + 1\<rparr>)))"
    using slash
    by (simp add: namei_def namex_def namex_loop.simps skipelem_slashes iget_ex_root)
  from a b show ?thesis by simp
qed


subsection \<open>Integers in blocks, bits in the bitmap\<close>

lemma rd32_wr32_same: "rd32 (wr32 b i v) i = v"
proof (rule bit_word_eqI)
  fix n assume n: "n < LENGTH(32)"
  consider "n < 8" | "8 \<le> n" "n < 16" | "16 \<le> n" "n < 24" | "24 \<le> n" "n < 32"
    using n by fastforce
  then show "bit (rd32 (wr32 b i v) i) n = bit v n"
    by cases (auto simp: rd32_def wr32_def bit_simps)
qed

lemma rd32_wr32_other:
  assumes "i + 4 \<le> j \<or> j + 4 \<le> i"
  shows "rd32 (wr32 b i v) j = rd32 b j"
  using assms by (auto simp: rd32_def wr32_def)

lemma rd32_zero:
  assumes "\<forall>i<512. b i = 0" and "j < 128"
  shows "rd32 b (4 * j) = 0"
  using assms by (simp add: rd32_def)

lemma and_bit_iff: "((x :: u8) AND 2 ^ n \<noteq> 0) = bit x n"
  by (simp add: and_exp_eq_0_iff_not_bit)

lemma bit_used_set:
  "bit_used (bp(bi div 8 := bp (bi div 8) OR push_bit (bi mod 8) 1)) bj
     = (bit_used bp bj \<or> bj = bi)"
proof (cases "bj div 8 = bi div 8")
  case True
  have "bj = bi \<longleftrightarrow> bj mod 8 = bi mod 8"
    using True by (metis div_mult_mod_eq)
  then show ?thesis
    using True by (auto simp: bit_used_def and_bit_iff bit_simps)
next
  case False
  then show ?thesis
    by (auto simp: bit_used_def)
qed

lemma bit_used_set_exp:
  "bit_used (bp(bi div 8 := bp (bi div 8) OR 2 ^ (bi mod 8))) bj
     = (bit_used bp bj \<or> bj = bi)"
  using bit_used_set [of bp bi bj] by (simp add: push_bit_of_1)

subsection \<open>What balloc returns\<close>

lemma balloc_scan_Some:
  assumes "balloc_scan bp b sz bi = Some r"
  shows "r < BPB \<and> b + r < sz \<and> \<not> bit_used bp r"
  using assms
proof (induction bp b sz bi rule: balloc_scan.induct)
  case (1 bp b sz bi)
  then show ?case
    by (simp add: balloc_scan.simps [of bp b sz bi] bit_used_def split: if_splits)
qed

lemma of_nat_div_4096:
  assumes "k < 2 ^ 32"
  shows "(of_nat k :: u32) div 4096 = of_nat (k div 4096)"
proof -
  have "unat ((of_nat k :: u32) div 4096) = k div 4096"
    using assms by (simp add: unat_div unat_of_nat)
  moreover have "unat (of_nat (k div 4096) :: u32) = k div 4096"
    using assms by (simp add: unat_of_nat)
  ultimately show ?thesis
    by (intro unsigned_word_eqI [where ?'a = nat]) simp
qed

lemma BBLOCK_same_group:
  assumes "BPB dvd b" and "r < BPB" and "b + r < 2 ^ 32"
  shows "BBLOCK (of_nat b) ni = BBLOCK (of_nat (b + r)) ni" and "(b + r) mod BPB = r"
proof -
  from assms(1) obtain q where q: "b = 4096 * q" by (auto simp: BPB_def)
  have d: "(b + r) div 4096 = b div 4096"
    using assms(2) q by (simp add: BPB_def)
  have "b < 2 ^ 32" using assms(3) by simp
  then show "BBLOCK (of_nat b) ni = BBLOCK (of_nat (b + r)) ni"
    using assms(3) d unfolding BBLOCK_def 
    by (simp only: of_nat_div_4096)
  show "(b + r) mod BPB = r"
    using assms(2) q by (simp add: BPB_def)
qed

lemma balloc_loop_Ok:
  assumes "balloc_loop s dev sb b = Ok a s1" and "BPB dvd b" and "sb = readsb s dev"
  shows "\<exists>k. k < unat (sb_size sb) \<and> a = of_nat k \<and> \<not> blk_used s dev k
             \<and> s1 = alloc_effect s dev k"
  using assms
proof (induction s dev sb b rule: balloc_loop.induct)
  case (1 s dev sb b)
  from "1.prems"(1) have lt: "b < unat (sb_size sb)"
    by (simp add: balloc_loop.simps [of s dev sb b] split: if_splits)
  let ?bno = "BBLOCK (of_nat b) (sb_ninodes sb)"
  let ?bp = "bread s dev ?bno"
  show ?case
  proof (cases "balloc_scan ?bp b (unat (sb_size sb)) 0")
    case None
    with "1.prems"(1) lt have "balloc_loop s dev sb (b + BPB) = Ok a s1"
      by (simp add: balloc_loop.simps [of s dev sb b] Let_def)
    moreover have "BPB dvd b + BPB" using "1.prems"(2) by simp
    ultimately show ?thesis
      using "1.IH" [OF lt refl refl None] "1.prems"(3) by blast
  next
    case (Some bi)
    from balloc_scan_Some [OF Some]
    have bi: "bi < BPB" "b + bi < unat (sb_size sb)" "\<not> bit_used ?bp bi"
      by simp_all
    have k32: "b + bi < 2 ^ 32"
      using bi(2) unsigned_less [of "sb_size sb", where ?'a = nat] by simp
    note grp = BBLOCK_same_group(1) [OF "1.prems"(2) bi(1) k32, of "sb_ninodes sb"]
      BBLOCK_same_group(2) [OF "1.prems"(2) bi(1) k32]
    from Some "1.prems"(1) lt
    have a: "a = of_nat (b + bi)"
      and raw: "s1 = bzero (log_write (bstore s dev ?bno
                  (?bp(bi div 8 := ?bp (bi div 8) OR push_bit (bi mod 8) 1))) dev ?bno)
                  dev (of_nat (b + bi))"
      by (auto simp: balloc_loop.simps [of s dev sb b] Let_def simp del: of_nat_add)
    have bno: "BBLOCK (of_nat (b + bi)) (sb_ninodes (readsb s dev)) = ?bno"
      using grp(1) "1.prems"(3) by simp
    have s1: "s1 = alloc_effect s dev (b + bi)"
      unfolding alloc_effect_def Let_def bno grp(2) raw ..
    have "\<not> blk_used s dev (b + bi)"
      unfolding blk_used_def bno grp(2) using bi(3) .
    with a s1 bi(2) show ?thesis by blast
  qed
qed

lemma balloc_Ok:
  assumes "balloc s dev = Ok a s1"
  shows "\<exists>k. k < unat (sb_size (readsb s dev)) \<and> a = of_nat k \<and> \<not> blk_used s dev k
             \<and> s1 = alloc_effect s dev k"
  using balloc_loop_Ok [of s dev "readsb s dev" 0 a s1] assms
  by (simp add: balloc_def)

lemma balloc_loop_Stop:
  assumes "balloc_loop s dev sb b = Stop e"
  shows "e = Panic_fs ''balloc: out of blocks''"
  using assms
proof (induction s dev sb b rule: balloc_loop.induct)
  case (1 s dev sb b)
  then show ?case
    by (simp add: balloc_loop.simps [of s dev sb b] Let_def split: if_splits option.splits)
qed

lemma balloc_Stop:
  assumes "balloc s dev = Stop e"
  shows "e = Panic_fs ''balloc: out of blocks''"
  using assms balloc_loop_Stop by (simp add: balloc_def)


subsection \<open>The state after an allocation\<close>

lemma unat_BBLOCK:
  assumes "k < 2 ^ 32"
  shows "unat (BBLOCK (of_nat k) ni) = k div 4096 + unat (ni div IPB) + 3"
proof -
  have a: "unat (of_nat (k div 4096) :: u32) = k div 4096"
    using assms by (simp add: unat_of_nat)
  have b: "unat (ni div IPB) = unat ni div 8"
    by (simp add: IPB_def unat_div)
  have "unat ni < 2 ^ 32"
    using unsigned_less [of ni, where ?'a = nat] by simp
  then have c: "unat ni div 8 < 2 ^ 29" by simp
  have d: "k div 4096 < 2 ^ 20" using assms by simp
  have "unat (of_nat (k div 4096) + ni div IPB + 3 :: u32)
          = (k div 4096 + unat ni div 8 + 3) mod 2 ^ 32"
    using a b by (simp add: unat_word_ariths mod_simps)
  also have "\<dots> = k div 4096 + unat ni div 8 + 3"
    using c d by simp
  finally show ?thesis
    using b by (simp add: BBLOCK_def of_nat_div_4096 [OF assms])
qed

lemma size_lt_32:
  assumes "k < unat (w :: u32)"
  shows "k < 2 ^ 32"
  using assms unsigned_less [of w, where ?'a = nat] by simp

lemma BBLOCK_below_data:
  assumes "k < unat (sb_size (readsb s dev))"
  shows "unat (BBLOCK (of_nat k) (sb_ninodes (readsb s dev))) < data_start s dev"
    and "3 \<le> unat (BBLOCK (of_nat k) (sb_ninodes (readsb s dev)))"
proof -
  have "k div 4096 \<le> (unat (sb_size (readsb s dev)) - 1) div 4096"
    using assms by (intro div_le_mono) simp
  then show "unat (BBLOCK (of_nat k) (sb_ninodes (readsb s dev))) < data_start s dev"
    by (simp add: unat_BBLOCK [OF size_lt_32 [OF assms]] data_start_def BPB_def)
  show "3 \<le> unat (BBLOCK (of_nat k) (sb_ninodes (readsb s dev)))"
    by (simp add: unat_BBLOCK [OF size_lt_32 [OF assms]])
qed

lemma data_start_ge: "4 \<le> data_start s dev"
  by (simp add: data_start_def)

lemma alloc_icache [simp]:
  "icache (alloc_effect s dev k) = icache s"
  "cwd (alloc_effect s dev k) = cwd s"
  "devsw (alloc_effect s dev k) = devsw s"
  by (simp_all add: alloc_effect_def bzero_def log_write_def bstore_def Let_def)

lemma alloc_disk_other_dev:
  assumes "d \<noteq> dev"
  shows "disk (alloc_effect s dev k) (d, c) = disk s (d, c)"
  using assms
  by (simp add: alloc_effect_def bzero_def log_write_def bstore_def bread_def Let_def)

lemma alloc_disk_other:
  assumes "c \<noteq> of_nat k" and "c \<noteq> BBLOCK (of_nat k) (sb_ninodes (readsb s dev))"
  shows "disk (alloc_effect s dev k) (dev, c) = disk s (dev, c)"
  using assms
  by (simp add: alloc_effect_def bzero_def log_write_def bstore_def bread_def Let_def)

lemma alloc_disk_zero:
  assumes "i < 512"
  shows "disk (alloc_effect s dev k) (dev, of_nat k) i = 0"
  using assms
  by (simp add: alloc_effect_def bzero_def log_write_def bstore_def bread_def Let_def
      BSIZE_def)

lemma alloc_disk_bitmap:
  assumes "of_nat k \<noteq> BBLOCK (of_nat k) (sb_ninodes (readsb s dev))"
  shows "disk (alloc_effect s dev k) (dev, BBLOCK (of_nat k) (sb_ninodes (readsb s dev)))
          = (let bp = disk s (dev, BBLOCK (of_nat k) (sb_ninodes (readsb s dev)));
                 bi = k mod BPB
             in bp(bi div 8 := bp (bi div 8) OR push_bit (bi mod 8) 1))"
  using assms
  by (simp add: alloc_effect_def bzero_def log_write_def bstore_def bread_def Let_def)

text \<open>The facts about a block that \<open>balloc\<close> picks in a state whose blocks below the
  data area are marked in use.\<close>

lemma fresh_in_data:
  assumes "meta_used s dev" and "k < unat (sb_size (readsb s dev))"
      and "\<not> blk_used s dev k"
  shows "data_start s dev \<le> k" and "unat (of_nat k :: u32) = k"
    and "(of_nat k :: u32) \<noteq> BBLOCK (of_nat j) (sb_ninodes (readsb s dev))
           \<or> \<not> j < unat (sb_size (readsb s dev))"
    and "(of_nat k :: u32) \<noteq> 1" and "(of_nat k :: u32) \<noteq> 0"
proof -
  show ds: "data_start s dev \<le> k"
    using assms by (auto simp: meta_used_def not_less [symmetric])
  show u: "unat (of_nat k :: u32) = k"
    using size_lt_32 [OF assms(2)] by (simp add: unat_of_nat)
  show "(of_nat k :: u32) \<noteq> BBLOCK (of_nat j) (sb_ninodes (readsb s dev))
           \<or> \<not> j < unat (sb_size (readsb s dev))"
    using BBLOCK_below_data(1) [of j s dev] ds u by auto
  show "(of_nat k :: u32) \<noteq> 1"
    using ds data_start_ge [of s dev] u by (metis add_le_same_cancel1 le_trans
        not_numeral_le_zero numeral_Bit0 numeral_le_one_iff one_add_one semiring_norm(69)
        unat_1)
  show "(of_nat k :: u32) \<noteq> 0"
    using ds data_start_ge [of s dev] u by (metis le_zero_eq not_numeral_le_zero unat_0 le_trans)
qed


lemma alloc_readsb:
  assumes "meta_used s dev" and "k < unat (sb_size (readsb s dev))"
      and "\<not> blk_used s dev k"
  shows "readsb (alloc_effect s dev k) dev = readsb s dev"
proof -
  have "(1 :: u32) \<noteq> BBLOCK (of_nat k) (sb_ninodes (readsb s dev))"
    using BBLOCK_below_data(2) [OF assms(2)] by auto
  with fresh_in_data(4) [OF assms]
  have "disk (alloc_effect s dev k) (dev, 1) = disk s (dev, 1)"
    by (intro alloc_disk_other) simp_all
  then show ?thesis
    by (simp add: readsb_def bread_def)
qed

lemma alloc_data_start:
  assumes "meta_used s dev" and "k < unat (sb_size (readsb s dev))"
      and "\<not> blk_used s dev k"
  shows "data_start (alloc_effect s dev k) dev = data_start s dev"
  by (simp add: data_start_def alloc_readsb [OF assms])

lemma same_group_eq:
  assumes "j div 4096 = k div 4096"
  shows "(j mod BPB = k mod BPB) = (j = (k :: nat))"
  using assms by (metis BPB_def div_mult_mod_eq)

lemma alloc_blk_used:
  assumes "meta_used s dev" and "k < unat (sb_size (readsb s dev))"
      and "\<not> blk_used s dev k" and "j < unat (sb_size (readsb s dev))"
  shows "blk_used (alloc_effect s dev k) dev j = (blk_used s dev j \<or> j = k)"
proof -
  let ?ni = "sb_ninodes (readsb s dev)"
  let ?Bj = "BBLOCK (of_nat j) ?ni" and ?Bk = "BBLOCK (of_nat k) ?ni"
  have aj: "?Bj \<noteq> of_nat k"
    using fresh_in_data(3) [OF assms(1-3), of j] assms(4) by auto
  have ak: "of_nat k \<noteq> ?Bk"
    using fresh_in_data(3) [OF assms(1-3), of k] assms(2) by auto
  note uj = unat_BBLOCK [OF size_lt_32 [OF assms(4)], of ?ni]
  note uk = unat_BBLOCK [OF size_lt_32 [OF assms(2)], of ?ni]
  show ?thesis
  proof (cases "?Bj = ?Bk")
    case True
    then have "j div 4096 = k div 4096"
      using uj uk by simp
    note eq = same_group_eq [OF this]
    have "disk (alloc_effect s dev k) (dev, ?Bj)
          = (disk s (dev, ?Bk))((k mod BPB) div 8 :=
               disk s (dev, ?Bk) ((k mod BPB) div 8) OR push_bit ((k mod BPB) mod 8) 1)"
      using alloc_disk_bitmap [OF ak] True by (simp add: Let_def)
    then show ?thesis
      using True eq
      by (simp add: blk_used_def alloc_readsb [OF assms(1-3)] bread_def bit_used_set_exp)
  next
    case False
    then have "j \<noteq> k" by auto
    moreover have "disk (alloc_effect s dev k) (dev, ?Bj) = disk s (dev, ?Bj)"
      using aj False by (intro alloc_disk_other) simp_all
    ultimately show ?thesis
      by (simp add: blk_used_def alloc_readsb [OF assms(1-3)] bread_def)
  qed
qed

lemma alloc_good_blk:
  assumes "meta_used s dev" and "k < unat (sb_size (readsb s dev))"
      and "\<not> blk_used s dev k" and "good_blk s dev c"
  shows "good_blk (alloc_effect s dev k) dev c"
    and "disk (alloc_effect s dev k) (dev, c) = disk s (dev, c)"
    and "c \<noteq> of_nat k"
proof -
  from assms(4) have c: "data_start s dev \<le> unat c"
    "unat c < unat (sb_size (readsb s dev))" "blk_used s dev (unat c)"
    by (simp_all add: good_blk_def)
  show "good_blk (alloc_effect s dev k) dev c"
    using c alloc_blk_used [OF assms(1-3) c(2)]
    by (simp add: good_blk_def alloc_readsb [OF assms(1-3)]
        alloc_data_start [OF assms(1-3)])
  show ne: "c \<noteq> of_nat k"
    using c(3) assms(3) fresh_in_data(2) [OF assms(1-3)] by auto
  have "c \<noteq> BBLOCK (of_nat k) (sb_ninodes (readsb s dev))"
    using BBLOCK_below_data(1) [OF assms(2)] c(1) by auto
  with ne show "disk (alloc_effect s dev k) (dev, c) = disk s (dev, c)"
    by (intro alloc_disk_other)
qed

lemma alloc_fresh_good:
  assumes "meta_used s dev" and "k < unat (sb_size (readsb s dev))"
      and "\<not> blk_used s dev k"
  shows "good_blk (alloc_effect s dev k) dev (of_nat k)"
  using fresh_in_data(1,2) [OF assms] alloc_blk_used [OF assms assms(2)] assms(2)
  by (simp add: good_blk_def alloc_readsb [OF assms] alloc_data_start [OF assms])

lemma alloc_meta_used:
  assumes "meta_used s dev" and "k < unat (sb_size (readsb s dev))"
      and "\<not> blk_used s dev k"
  shows "meta_used (alloc_effect s dev k) dev"
  using assms(1) alloc_blk_used [OF assms]
  by (simp add: meta_used_def alloc_readsb [OF assms] alloc_data_start [OF assms])

subsection \<open>Addresses in the places of an inode\<close>

lemma slot_val_cong:
  assumes "i_addrs (icache s1 ip) = i_addrs (icache s ip)"
      and "i_dev (icache s1 ip) = i_dev (icache s ip)"
      and "\<And>t. is_tbl_slot t \<Longrightarrow> slot_val s ip t \<noteq> 0 \<Longrightarrow>
             disk s1 (i_dev (icache s ip), slot_val s ip t)
               = disk s (i_dev (icache s ip), slot_val s ip t)"
  shows "slot_val s1 ip sl = slot_val s ip sl"
proof -
  have e: "tbl_entry s1 ip (slot_val s ip t) j = tbl_entry s ip (slot_val s ip t) j"
    if "is_tbl_slot t" for t j
    using assms(3) [OF that] assms(2) by (simp add: tbl_entry_def bread_def)
  have dent: "slot_val s1 ip (DoubleEnt k) = slot_val s ip (DoubleEnt k)" for k
    using e [of Double k] assms(1) by simp
  show ?thesis
  proof (cases sl)
    case (Direct i)
    then show ?thesis using assms(1) by simp
  next
    case Single
    then show ?thesis using assms(1) by simp
  next
    case (SingleEnt j)
    then show ?thesis using e [of Single j] assms(1) by simp
  next
    case Double
    then show ?thesis using assms(1) by simp
  next
    case (DoubleEnt k)
    then show ?thesis using dent by simp
  next
    case (Leaf k j)
    have "slot_val s1 ip (Leaf k j) = tbl_entry s1 ip (slot_val s ip (DoubleEnt k)) j"
      using dent [of k] by simp
    also have "\<dots> = tbl_entry s ip (slot_val s ip (DoubleEnt k)) j"
      using e [of "DoubleEnt k" j] by simp
    finally show ?thesis using Leaf by simp
  qed
qed

lemma alloc_slot_val:
  assumes "inode_wf s ip" and "k < unat (sb_size (readsb s (i_dev (icache s ip))))"
      and "\<not> blk_used s (i_dev (icache s ip)) k"
  shows "slot_val (alloc_effect s (i_dev (icache s ip)) k) ip sl = slot_val s ip sl"
proof (rule slot_val_cong)
  fix t assume "slot_val s ip t \<noteq> 0"
  then have "good_blk s (i_dev (icache s ip)) (slot_val s ip t)"
    using assms(1) by (simp add: inode_wf_def)
  then show "disk (alloc_effect s (i_dev (icache s ip)) k)
               (i_dev (icache s ip), slot_val s ip t)
             = disk s (i_dev (icache s ip), slot_val s ip t)"
    using alloc_good_blk(2) assms by (simp add: inode_wf_def)
qed simp_all

lemma alloc_inode_wf:
  assumes "inode_wf s ip" and "k < unat (sb_size (readsb s (i_dev (icache s ip))))"
      and "\<not> blk_used s (i_dev (icache s ip)) k"
  shows "inode_wf (alloc_effect s (i_dev (icache s ip)) k) ip"
    and "slot_val s ip sl \<noteq> of_nat k"
proof -
  let ?dev = "i_dev (icache s ip)"
  from assms(1) have m: "meta_used s ?dev"
    and g: "\<And>sl. slot_val s ip sl \<noteq> 0 \<Longrightarrow> good_blk s ?dev (slot_val s ip sl)"
    and inj: "\<And>sl sl'. slot_val s ip sl \<noteq> 0 \<Longrightarrow> slot_val s ip sl = slot_val s ip sl'
                \<Longrightarrow> sl = sl'"
    by (auto simp: inode_wf_def)
  show "slot_val s ip sl \<noteq> of_nat k"
  proof (cases "slot_val s ip sl = 0")
    case True
    then show ?thesis using fresh_in_data(5) [OF m assms(2,3)] by simp
  next
    case False
    from alloc_good_blk(3) [OF m assms(2,3) g [OF False]] show ?thesis .
  qed
  show "inode_wf (alloc_effect s ?dev k) ip"
    unfolding inode_wf_def alloc_slot_val [OF assms] alloc_icache
  proof (intro conjI allI impI)
    show "meta_used (alloc_effect s ?dev k) ?dev"
      by (rule alloc_meta_used [OF m assms(2,3)])
  next
    fix sl assume "slot_val s ip sl \<noteq> 0"
    then show "good_blk (alloc_effect s ?dev k) ?dev (slot_val s ip sl)"
      using alloc_good_blk(1) [OF m assms(2,3)] g by blast
  next
    fix sl sl' assume "slot_val s ip sl \<noteq> 0 \<and> slot_val s ip sl = slot_val s ip sl'"
    then show "sl = sl'" using inj by blast
  qed
qed


subsection \<open>Storing an address\<close>

lemma upd_inode_simps [simp]:
  "disk (upd_inode s ip f) = disk s"
  "fs_log (upd_inode s ip f) = fs_log s"
  "cwd (upd_inode s ip f) = cwd s"
  "devsw (upd_inode s ip f) = devsw s"
  "icache (upd_inode s ip f) = (icache s)(ip := f (icache s ip))"
  by (simp_all add: upd_inode_def)

lemma store_simps [simp]:
  "icache (log_write s dev b) = icache s"
  "cwd (log_write s dev b) = cwd s"
  "devsw (log_write s dev b) = devsw s"
  "disk (log_write s dev b) = disk s"
  "icache (bstore s dev b x) = icache s"
  "cwd (bstore s dev b x) = cwd s"
  "devsw (bstore s dev b x) = devsw s"
  "disk (bstore s dev b x) = (disk s)((dev, b) := x)"
  by (simp_all add: log_write_def bstore_def)

lemma grows_refl: "grows s s ip"
  by (simp add: grows_def)

lemma growsD:
  assumes "grows s s1 ip"
  shows "slot_val s ip sl \<noteq> 0 \<Longrightarrow> slot_val s1 ip sl = slot_val s ip sl"
    and "slot_val s ip sl \<noteq> 0 \<Longrightarrow> \<not> is_tbl_slot sl \<Longrightarrow>
           disk s1 (i_dev (icache s ip), slot_val s ip sl)
             = disk s (i_dev (icache s ip), slot_val s ip sl)"
    and "icache s1 = (icache s)(ip := (icache s ip)\<lparr>i_addrs := i_addrs (icache s1 ip)\<rparr>)"
    and "cwd s1 = cwd s" and "devsw s1 = devsw s"
    and "readsb s1 (i_dev (icache s ip)) = readsb s (i_dev (icache s ip))"
    and "j < unat (sb_size (readsb s (i_dev (icache s ip)))) \<Longrightarrow>
           blk_used s (i_dev (icache s ip)) j \<Longrightarrow> blk_used s1 (i_dev (icache s ip)) j"
  using assms unfolding grows_def by blast+

lemma grows_dev:
  assumes "grows s s1 ip"
  shows "i_dev (icache s1 i) = i_dev (icache s i)"
    and "i_size (icache s1 i) = i_size (icache s i)"
    and "i_type (icache s1 i) = i_type (icache s i)"
    and "i_inum (icache s1 i) = i_inum (icache s i)"
proof -
  note ic = growsD(3) [OF assms]
  show "i_dev (icache s1 i) = i_dev (icache s i)"
    by (subst ic) simp
  show "i_size (icache s1 i) = i_size (icache s i)"
    by (subst ic) simp
  show "i_type (icache s1 i) = i_type (icache s i)"
    by (subst ic) simp
  show "i_inum (icache s1 i) = i_inum (icache s i)"
    by (subst ic) simp
qed

lemma grows_trans:
  assumes "grows s s1 ip" and "grows s1 s2 ip"
  shows "grows s s2 ip"
  unfolding grows_def
proof (intro conjI allI impI)
  note dev = grows_dev(1) [OF assms(1), of ip]
  note a = growsD [OF assms(1)]
  note b = growsD [OF assms(2), unfolded dev a(6)]
  {
    fix sl assume "slot_val s ip sl \<noteq> 0"
    then show "slot_val s2 ip sl = slot_val s ip sl"
      using a(1) [of sl] b(1) [of sl] by simp
  next
    fix sl assume h: "slot_val s ip sl \<noteq> 0 \<and> \<not> is_tbl_slot sl"
    then have e: "slot_val s1 ip sl = slot_val s ip sl" using a(1) by simp
    from h e show "disk s2 (i_dev (icache s ip), slot_val s ip sl)
             = disk s (i_dev (icache s ip), slot_val s ip sl)"
      using a(2) [of sl] b(2) [of sl] by simp
  next
    show "icache s2 = (icache s)(ip := (icache s ip)\<lparr>i_addrs := i_addrs (icache s2 ip)\<rparr>)"
      by (subst b(3), subst (1 2) a(3)) simp
  next
    show "cwd s2 = cwd s" using a(4) b(4) by simp
  next
    show "devsw s2 = devsw s" using a(5) b(5) by simp
  next
    show "readsb s2 (i_dev (icache s ip)) = readsb s (i_dev (icache s ip))"
      using a(6) b(6) by simp
  next
    fix j assume "j < unat (sb_size (readsb s (i_dev (icache s ip))))
              \<and> blk_used s (i_dev (icache s ip)) j"
    then show "blk_used s2 (i_dev (icache s ip)) j"
      using a(7) [of j] b(7) [of j] by simp
  }
qed

lemma alloc_grows:
  assumes "inode_wf s ip" and "k < unat (sb_size (readsb s (i_dev (icache s ip))))"
      and "\<not> blk_used s (i_dev (icache s ip)) k"
  shows "grows s (alloc_effect s (i_dev (icache s ip)) k) ip"
    and "fresh_blk (alloc_effect s (i_dev (icache s ip)) k) ip (of_nat k)"
proof -
  let ?dev = "i_dev (icache s ip)"
  let ?s1 = "alloc_effect s ?dev k"
  from assms(1) have m: "meta_used s ?dev"
    and g: "\<And>sl. slot_val s ip sl \<noteq> 0 \<Longrightarrow> good_blk s ?dev (slot_val s ip sl)"
    by (auto simp: inode_wf_def)
  show "grows s ?s1 ip"
    unfolding grows_def alloc_slot_val [OF assms] alloc_icache alloc_readsb [OF m assms(2,3)]
  proof (intro conjI allI impI)
    fix sl assume "slot_val s ip sl \<noteq> 0 \<and> \<not> is_tbl_slot sl"
    then show "disk ?s1 (?dev, slot_val s ip sl) = disk s (?dev, slot_val s ip sl)"
      using alloc_good_blk(2) [OF m assms(2,3)] g by blast
  next
    fix j assume "j < unat (sb_size (readsb s ?dev)) \<and> blk_used s ?dev j"
    then show "blk_used ?s1 ?dev j"
      using alloc_blk_used [OF m assms(2,3)] by blast
  qed simp_all
  show "fresh_blk ?s1 ip (of_nat k)"
    unfolding fresh_blk_def alloc_slot_val [OF assms] alloc_icache
    using alloc_fresh_good [OF m assms(2,3)] alloc_inode_wf(2) [OF assms]
      alloc_disk_zero [of _ s ?dev k]
    by blast
qed


lemma good_blk_nonzero:
  assumes "good_blk s dev a"
  shows "a \<noteq> 0" and "a \<noteq> 1"
    and "j < unat (sb_size (readsb s dev)) \<Longrightarrow> a \<noteq> BBLOCK (of_nat j) (sb_ninodes (readsb s dev))"
proof -
  from assms have d: "data_start s dev \<le> unat a" by (simp add: good_blk_def)
  with data_start_ge [of s dev] have "4 \<le> unat a" by simp
  then show "a \<noteq> 0" and "a \<noteq> 1" by auto
  show "a \<noteq> BBLOCK (of_nat j) (sb_ninodes (readsb s dev))"
    if "j < unat (sb_size (readsb s dev))"
    using BBLOCK_below_data(1) [OF that] d by auto
qed

text \<open>A store into a block of the data area leaves the superblock and the bitmap alone.\<close>

lemma store_good_frame:
  assumes "good_blk s dev T"
  shows "readsb (log_write (bstore s dev T b) dev T) dev = readsb s dev"
    and "data_start (log_write (bstore s dev T b) dev T) dev = data_start s dev"
    and "j < unat (sb_size (readsb s dev)) \<Longrightarrow>
           blk_used (log_write (bstore s dev T b) dev T) dev j = blk_used s dev j"
proof -
  show r: "readsb (log_write (bstore s dev T b) dev T) dev = readsb s dev"
    using good_blk_nonzero(2) [OF assms] by (simp add: readsb_def bread_def)
  show "data_start (log_write (bstore s dev T b) dev T) dev = data_start s dev"
    by (simp add: data_start_def r)
  show "blk_used (log_write (bstore s dev T b) dev T) dev j = blk_used s dev j"
    if "j < unat (sb_size (readsb s dev))"
    using good_blk_nonzero(3) [OF assms that] by (simp add: blk_used_def r bread_def)
qed

lemma wf_store:
  assumes wf: "inode_wf s ip" and fr: "fresh_blk s ip a"
      and z: "slot_val s ip sl0 = 0"
      and sv: "\<And>sl. slot_val s2 ip sl = (if sl = sl0 then a else slot_val s ip sl)"
      and dev: "i_dev (icache s2 ip) = i_dev (icache s ip)"
      and sb: "readsb s2 (i_dev (icache s ip)) = readsb s (i_dev (icache s ip))"
      and used: "\<And>j. j < unat (sb_size (readsb s (i_dev (icache s ip)))) \<Longrightarrow>
                  blk_used s2 (i_dev (icache s ip)) j = blk_used s (i_dev (icache s ip)) j"
  shows "inode_wf s2 ip"
proof -
  let ?dev = "i_dev (icache s ip)"
  from wf have m: "meta_used s ?dev"
    and g: "\<And>sl. slot_val s ip sl \<noteq> 0 \<Longrightarrow> good_blk s ?dev (slot_val s ip sl)"
    and inj: "\<And>sl sl'. slot_val s ip sl \<noteq> 0 \<Longrightarrow> slot_val s ip sl = slot_val s ip sl'
                \<Longrightarrow> sl = sl'"
    by (auto simp: inode_wf_def)
  from fr have ga: "good_blk s ?dev a" and na: "\<And>sl. slot_val s ip sl \<noteq> a"
    by (auto simp: fresh_blk_def)
  have ds: "data_start s2 ?dev = data_start s ?dev"
    by (simp add: data_start_def sb)
  have gb: "good_blk s2 ?dev c" if "good_blk s ?dev c" for c
    using that used [of "unat c"] by (simp add: good_blk_def sb ds)
  show ?thesis
    unfolding inode_wf_def dev
  proof (intro conjI allI impI)
    show "meta_used s2 ?dev"
      using m used by (simp add: meta_used_def sb ds)
  next
    fix sl assume "slot_val s2 ip sl \<noteq> 0"
    then show "good_blk s2 ?dev (slot_val s2 ip sl)"
      using gb [OF ga] gb [OF g [of sl]] by (simp add: sv split: if_splits)
  next
    fix sl sl'
    assume h: "slot_val s2 ip sl \<noteq> 0 \<and> slot_val s2 ip sl = slot_val s2 ip sl'"
    show "sl = sl'"
    proof (cases "sl = sl0")
      case True
      with h na [of sl'] show ?thesis by (simp add: sv split: if_splits)
    next
      case False
      with h na [of sl] inj [of sl sl'] show ?thesis
        by (auto simp: sv split: if_splits)
    qed
  qed
qed

lemma tbl_entry_zero [simp]: "tbl_entry s ip 0 j = 0"
  by (simp add: tbl_entry_def)

lemma tbl_entry_fresh:
  assumes "fresh_blk s ip a"
  shows "tbl_entry s ip a j = 0"
proof (cases "j < 128")
  case True
  then have "rd32 (disk s (i_dev (icache s ip), a)) (4 * j) = 0"
    using assms by (intro rd32_zero) (simp_all add: fresh_blk_def)
  then show ?thesis by (simp add: tbl_entry_def bread_def)
next
  case False
  then show ?thesis by (simp add: tbl_entry_def NINDIRECT_def)
qed

lemma islot_val:
  assumes "k < unat NDIRECT \<or> k = SINGLE_LINKED_INDIRECT_TABLE
           \<or> k = DOUBLE_LINKED_INDIRECT_TABLE"
  shows "slot_val s ip (islot k) = i_addrs (icache s ip) k"
  using assms by (auto simp: islot_def fs_consts)

text \<open>Storing the address of a fresh block in a slot of the inode that holds 0.\<close>

lemma store_slot:
  assumes wf: "inode_wf s ip" and fr: "fresh_blk s ip a"
      and k: "k < unat NDIRECT \<or> k = SINGLE_LINKED_INDIRECT_TABLE
              \<or> k = DOUBLE_LINKED_INDIRECT_TABLE"
      and z: "i_addrs (icache s ip) k = 0"
  defines "s2 \<equiv> upd_inode s ip (\<lambda>i. i\<lparr>i_addrs := (i_addrs i)(k := a)\<rparr>)"
  shows "slot_val s2 ip sl = (if sl = islot k then a else slot_val s ip sl)"
    and "inode_wf s2 ip" and "grows s s2 ip"
proof -
  have te: "tbl_entry s2 ip X j = tbl_entry s ip X j" for X j
    by (simp add: tbl_entry_def s2_def bread_def)
  have kk: "k < 11 \<or> k = 11 \<or> k = 12"
    using k by (simp add: fs_consts)
  have sv: "slot_val s2 ip sl = (if sl = islot k then a else slot_val s ip sl)" for sl
  proof (cases sl)
    case (Direct i)
    then show ?thesis using kk by (auto simp: s2_def islot_def fs_consts)
  next
    case Single
    then show ?thesis using kk by (auto simp: s2_def islot_def fs_consts)
  next
    case (SingleEnt j)
    then show ?thesis
      using kk z tbl_entry_fresh [OF fr, of j]
      by (auto simp: te islot_def fs_consts) (simp_all add: s2_def)
  next
    case Double
    then show ?thesis using kk by (auto simp: s2_def islot_def fs_consts)
  next
    case (DoubleEnt j)
    then show ?thesis
      using kk z tbl_entry_fresh [OF fr, of j]
      by (auto simp: te islot_def fs_consts) (simp_all add: s2_def)
  next
    case (Leaf i j)
    then show ?thesis
      using kk z tbl_entry_fresh [OF fr, of i]
      by (auto simp: te islot_def fs_consts) (simp_all add: s2_def)
  qed
  then show "slot_val s2 ip sl = (if sl = islot k then a else slot_val s ip sl)" .
  have z0: "slot_val s ip (islot k) = 0"
    using islot_val [OF k] z by simp
  show "inode_wf s2 ip"
    by (rule wf_store [OF wf fr z0 sv]) (simp_all add: s2_def readsb_def blk_used_def bread_def)
  show "grows s s2 ip"
    unfolding grows_def
  proof (intro conjI allI impI)
    fix sl assume "slot_val s ip sl \<noteq> 0"
    with z0 show "slot_val s2 ip sl = slot_val s ip sl" by (auto simp: sv)
  qed (simp_all add: s2_def readsb_def blk_used_def bread_def)
qed


text \<open>Storing the address of a fresh block in an entry of a table that holds 0.\<close>

lemma store_entry:
  assumes wf: "inode_wf s ip" and fr: "fresh_blk s ip a"
      and t: "is_tbl_slot t" and T: "slot_val s ip t \<noteq> 0" and j: "j < 128"
      and z: "slot_val s ip (child t j) = 0"
  defines "s2 \<equiv> log_write (bstore s (i_dev (icache s ip)) (slot_val s ip t)
                    (wr32 (bread s (i_dev (icache s ip)) (slot_val s ip t)) (4 * j) a))
                  (i_dev (icache s ip)) (slot_val s ip t)"
  shows "slot_val s2 ip sl = (if sl = child t j then a else slot_val s ip sl)"
    and "inode_wf s2 ip" and "grows s s2 ip"
    and "\<And>i. i < unat (sb_size (readsb s (i_dev (icache s ip)))) \<Longrightarrow>
           blk_used s2 (i_dev (icache s ip)) i = blk_used s (i_dev (icache s ip)) i"
proof -
  let ?dev = "i_dev (icache s ip)"
  let ?T = "slot_val s ip t"
  from wf have g: "\<And>sl. slot_val s ip sl \<noteq> 0 \<Longrightarrow> good_blk s ?dev (slot_val s ip sl)"
    and inj: "\<And>sl sl'. slot_val s ip sl \<noteq> 0 \<Longrightarrow> slot_val s ip sl = slot_val s ip sl'
                \<Longrightarrow> sl = sl'"
    by (auto simp: inode_wf_def)
  from fr have na: "\<And>sl. slot_val s ip sl \<noteq> a"
    by (auto simp: fresh_blk_def)
  have aT: "a \<noteq> ?T" using na [of t] by simp
  have ic: "icache s2 = icache s" by (simp add: s2_def)
  have G: "tbl_entry s2 ip X i = (if X = ?T \<and> i = j then a else tbl_entry s ip X i)" for X i
  proof (cases "X = ?T")
    case True
    show ?thesis
    proof (cases "i = j")
      case True
      with \<open>X = ?T\<close> T j show ?thesis
        by (simp add: tbl_entry_def s2_def bread_def rd32_wr32_same NINDIRECT_def)
    next
      case False
      then have "4 * j + 4 \<le> 4 * i \<or> 4 * i + 4 \<le> 4 * j" by arith
      with \<open>X = ?T\<close> False show ?thesis
        by (simp add: tbl_entry_def s2_def bread_def rd32_wr32_other)
    qed
  next
    case False
    then show ?thesis by (simp add: tbl_entry_def s2_def bread_def)
  qed
  have Ga: "tbl_entry s2 ip a i = 0" for i
    using G [of a i] aT tbl_entry_fresh [OF fr, of i] by simp
  have top: "slot_val s2 ip Single = slot_val s ip Single"
    "slot_val s2 ip Double = slot_val s ip Double"
    by (simp_all add: ic)
  have eqT: "(slot_val s ip x = ?T) = (x = t)" for x
  proof
    assume "slot_val s ip x = ?T"
    then have "slot_val s ip t = slot_val s ip x" by simp
    from inj [OF T this] show "x = t" by simp
  next
    assume "x = t"
    then show "slot_val s ip x = ?T" by simp
  qed
  have sent: "slot_val s2 ip (SingleEnt i) =
      (if SingleEnt i = child t j then a else slot_val s ip (SingleEnt i))" for i
  proof -
    have "slot_val s2 ip (SingleEnt i) = tbl_entry s2 ip (slot_val s ip Single) i"
      by (simp add: ic)
    also have "\<dots> = (if slot_val s ip Single = ?T \<and> i = j then a
                     else slot_val s ip (SingleEnt i))"
      by (simp add: G)
    finally have e: "slot_val s2 ip (SingleEnt i) =
        (if slot_val s ip Single = ?T \<and> i = j then a else slot_val s ip (SingleEnt i))" .
    have c: "(Single = t \<and> i = j) = (SingleEnt i = child t j)"
      using t by (cases t) auto
    from e show ?thesis unfolding eqT c .
  qed
  have dent: "slot_val s2 ip (DoubleEnt i) =
      (if DoubleEnt i = child t j then a else slot_val s ip (DoubleEnt i))" for i
  proof -
    have "slot_val s2 ip (DoubleEnt i) = tbl_entry s2 ip (slot_val s ip Double) i"
      by (simp add: ic)
    also have "\<dots> = (if slot_val s ip Double = ?T \<and> i = j then a
                     else slot_val s ip (DoubleEnt i))"
      by (simp add: G)
    finally have e: "slot_val s2 ip (DoubleEnt i) =
        (if slot_val s ip Double = ?T \<and> i = j then a else slot_val s ip (DoubleEnt i))" .
    have c: "(Double = t \<and> i = j) = (DoubleEnt i = child t j)"
      using t by (cases t) auto
    from e show ?thesis unfolding eqT c .
  qed
  have leaf: "slot_val s2 ip (Leaf k i) =
      (if Leaf k i = child t j then a else slot_val s ip (Leaf k i))" for k i
  proof (cases "DoubleEnt k = child t j")
    case True
    then have tD: "t = Double" "k = j" using t by (cases t; simp)+
    have "slot_val s2 ip (Leaf k i) = tbl_entry s2 ip (slot_val s2 ip (DoubleEnt k)) i"
      by (simp add: ic)
    also have "\<dots> = 0"
    proof -
      have "slot_val s2 ip (DoubleEnt k) = a" using dent [of k] True by simp
      then show ?thesis by (simp only: Ga)
    qed
    finally show ?thesis using z tD by simp
  next
    case False
    then have same: "slot_val s2 ip (DoubleEnt k) = slot_val s ip (DoubleEnt k)"
      using dent [of k] by simp
    have "slot_val s2 ip (Leaf k i) = tbl_entry s2 ip (slot_val s2 ip (DoubleEnt k)) i"
      by (simp add: ic)
    also have "\<dots> = tbl_entry s2 ip (slot_val s ip (DoubleEnt k)) i"
      by (simp only: same)
    also have "\<dots> = (if slot_val s ip (DoubleEnt k) = ?T \<and> i = j then a
                     else slot_val s ip (Leaf k i))"
      by (simp add: G)
    finally have e: "slot_val s2 ip (Leaf k i) =
        (if slot_val s ip (DoubleEnt k) = ?T \<and> i = j then a else slot_val s ip (Leaf k i))" .
    have c: "(DoubleEnt k = t \<and> i = j) = (Leaf k i = child t j)"
      using t by (cases t) auto
    from e show ?thesis unfolding eqT c .
  qed
  have sv: "slot_val s2 ip sl = (if sl = child t j then a else slot_val s ip sl)" for sl
  proof (cases sl)
    case (Direct i)
    then show ?thesis using t by (cases t) (simp_all add: ic)
  next
    case Single
    then show ?thesis using t by (cases t) (simp_all add: ic)
  next
    case (SingleEnt i)
    then show ?thesis using sent by simp
  next
    case Double
    then show ?thesis using t by (cases t) (simp_all add: ic)
  next
    case (DoubleEnt i)
    then show ?thesis using dent by simp
  next
    case (Leaf k i)
    then show ?thesis using leaf by simp
  qed
  then show "slot_val s2 ip sl = (if sl = child t j then a else slot_val s ip sl)" .
  note fr2 = store_good_frame [OF g [OF T],
      where b = "wr32 (bread s ?dev ?T) (4 * j) a", folded s2_def]
  show used: "\<And>i. i < unat (sb_size (readsb s ?dev)) \<Longrightarrow>
           blk_used s2 ?dev i = blk_used s ?dev i"
    by (rule fr2(3))
  show "inode_wf s2 ip"
    by (rule wf_store [OF wf fr z sv]) (simp_all add: ic fr2(1) used)
  show "grows s s2 ip"
    unfolding grows_def
  proof (intro conjI allI impI)
    fix sl assume "slot_val s ip sl \<noteq> 0"
    with z show "slot_val s2 ip sl = slot_val s ip sl" by (auto simp: sv)
  next
    fix sl assume h: "slot_val s ip sl \<noteq> 0 \<and> \<not> is_tbl_slot sl"
    then have "sl \<noteq> t" using t by auto
    then have "slot_val s ip sl \<noteq> ?T" by (simp add: eqT)
    then show "disk s2 (?dev, slot_val s ip sl) = disk s (?dev, slot_val s ip sl)"
      by (simp add: s2_def)
  next
    fix i assume "i < unat (sb_size (readsb s ?dev)) \<and> blk_used s ?dev i"
    then show "blk_used s2 ?dev i" using used by simp
  qed (simp_all add: ic fr2(1), simp_all add: s2_def)
qed


subsection \<open>The steps of bmap\<close>

lemma child_val:
  assumes "is_tbl_slot t"
  shows "slot_val s ip (child t j) = tbl_entry s ip (slot_val s ip t) j"
  using assms by (cases t) simp_all

lemma fresh_nonzero:
  assumes "fresh_blk s ip a"
  shows "a \<noteq> 0"
  using assms good_blk_nonzero(1) by (auto simp: fresh_blk_def)

lemma bmap_slot_step:
  assumes wf: "inode_wf s ip"
      and k: "k < unat NDIRECT \<or> k = SINGLE_LINKED_INDIRECT_TABLE
              \<or> k = DOUBLE_LINKED_INDIRECT_TABLE"
      and run: "bmap_slot s ip k = Ok a s1"
  shows "inode_wf s1 ip" and "slot_val s1 ip (islot k) = a" and "a \<noteq> 0"
    and "grows s s1 ip"
    and "\<And>j. j < unat (sb_size (readsb s (i_dev (icache s ip)))) \<Longrightarrow>
           blk_used s1 (i_dev (icache s ip)) j \<Longrightarrow> \<not> blk_used s (i_dev (icache s ip)) j
           \<Longrightarrow> slot_val s ip (islot k) = 0 \<and> a = of_nat j"
proof -
  let ?dev = "i_dev (icache s ip)"
  have all: "inode_wf s1 ip \<and> slot_val s1 ip (islot k) = a \<and> a \<noteq> 0 \<and> grows s s1 ip
      \<and> (\<forall>j. j < unat (sb_size (readsb s ?dev)) \<and> blk_used s1 ?dev j \<and> \<not> blk_used s ?dev j
            \<longrightarrow> slot_val s ip (islot k) = 0 \<and> a = of_nat j)"
  proof (cases "i_addrs (icache s ip) k = 0")
    case False
    with run have "a = i_addrs (icache s ip) k" "s1 = s"
      by (auto simp: bmap_slot_def Let_def)
    with False wf islot_val [OF k, of s ip] show ?thesis
      by (simp add: grows_refl)
  next
    case True
    with run obtain s' where b: "balloc s ?dev = Ok a s'"
      and s1: "s1 = upd_inode s' ip (\<lambda>i. i\<lparr>i_addrs := (i_addrs i)(k := a)\<rparr>)"
      by (auto simp: bmap_slot_def Let_def split: res.splits)
    from balloc_Ok [OF b] obtain k' where k': "k' < unat (sb_size (readsb s ?dev))"
      "a = of_nat k'" "\<not> blk_used s ?dev k'" "s' = alloc_effect s ?dev k'"
      by blast
    from wf have m: "meta_used s ?dev" by (simp add: inode_wf_def)
    have wf': "inode_wf s' ip"
      using alloc_inode_wf(1) [OF wf k'(1,3)] k'(4) by simp
    have fr: "fresh_blk s' ip a" and g1: "grows s s' ip"
      using alloc_grows [OF wf k'(1,3)] k'(2,4) by simp_all
    have z: "i_addrs (icache s' ip) k = 0"
      using True k'(4) by simp
    note st = store_slot [OF wf' fr k z, folded s1]
    have z0: "slot_val s ip (islot k) = 0"
      using islot_val [OF k, of s ip] True by simp
    have used: "blk_used s1 ?dev j = (blk_used s ?dev j \<or> j = k')"
      if "j < unat (sb_size (readsb s ?dev))" for j
    proof -
      have "blk_used s1 ?dev j = blk_used s' ?dev j"
        by (simp add: s1 blk_used_def readsb_def bread_def)
      then show ?thesis
        using alloc_blk_used [OF m k'(1,3) that] k'(4) by simp
    qed
    show ?thesis
    proof (intro conjI allI impI)
      show "inode_wf s1 ip" by (rule st(2))
      show "slot_val s1 ip (islot k) = a" using st(1) [of "islot k"] by simp
      show "a \<noteq> 0" by (rule fresh_nonzero [OF fr])
      show "grows s s1 ip" by (rule grows_trans [OF g1 st(3)])
    next
      fix j assume "j < unat (sb_size (readsb s ?dev)) \<and> blk_used s1 ?dev j
                    \<and> \<not> blk_used s ?dev j"
      then show "slot_val s ip (islot k) = 0" "a = of_nat j"
        using used [of j] z0 k'(2) by simp_all
    qed
  qed
  from all show "inode_wf s1 ip" and "slot_val s1 ip (islot k) = a" and "a \<noteq> 0"
    and "grows s s1 ip" by simp_all
  from all show "\<And>j. j < unat (sb_size (readsb s ?dev)) \<Longrightarrow>
           blk_used s1 ?dev j \<Longrightarrow> \<not> blk_used s ?dev j
           \<Longrightarrow> slot_val s ip (islot k) = 0 \<and> a = of_nat j"
    by blast
qed

lemma bmap_entry_step:
  assumes wf: "inode_wf s ip"
      and t: "is_tbl_slot t" and T: "slot_val s ip t \<noteq> 0" and j: "j < 128"
      and run: "bmap_entry s (i_dev (icache s ip)) (slot_val s ip t) j = Ok a s1"
  shows "inode_wf s1 ip" and "slot_val s1 ip (child t j) = a" and "a \<noteq> 0"
    and "grows s s1 ip"
    and "\<And>i. i < unat (sb_size (readsb s (i_dev (icache s ip)))) \<Longrightarrow>
           blk_used s1 (i_dev (icache s ip)) i \<Longrightarrow> \<not> blk_used s (i_dev (icache s ip)) i
           \<Longrightarrow> slot_val s ip (child t j) = 0 \<and> a = of_nat i"
proof -
  let ?dev = "i_dev (icache s ip)"
  let ?T = "slot_val s ip t"
  have cv: "slot_val s ip (child t j) = rd32 (bread s ?dev ?T) (4 * j)"
    using child_val [OF t, of s ip j] T j by (simp add: tbl_entry_def NINDIRECT_def)
  have all: "inode_wf s1 ip \<and> slot_val s1 ip (child t j) = a \<and> a \<noteq> 0 \<and> grows s s1 ip
      \<and> (\<forall>i. i < unat (sb_size (readsb s ?dev)) \<and> blk_used s1 ?dev i \<and> \<not> blk_used s ?dev i
            \<longrightarrow> slot_val s ip (child t j) = 0 \<and> a = of_nat i)"
  proof (cases "rd32 (bread s ?dev ?T) (4 * j) = 0")
    case False
    with run have "a = rd32 (bread s ?dev ?T) (4 * j)" "s1 = s"
      by (auto simp: bmap_entry_def Let_def)
    with False wf cv show ?thesis
      by (simp add: grows_refl)
  next
    case True
    with run obtain s' where b: "balloc s ?dev = Ok a s'"
      and s1: "s1 = log_write (bstore s' ?dev ?T (wr32 (bread s' ?dev ?T) (4 * j) a)) ?dev ?T"
      by (auto simp: bmap_entry_def Let_def split: res.splits)
    from balloc_Ok [OF b] obtain k' where k': "k' < unat (sb_size (readsb s ?dev))"
      "a = of_nat k'" "\<not> blk_used s ?dev k'" "s' = alloc_effect s ?dev k'"
      by blast
    from wf have m: "meta_used s ?dev" by (simp add: inode_wf_def)
    have wf': "inode_wf s' ip"
      using alloc_inode_wf(1) [OF wf k'(1,3)] k'(4) by simp
    have fr: "fresh_blk s' ip a" and g1: "grows s s' ip"
      using alloc_grows [OF wf k'(1,3)] k'(2,4) by simp_all
    have sv': "slot_val s' ip sl = slot_val s ip sl" for sl
      using alloc_slot_val [OF wf k'(1,3)] k'(4) by simp
    have dev': "i_dev (icache s' ip) = ?dev" using k'(4) by simp
    have sb': "readsb s' ?dev = readsb s ?dev"
      using alloc_readsb [OF m k'(1,3)] k'(4) by simp
    have T': "slot_val s' ip t \<noteq> 0" using T by (simp add: sv')
    have z: "slot_val s' ip (child t j) = 0" using cv True by (simp add: sv')
    note st = store_entry [OF wf' fr t T' j z, unfolded sv' dev', folded s1]
    show ?thesis
    proof (intro conjI allI impI)
      show "inode_wf s1 ip" by (rule st(2))
      show "slot_val s1 ip (child t j) = a" using st(1) [of "child t j"] by simp
      show "a \<noteq> 0" by (rule fresh_nonzero [OF fr])
      show "grows s s1 ip" by (rule grows_trans [OF g1 st(3)])
    next
      fix i assume h: "i < unat (sb_size (readsb s ?dev)) \<and> blk_used s1 ?dev i
                    \<and> \<not> blk_used s ?dev i"
      then have "blk_used s1 ?dev i = blk_used s' ?dev i"
        using st(4) [of i] sb' by simp
      with h have "i = k'"
        using alloc_blk_used [OF m k'(1,3), of i] k'(4) by simp
      then show "slot_val s ip (child t j) = 0" "a = of_nat i"
        using cv True k'(2) by simp_all
    qed
  qed
  from all show "inode_wf s1 ip" and "slot_val s1 ip (child t j) = a" and "a \<noteq> 0"
    and "grows s s1 ip" by simp_all
  from all show "\<And>i. i < unat (sb_size (readsb s ?dev)) \<Longrightarrow>
           blk_used s1 ?dev i \<Longrightarrow> \<not> blk_used s ?dev i
           \<Longrightarrow> slot_val s ip (child t j) = 0 \<and> a = of_nat i"
    by blast
qed


lemma is_tbl_slotI:
  "is_tbl_slot Single" "is_tbl_slot Double" "is_tbl_slot (DoubleEnt k)"
  by simp_all

lemma new_in_step:
  assumes "\<And>j. j < unat (sb_size (readsb s (i_dev (icache s ip)))) \<Longrightarrow>
           blk_used s1 (i_dev (icache s ip)) j \<Longrightarrow> \<not> blk_used s (i_dev (icache s ip)) j
           \<Longrightarrow> slot_val s ip sl = 0 \<and> a = of_nat j"
      and "slot_val s1 ip sl = a" and "a \<noteq> 0"
  shows "new_in s s1 ip {sl}"
  unfolding new_in_def using assms by blast

lemma new_in_trans:
  assumes g1: "grows s s1 ip" and g2: "grows s1 s2 ip"
      and n1: "new_in s s1 ip S1" and n2: "new_in s1 s2 ip S2"
  shows "new_in s s2 ip (S1 \<union> S2)"
  unfolding new_in_def
proof (intro allI impI)
  let ?dev = "i_dev (icache s ip)"
  note dev = grows_dev(1) [OF g1, of ip]
  note sb = growsD(6) [OF g1]
  fix j
  assume h: "j < unat (sb_size (readsb s ?dev)) \<and> blk_used s2 ?dev j \<and> \<not> blk_used s ?dev j"
  show "\<exists>sl\<in>S1 \<union> S2. slot_val s ip sl = 0 \<and> slot_val s2 ip sl = of_nat j
          \<and> slot_val s2 ip sl \<noteq> 0"
  proof (cases "blk_used s1 ?dev j")
    case True
    with h n1 obtain sl where sl: "sl \<in> S1" "slot_val s ip sl = 0"
      "slot_val s1 ip sl = of_nat j" "slot_val s1 ip sl \<noteq> 0"
      unfolding new_in_def by blast
    from growsD(1) [OF g2 sl(4)] sl show ?thesis by auto
  next
    case False
    with h n2 obtain sl where sl: "sl \<in> S2" "slot_val s1 ip sl = 0"
      "slot_val s2 ip sl = of_nat j" "slot_val s2 ip sl \<noteq> 0"
      unfolding new_in_def dev sb by blast
    have "slot_val s ip sl = 0"
      using growsD(1) [OF g1, of sl] sl(2) by auto
    with sl show ?thesis by auto
  qed
qed

lemma new_in_mono:
  assumes "new_in s s1 ip S" and "S \<subseteq> S'"
  shows "new_in s s1 ip S'"
  using assms unfolding new_in_def by blast

lemma unat_sub_le:
  fixes x y :: u32
  assumes "y \<le> x"
  shows "unat (x - y) = unat x - unat y"
  using assms by (simp add: unat_sub)

text \<open>When the place of the data block holds an address, \<open>bmap\<close> returns it and leaves
  the state as it is.\<close>

lemma bmap_mapped:
  assumes "blk_of s ip bn \<noteq> 0"
  shows "bmap s ip bn = Ok (blk_of s ip bn) s"
proof -
  consider (direct) "bn < NDIRECT"
    | (single) "\<not> bn < NDIRECT" "bn - NDIRECT < NINDIRECT"
    | (double) "\<not> bn < NDIRECT" "\<not> bn - NDIRECT < NINDIRECT"
    by blast
  then show ?thesis
  proof cases
    case direct
    then have "unat bn < unat NDIRECT" by (simp add: word_less_nat_alt)
    with assms direct show ?thesis
      by (simp add: bmap_def blk_of_def leaf_slot_def bmap_slot_def Let_def)
  next
    case single
    let ?j = "unat (bn - NDIRECT)"
    from assms single have v: "tbl_entry s ip (i_addrs (icache s ip) SINGLE_LINKED_INDIRECT_TABLE) ?j \<noteq> 0"
      by (simp add: blk_of_def leaf_slot_def)
    then have t: "i_addrs (icache s ip) SINGLE_LINKED_INDIRECT_TABLE \<noteq> 0"
      by (auto simp: tbl_entry_def)
    from v t have e: "rd32 (bread s (i_dev (icache s ip))
        (i_addrs (icache s ip) SINGLE_LINKED_INDIRECT_TABLE)) (4 * ?j) \<noteq> 0"
      by (auto simp: tbl_entry_def split: if_splits)
    from v t e single show ?thesis
      by (simp add: bmap_def blk_of_def leaf_slot_def bmap_slot_def bmap_entry_def Let_def
          tbl_entry_def split: if_splits)
  next
    case double
    let ?x = "bn - NDIRECT - NINDIRECT"
    let ?k = "unat (?x div NINDIRECT)" and ?j = "unat (?x mod NINDIRECT)"
    let ?D = "i_addrs (icache s ip) DOUBLE_LINKED_INDIRECT_TABLE"
    from assms double have v: "tbl_entry s ip (tbl_entry s ip ?D ?k) ?j \<noteq> 0"
      by (simp add: blk_of_def leaf_slot_def)
    then have v1: "tbl_entry s ip ?D ?k \<noteq> 0"
      by (auto simp: tbl_entry_def [of s ip 0])
    then have t: "?D \<noteq> 0" and k: "?k < unat NINDIRECT"
      by (auto simp: tbl_entry_def split: if_splits)
    from k have "unat ?x div 128 < 128"
      by (simp add: unat_div NINDIRECT_def)
    then have "unat ?x < 16384" by simp
    then have rng: "?x < NDINDIRECT"
      by (simp add: word_less_nat_alt NDINDIRECT_def)
    from v1 t have e1: "rd32 (bread s (i_dev (icache s ip)) ?D) (4 * ?k) \<noteq> 0"
      by (auto simp: tbl_entry_def split: if_splits)
    from v have e2: "rd32 (bread s (i_dev (icache s ip))
        (rd32 (bread s (i_dev (icache s ip)) ?D) (4 * ?k))) (4 * ?j) \<noteq> 0"
      using t k by (auto simp: tbl_entry_def split: if_splits)
    from v v1 t k e1 e2 double rng show ?thesis
      by (simp add: bmap_def blk_of_def leaf_slot_def bmap_slot_def bmap_entry_def Let_def
          tbl_entry_def split: if_splits)
  qed
qed

text \<open>A successful \<open>bmap\<close> in a consistent inode: the inode stays consistent, the
  address returned is not 0 and is held in the place of the data block, what was held
  before is still held, and every block allocated on the way is held in a place on the
  way that held 0.\<close>

lemma bmap_step:
  assumes wf: "inode_wf s ip" and run: "bmap s ip bn = Ok a s1"
  shows "inode_wf s1 ip" and "blk_of s1 ip bn = a" and "a \<noteq> 0" and "grows s s1 ip"
    and "new_in s s1 ip (set (path_slots bn))"
proof -
  have all: "inode_wf s1 ip \<and> blk_of s1 ip bn = a \<and> a \<noteq> 0 \<and> grows s s1 ip
      \<and> new_in s s1 ip (set (path_slots bn))"
  proof -
    consider (direct) "bn < NDIRECT"
      | (single) "\<not> bn < NDIRECT" "bn - NDIRECT < NINDIRECT"
      | (double) "\<not> bn < NDIRECT" "\<not> bn - NDIRECT < NINDIRECT"
          "bn - NDIRECT - NINDIRECT < NDINDIRECT"
      | (out) "\<not> bn < NDIRECT" "\<not> bn - NDIRECT < NINDIRECT"
          "\<not> bn - NDIRECT - NINDIRECT < NDINDIRECT"
      by blast
    then show ?thesis
    proof cases
      case direct
      then have k: "unat bn < unat NDIRECT" by (simp add: word_less_nat_alt)
      then have isl: "islot (unat bn) = Direct (unat bn)"
        by (simp add: islot_def fs_consts)
      from run direct have r: "bmap_slot s ip (unat bn) = Ok a s1"
        by (simp add: bmap_def)
      note st = bmap_slot_step [OF wf disjI1 [OF k] r, unfolded isl]
      from st(1-4) new_in_step [OF st(5) st(2,3)] direct show ?thesis
        by (simp add: blk_of_def leaf_slot_def path_slots_def)
    next
      case single
      let ?j = "unat (bn - NDIRECT)"
      have j: "?j < 128"
        using single(2) by (simp add: word_less_nat_alt NINDIRECT_def)
      have isl: "islot SINGLE_LINKED_INDIRECT_TABLE = Single"
        by (simp add: islot_def)
      from run single obtain t sA where
        r1: "bmap_slot s ip SINGLE_LINKED_INDIRECT_TABLE = Ok t sA"
        and r2: "bmap_entry sA (i_dev (icache sA ip)) t ?j = Ok a s1"
        by (auto simp: bmap_def split: res.splits)
      note st1 = bmap_slot_step [OF wf disjI2 [OF disjI1 [OF refl]] r1, unfolded isl]
      have T: "slot_val sA ip Single \<noteq> 0" using st1(2,3) by simp
      have r2': "bmap_entry sA (i_dev (icache sA ip)) (slot_val sA ip Single) ?j = Ok a s1"
        using r2 st1(2) by simp
      note st2 = bmap_entry_step [OF st1(1) is_tbl_slotI(1) T j r2', unfolded child.simps]
      note n1 = new_in_step [OF st1(5) st1(2,3)]
      note n2 = new_in_step [OF st2(5) st2(2,3)]
      from st2(1-3) grows_trans [OF st1(4) st2(4)]
        new_in_trans [OF st1(4) st2(4) n1 n2] single
      show ?thesis
        by (simp add: blk_of_def leaf_slot_def path_slots_def insert_commute)
    next
      case double
      let ?x = "bn - NDIRECT - NINDIRECT"
      let ?k = "unat (?x div NINDIRECT)" and ?j = "unat (?x mod NINDIRECT)"
      have "unat ?x < 16384"
        using double(3) by (simp add: word_less_nat_alt NDINDIRECT_def)
      then have k: "?k < 128"
        by (simp add: unat_div NINDIRECT_def)
      have j: "?j < 128"
        by (simp add: unat_mod NINDIRECT_def)
      have isl: "islot DOUBLE_LINKED_INDIRECT_TABLE = Double"
        by (simp add: islot_def fs_consts)
      from run double obtain t sA t2 sB where
        r1: "bmap_slot s ip DOUBLE_LINKED_INDIRECT_TABLE = Ok t sA"
        and r2: "bmap_entry sA (i_dev (icache sA ip)) t ?k = Ok t2 sB"
        and r3: "bmap_entry sB (i_dev (icache sB ip)) t2 ?j = Ok a s1"
        by (auto simp: bmap_def split: res.splits)
      note st1 = bmap_slot_step [OF wf disjI2 [OF disjI2 [OF refl]] r1, unfolded isl]
      have T: "slot_val sA ip Double \<noteq> 0" using st1(2,3) by simp
      have r2': "bmap_entry sA (i_dev (icache sA ip)) (slot_val sA ip Double) ?k = Ok t2 sB"
        using r2 st1(2) by simp
      note st2 = bmap_entry_step [OF st1(1) is_tbl_slotI(2) T k r2', unfolded child.simps]
      have T2: "slot_val sB ip (DoubleEnt ?k) \<noteq> 0" using st2(2,3) by simp
      have r3': "bmap_entry sB (i_dev (icache sB ip)) (slot_val sB ip (DoubleEnt ?k)) ?j
                  = Ok a s1"
        using r3 st2(2) by simp
      note st3 = bmap_entry_step [OF st2(1) is_tbl_slotI(3) T2 j r3', unfolded child.simps]
      note n1 = new_in_step [OF st1(5) st1(2,3)]
      note n2 = new_in_step [OF st2(5) st2(2,3)]
      note n3 = new_in_step [OF st3(5) st3(2,3)]
      note g12 = grows_trans [OF st1(4) st2(4)]
      note n12 = new_in_trans [OF st1(4) st2(4) n1 n2]
      from st3(1-3) grows_trans [OF g12 st3(4)] new_in_trans [OF g12 st3(4) n12 n3] double
      show ?thesis
        by (simp add: blk_of_def leaf_slot_def path_slots_def insert_commute Un_commute)
    next
      case out
      with run show ?thesis by (simp add: bmap_def)
    qed
  qed
  from all show "inode_wf s1 ip" and "blk_of s1 ip bn = a" and "a \<noteq> 0" and "grows s s1 ip"
    and "new_in s s1 ip (set (path_slots bn))"
    by simp_all
qed


subsection \<open>balloc finds a free block\<close>

lemma balloc_scan_None:
  "balloc_scan bp b sz bi = None \<Longrightarrow> bi \<le> i \<Longrightarrow> i < BPB \<Longrightarrow> b + i < sz \<Longrightarrow> bit_used bp i"
proof (induction bp b sz bi rule: balloc_scan.induct)
  case (1 bp b sz bi)
  from "1.prems"(2-4) have in_range: "bi < BPB \<and> b + bi < sz" by simp
  with "1.prems"(1) have used: "bp (bi div 8) AND push_bit (bi mod 8) 1 \<noteq> 0"
    and rest: "balloc_scan bp b sz (Suc bi) = None"
    by (simp_all add: balloc_scan.simps [of bp b sz bi] split: if_splits)
  show ?case
  proof (cases "i = bi")
    case True
    with used show ?thesis by (simp add: bit_used_def)
  next
    case False
    with "1.prems"(2) have "Suc bi \<le> i" by simp
    from "1.IH" [OF in_range used rest this "1.prems"(3,4)] show ?thesis .
  qed
qed

lemma balloc_loop_full:
  "balloc_loop s dev sb b = Stop e \<Longrightarrow> BPB dvd b \<Longrightarrow> sb = readsb s dev \<Longrightarrow>
     b \<le> k \<Longrightarrow> k < unat (sb_size sb) \<Longrightarrow> blk_used s dev k"
proof (induction s dev sb b rule: balloc_loop.induct)
  case (1 s dev sb b)
  note run = "1.prems"(1) and dvd = "1.prems"(2) and sb = "1.prems"(3)
    and bk = "1.prems"(4) and ksz = "1.prems"(5)
  from bk ksz have lt: "b < unat (sb_size sb)" by simp
  let ?bno = "BBLOCK (of_nat b) (sb_ninodes sb)"
  let ?bp = "bread s dev ?bno"
  from run lt have none: "balloc_scan ?bp b (unat (sb_size sb)) 0 = None"
    and rest: "balloc_loop s dev sb (b + BPB) = Stop e"
    by (simp_all add: balloc_loop.simps [of s dev sb b] Let_def split: option.splits)
  show ?case
  proof (cases "k < b + BPB")
    case True
    define r where "r = k - b"
    have r: "r < BPB" "b + r = k" using True bk by (simp_all add: r_def)
    have k32: "b + r < 2 ^ 32" unfolding r(2) using ksz by (rule size_lt_32)
    note grp = BBLOCK_same_group(1) [OF dvd r(1) k32, of "sb_ninodes sb"]
      BBLOCK_same_group(2) [OF dvd r(1) k32]
    have "bit_used ?bp r"
      using none _ r(1) by (rule balloc_scan_None) (simp_all add: r(2) ksz)
    then show ?thesis
      unfolding blk_used_def sb [symmetric] r(2) [symmetric] grp(1) [symmetric] grp(2) .
  next
    case False
    then have "b + BPB \<le> k" by simp
    moreover have "BPB dvd b + BPB" using dvd by simp
    ultimately show ?thesis
      using "1.IH" [OF lt refl refl none rest _ sb] ksz by simp
  qed
qed

lemma free_blks_finite [simp]: "finite (free_blks s dev)"
  by (simp add: free_blks_def)

lemma balloc_runs:
  assumes "free_blks s dev \<noteq> {}"
  shows "\<exists>a s1. balloc s dev = Ok a s1"
proof (cases "balloc s dev")
  case (Ok a s1)
  then show ?thesis by blast
next
  case (Stop e)
  from assms obtain k where k: "k < unat (sb_size (readsb s dev))" "\<not> blk_used s dev k"
    by (auto simp: free_blks_def)
  from Stop have "balloc_loop s dev (readsb s dev) 0 = Stop e" by (simp add: balloc_def)
  from balloc_loop_full [OF this _ refl _ k(1)] k(2) show ?thesis by simp
qed

lemma balloc_free:
  assumes "balloc s dev = Ok a s1"
  shows "unat a \<in> free_blks s dev"
proof -
  from balloc_Ok [OF assms] obtain k where k: "k < unat (sb_size (readsb s dev))"
    "a = of_nat k" "\<not> blk_used s dev k" by blast
  have "unat a = k" unfolding k(2) using size_lt_32 [OF k(1)] by (simp add: unat_of_nat)
  with k show ?thesis by (simp add: free_blks_def)
qed

subsection \<open>Free blocks for the places that hold no address\<close>

lemma grows_free:
  assumes "grows s s1 ip"
  shows "free_blks s1 (i_dev (icache s1 ip)) \<subseteq> free_blks s (i_dev (icache s ip))"
  using growsD(6,7) [OF assms] grows_dev(1) [OF assms, of ip]
  by (auto simp: free_blks_def)

lemma enough_nonempty:
  assumes "enough s ip N" and "sl \<in> N" and "slot_val s ip sl = 0"
  shows "free_blks s (i_dev (icache s ip)) \<noteq> {}"
proof -
  from assms have "finite (zero_slots s ip N)" and "sl \<in> zero_slots s ip N"
    by (simp_all add: enough_def zero_slots_def)
  then have "0 < card (zero_slots s ip N)" by (auto simp: card_gt_0_iff)
  with assms(1) have "0 < card (free_blks s (i_dev (icache s ip)))"
    by (simp add: enough_def)
  then show ?thesis by auto
qed

lemma enough_mono:
  assumes "enough s ip N" and "finite M" and "zero_slots s ip M \<subseteq> zero_slots s ip N"
  shows "enough s ip M"
proof -
  from assms(1) have "finite (zero_slots s ip N)" by (simp add: enough_def zero_slots_def)
  from card_mono [OF this assms(3)] assms(1,2) show ?thesis by (simp add: enough_def)
qed

text \<open>After an operation that puts fresh blocks in places of \<open>S\<close> only, there are
  free blocks enough for the other places.\<close>

lemma enough_step:
  assumes e: "enough s ip N" and g: "grows s s1 ip" and n: "new_in s s1 ip S"
      and sub: "S \<subseteq> N"
  shows "enough s1 ip (N - S)"
proof -
  let ?dev = "i_dev (icache s ip)"
  let ?sz = "unat (sb_size (readsb s ?dev))"
  let ?new = "{j. j < ?sz \<and> blk_used s1 ?dev j \<and> \<not> blk_used s ?dev j}"
  let ?Z = "zero_slots s ip N" and ?ZS = "zero_slots s ip S"
  note dev = grows_dev(1) [OF g, of ip]
  note sb = growsD(6) [OF g]
  from e have fN: "finite N" and le: "card ?Z \<le> card (free_blks s ?dev)"
    by (simp_all add: enough_def)
  have fZ: "finite ?Z" using fN by (simp add: zero_slots_def)
  have fS: "finite ?ZS" using fN sub by (auto simp: zero_slots_def intro: finite_subset)
  have ZS: "?ZS \<subseteq> ?Z" using sub by (auto simp: zero_slots_def)
  have "?new \<subseteq> (\<lambda>sl. unat (slot_val s1 ip sl)) ` ?ZS"
  proof
    fix j assume "j \<in> ?new"
    then have j: "j < ?sz" "blk_used s1 ?dev j" "\<not> blk_used s ?dev j" by simp_all
    with n obtain sl where sl: "sl \<in> S" "slot_val s ip sl = 0" "slot_val s1 ip sl = of_nat j"
      unfolding new_in_def by blast
    have "unat (slot_val s1 ip sl) = j"
      unfolding sl(3) using size_lt_32 [OF j(1)] by (simp add: unat_of_nat)
    with sl(1,2) show "j \<in> (\<lambda>sl. unat (slot_val s1 ip sl)) ` ?ZS"
      by (auto simp: zero_slots_def)
  qed
  then have "card ?new \<le> card ((\<lambda>sl. unat (slot_val s1 ip sl)) ` ?ZS)"
    using fS by (intro card_mono) simp_all
  also have "\<dots> \<le> card ?ZS" using fS by (rule card_image_le)
  finally have cn: "card ?new \<le> card ?ZS" .
  have fnew: "finite ?new" by simp
  have "free_blks s ?dev - ?new \<subseteq> free_blks s1 ?dev"
    by (auto simp: free_blks_def sb)
  then have "card (free_blks s ?dev - ?new) \<le> card (free_blks s1 ?dev)"
    by (intro card_mono) simp_all
  moreover have "card (free_blks s ?dev) - card ?new \<le> card (free_blks s ?dev - ?new)"
    using fnew by (rule diff_card_le_card_Diff)
  ultimately have c1: "card (free_blks s ?dev) - card ?new \<le> card (free_blks s1 ?dev)"
    by simp
  have keep: "slot_val s ip x = 0" if "slot_val s1 ip x = 0" for x
    using growsD(1) [OF g, of x] that by (cases "slot_val s ip x = 0") simp_all
  have "zero_slots s1 ip (N - S) \<subseteq> ?Z - ?ZS"
    using keep by (auto simp: zero_slots_def)
  then have "card (zero_slots s1 ip (N - S)) \<le> card (?Z - ?ZS)"
    using fZ by (intro card_mono) simp_all
  also have "\<dots> = card ?Z - card ?ZS"
    using fS ZS by (simp add: card_Diff_subset)
  finally have c2: "card (zero_slots s1 ip (N - S)) \<le> card ?Z - card ?ZS" .
  from c1 c2 cn le have "card (zero_slots s1 ip (N - S)) \<le> card (free_blks s1 ?dev)"
    by linarith
  then show ?thesis
    unfolding enough_def dev using fN by simp
qed


lemma in_range_double:
  fixes bn :: u32
  assumes "bn < MAXFILE" and "\<not> bn < NDIRECT" and "\<not> bn - NDIRECT < NINDIRECT"
  shows "bn - NDIRECT - NINDIRECT < NDINDIRECT"
proof -
  from assms(2) have a: "11 \<le> unat bn" by (simp add: NDIRECT_def word_less_nat_alt)
  then have b: "unat (bn - NDIRECT) = unat bn - 11"
    by (simp add: unat_sub_le NDIRECT_def word_le_nat_alt)
  with assms(3) have c: "139 \<le> unat bn"
    by (simp add: NINDIRECT_def word_less_nat_alt)
  then have "unat (bn - NDIRECT - NINDIRECT) = unat bn - 139"
    using b by (simp add: unat_sub_le NINDIRECT_def word_le_nat_alt)
  moreover from assms(1) have "unat bn < 16523"
    by (simp add: MAXFILE_def NDIRECT_def NINDIRECT_def NDINDIRECT_def word_less_nat_alt)
  ultimately show ?thesis
    by (simp add: NDINDIRECT_def word_less_nat_alt)
qed


lemma bmap_slot_Stop:
  assumes "bmap_slot s ip k = Stop e"
  shows "e = Panic_fs ''balloc: out of blocks''"
  using assms balloc_Stop [of s "i_dev (icache s ip)"]
  by (auto simp: bmap_slot_def Let_def split: if_splits res.splits)

lemma bmap_entry_Stop:
  assumes "bmap_entry s dev tbl k = Stop e"
  shows "e = Panic_fs ''balloc: out of blocks''"
  using assms balloc_Stop [of s dev]
  by (auto simp: bmap_entry_def Let_def split: if_splits res.splits)

lemma bmap_Stop:
  assumes "bmap s ip bn = Stop e" and "bn < MAXFILE"
  shows "e = Panic_fs ''balloc: out of blocks''"
proof -
  consider (direct) "bn < NDIRECT"
    | (single) "\<not> bn < NDIRECT" "bn - NDIRECT < NINDIRECT"
    | (double) "\<not> bn < NDIRECT" "\<not> bn - NDIRECT < NINDIRECT"
    by blast
  then show ?thesis
  proof cases
    case direct
    with assms(1) show ?thesis
      using bmap_slot_Stop by (simp add: bmap_def)
  next
    case single
    with assms(1) show ?thesis
      using bmap_slot_Stop bmap_entry_Stop
      by (auto simp: bmap_def split: res.splits)
  next
    case double
    with assms(1) in_range_double [OF assms(2) double] show ?thesis
      using bmap_slot_Stop bmap_entry_Stop
      by (auto simp: bmap_def split: res.splits)
  qed
qed


subsection \<open>What a step of bmap changes, and when it returns\<close>

lemma bmap_slot_exact:
  assumes wf: "inode_wf s ip"
      and k: "k < unat NDIRECT \<or> k = SINGLE_LINKED_INDIRECT_TABLE
              \<or> k = DOUBLE_LINKED_INDIRECT_TABLE"
      and run: "bmap_slot s ip k = Ok a s1"
  shows "slot_val s1 ip sl = (if sl = islot k then a else slot_val s ip sl)"
    and "slot_val s ip (islot k) = 0 \<Longrightarrow> unat a \<in> free_blks s (i_dev (icache s ip))"
proof -
  let ?dev = "i_dev (icache s ip)"
  have both: "slot_val s1 ip sl = (if sl = islot k then a else slot_val s ip sl)
      \<and> (slot_val s ip (islot k) = 0 \<longrightarrow> unat a \<in> free_blks s ?dev)"
  proof (cases "i_addrs (icache s ip) k = 0")
    case False
    with run have "a = i_addrs (icache s ip) k" "s1 = s"
      by (auto simp: bmap_slot_def Let_def)
    with False islot_val [OF k, of s ip] show ?thesis by simp
  next
    case True
    with run obtain s' where b: "balloc s ?dev = Ok a s'"
      and s1: "s1 = upd_inode s' ip (\<lambda>i. i\<lparr>i_addrs := (i_addrs i)(k := a)\<rparr>)"
      by (auto simp: bmap_slot_def Let_def split: res.splits)
    from balloc_Ok [OF b] obtain k' where k': "k' < unat (sb_size (readsb s ?dev))"
      "a = of_nat k'" "\<not> blk_used s ?dev k'" "s' = alloc_effect s ?dev k'"
      by blast
    have wf': "inode_wf s' ip"
      using alloc_inode_wf(1) [OF wf k'(1,3)] k'(4) by simp
    have fr: "fresh_blk s' ip a"
      using alloc_grows [OF wf k'(1,3)] k'(2,4) by simp_all
    have z: "i_addrs (icache s' ip) k = 0"
      using True k'(4) by simp
    have sv': "slot_val s' ip x = slot_val s ip x" for x
      using alloc_slot_val [OF wf k'(1,3)] k'(4) by simp
    note st = store_slot [OF wf' fr k z, folded s1]
    from st(1) [of sl] balloc_free [OF b] show ?thesis by (simp add: sv')
  qed
  from both show "slot_val s1 ip sl = (if sl = islot k then a else slot_val s ip sl)" by simp
  from both show "slot_val s ip (islot k) = 0 \<Longrightarrow> unat a \<in> free_blks s ?dev" by simp
qed

lemma bmap_entry_exact:
  assumes wf: "inode_wf s ip"
      and t: "is_tbl_slot t" and T: "slot_val s ip t \<noteq> 0" and j: "j < 128"
      and run: "bmap_entry s (i_dev (icache s ip)) (slot_val s ip t) j = Ok a s1"
  shows "slot_val s1 ip sl = (if sl = child t j then a else slot_val s ip sl)"
    and "slot_val s ip (child t j) = 0 \<Longrightarrow> unat a \<in> free_blks s (i_dev (icache s ip))"
proof -
  let ?dev = "i_dev (icache s ip)"
  let ?T = "slot_val s ip t"
  have cv: "slot_val s ip (child t j) = rd32 (bread s ?dev ?T) (4 * j)"
    using child_val [OF t, of s ip j] T j by (simp add: tbl_entry_def NINDIRECT_def)
  have both: "slot_val s1 ip sl = (if sl = child t j then a else slot_val s ip sl)
      \<and> (slot_val s ip (child t j) = 0 \<longrightarrow> unat a \<in> free_blks s ?dev)"
  proof (cases "rd32 (bread s ?dev ?T) (4 * j) = 0")
    case False
    with run have "a = rd32 (bread s ?dev ?T) (4 * j)" "s1 = s"
      by (auto simp: bmap_entry_def Let_def)
    with False cv show ?thesis by simp
  next
    case True
    with run obtain s' where b: "balloc s ?dev = Ok a s'"
      and s1: "s1 = log_write (bstore s' ?dev ?T (wr32 (bread s' ?dev ?T) (4 * j) a)) ?dev ?T"
      by (auto simp: bmap_entry_def Let_def split: res.splits)
    from balloc_Ok [OF b] obtain k' where k': "k' < unat (sb_size (readsb s ?dev))"
      "a = of_nat k'" "\<not> blk_used s ?dev k'" "s' = alloc_effect s ?dev k'"
      by blast
    have wf': "inode_wf s' ip"
      using alloc_inode_wf(1) [OF wf k'(1,3)] k'(4) by simp
    have fr: "fresh_blk s' ip a"
      using alloc_grows [OF wf k'(1,3)] k'(2,4) by simp_all
    have sv': "slot_val s' ip x = slot_val s ip x" for x
      using alloc_slot_val [OF wf k'(1,3)] k'(4) by simp
    have dev': "i_dev (icache s' ip) = ?dev" using k'(4) by simp
    have T': "slot_val s' ip t \<noteq> 0" using T by (simp add: sv')
    have z: "slot_val s' ip (child t j) = 0" using cv True by (simp add: sv')
    note st = store_entry [OF wf' fr t T' j z, unfolded sv' dev', folded s1]
    from st(1) [of sl] balloc_free [OF b] show ?thesis by simp
  qed
  from both show "slot_val s1 ip sl = (if sl = child t j then a else slot_val s ip sl)"
    by simp
  from both show "slot_val s ip (child t j) = 0 \<Longrightarrow> unat a \<in> free_blks s ?dev" by simp
qed

lemma bmap_slot_runs:
  assumes k: "k < unat NDIRECT \<or> k = SINGLE_LINKED_INDIRECT_TABLE
              \<or> k = DOUBLE_LINKED_INDIRECT_TABLE"
      and fr: "slot_val s ip (islot k) = 0 \<Longrightarrow> free_blks s (i_dev (icache s ip)) \<noteq> {}"
  shows "\<exists>a s1. bmap_slot s ip k = Ok a s1"
proof (cases "i_addrs (icache s ip) k = 0")
  case False
  then show ?thesis by (simp add: bmap_slot_def Let_def)
next
  case True
  with islot_val [OF k, of s ip] fr have "free_blks s (i_dev (icache s ip)) \<noteq> {}" by simp
  from balloc_runs [OF this] obtain a s' where "balloc s (i_dev (icache s ip)) = Ok a s'"
    by blast
  with True show ?thesis by (simp add: bmap_slot_def Let_def)
qed

lemma bmap_entry_runs:
  assumes t: "is_tbl_slot t" and T: "slot_val s ip t \<noteq> 0" and j: "j < 128"
      and fr: "slot_val s ip (child t j) = 0 \<Longrightarrow> free_blks s (i_dev (icache s ip)) \<noteq> {}"
  shows "\<exists>a s1. bmap_entry s (i_dev (icache s ip)) (slot_val s ip t) j = Ok a s1"
proof -
  let ?dev = "i_dev (icache s ip)"
  let ?T = "slot_val s ip t"
  have cv: "slot_val s ip (child t j) = rd32 (bread s ?dev ?T) (4 * j)"
    using child_val [OF t, of s ip j] T j by (simp add: tbl_entry_def NINDIRECT_def)
  show ?thesis
  proof (cases "rd32 (bread s ?dev ?T) (4 * j) = 0")
    case False
    then show ?thesis by (simp add: bmap_entry_def Let_def)
  next
    case True
    with cv fr have "free_blks s ?dev \<noteq> {}" by simp
    from balloc_runs [OF this] obtain a s' where "balloc s ?dev = Ok a s'" by blast
    with True show ?thesis by (simp add: bmap_entry_def Let_def)
  qed
qed


lemma free_blks_grows:
  assumes "grows s s1 ip" and "x \<in> free_blks s1 (i_dev (icache s1 ip))"
  shows "x \<in> free_blks s (i_dev (icache s ip))"
  using grows_free [OF assms(1)] assms(2) by blast

text \<open>\<open>bmap\<close> changes the places on the way to the data block, and only those that held
  no address; what it puts there is a block that was free.\<close>

lemma bmap_exact:
  assumes wf: "inode_wf s ip" and run: "bmap s ip bn = Ok a s1"
  shows "sl \<notin> set (path_slots bn) \<Longrightarrow> slot_val s1 ip sl = slot_val s ip sl"
    and "sl \<in> set (path_slots bn) \<Longrightarrow> slot_val s1 ip sl \<noteq> 0"
    and "sl \<in> set (path_slots bn) \<Longrightarrow> slot_val s ip sl = 0 \<Longrightarrow>
           unat (slot_val s1 ip sl) \<in> free_blks s (i_dev (icache s ip))"
proof -
  let ?dev = "i_dev (icache s ip)"
  let ?P = "set (path_slots bn)"
  have all: "(sl \<notin> ?P \<longrightarrow> slot_val s1 ip sl = slot_val s ip sl)
      \<and> (sl \<in> ?P \<longrightarrow> slot_val s1 ip sl \<noteq> 0
            \<and> (slot_val s ip sl = 0 \<longrightarrow> unat (slot_val s1 ip sl) \<in> free_blks s ?dev))"
  proof -
    consider (direct) "bn < NDIRECT"
      | (single) "\<not> bn < NDIRECT" "bn - NDIRECT < NINDIRECT"
      | (double) "\<not> bn < NDIRECT" "\<not> bn - NDIRECT < NINDIRECT"
          "bn - NDIRECT - NINDIRECT < NDINDIRECT"
      | (out) "\<not> bn < NDIRECT" "\<not> bn - NDIRECT < NINDIRECT"
          "\<not> bn - NDIRECT - NINDIRECT < NDINDIRECT"
      by blast
    then show ?thesis
    proof cases
      case direct
      then have k: "unat bn < unat NDIRECT" by (simp add: word_less_nat_alt)
      then have isl: "islot (unat bn) = Direct (unat bn)"
        by (simp add: islot_def fs_consts)
      from run direct have r: "bmap_slot s ip (unat bn) = Ok a s1"
        by (simp add: bmap_def)
      note st = bmap_slot_step [OF wf disjI1 [OF k] r, unfolded isl]
      note ex = bmap_slot_exact [OF wf disjI1 [OF k] r, unfolded isl]
      have P: "?P = {Direct (unat bn)}" using direct by (simp add: path_slots_def)
      show ?thesis
        unfolding P using ex(1) [of sl] ex(2) st(3) by (auto simp del: slot_val.simps)
    next
      case single
      let ?j = "unat (bn - NDIRECT)"
      have j: "?j < 128"
        using single(2) by (simp add: word_less_nat_alt NINDIRECT_def)
      have isl: "islot SINGLE_LINKED_INDIRECT_TABLE = Single"
        by (simp add: islot_def)
      from run single obtain t sA where
        r1: "bmap_slot s ip SINGLE_LINKED_INDIRECT_TABLE = Ok t sA"
        and r2: "bmap_entry sA (i_dev (icache sA ip)) t ?j = Ok a s1"
        by (auto simp: bmap_def split: res.splits)
      note st1 = bmap_slot_step [OF wf disjI2 [OF disjI1 [OF refl]] r1, unfolded isl]
      note ex1 = bmap_slot_exact [OF wf disjI2 [OF disjI1 [OF refl]] r1, unfolded isl]
      have T: "slot_val sA ip Single \<noteq> 0" using st1(2,3) by simp
      have r2': "bmap_entry sA (i_dev (icache sA ip)) (slot_val sA ip Single) ?j = Ok a s1"
        using r2 st1(2) by simp
      note st2 = bmap_entry_step [OF st1(1) is_tbl_slotI(1) T j r2', unfolded child.simps]
      note ex2 = bmap_entry_exact [OF st1(1) is_tbl_slotI(1) T j r2', unfolded child.simps]
      have P: "?P = {Single, SingleEnt ?j}" using single by (simp add: path_slots_def)
      have sv: "slot_val s1 ip sl
                  = (if sl = SingleEnt ?j then a else if sl = Single then t
                     else slot_val s ip sl)"
        using ex2(1) [of sl] ex1(1) [of sl] by simp
      have f1: "unat t \<in> free_blks s ?dev" if "slot_val s ip Single = 0"
        using ex1(2) [OF that] .
      have f2: "unat a \<in> free_blks s ?dev" if "slot_val s ip (SingleEnt ?j) = 0"
      proof -
        have "slot_val sA ip (SingleEnt ?j) = 0" using ex1(1) [of "SingleEnt ?j"] that by simp
        from free_blks_grows [OF st1(4) ex2(2) [OF this]] show ?thesis .
      qed
      show ?thesis
        unfolding P sv using st1(3) st2(3) f1 f2 by auto
    next
      case double
      let ?x = "bn - NDIRECT - NINDIRECT"
      let ?k = "unat (?x div NINDIRECT)" and ?j = "unat (?x mod NINDIRECT)"
      have "unat ?x < 16384"
        using double(3) by (simp add: word_less_nat_alt NDINDIRECT_def)
      then have k: "?k < 128"
        by (simp add: unat_div NINDIRECT_def)
      have j: "?j < 128"
        by (simp add: unat_mod NINDIRECT_def)
      have isl: "islot DOUBLE_LINKED_INDIRECT_TABLE = Double"
        by (simp add: islot_def fs_consts)
      from run double obtain t sA t2 sB where
        r1: "bmap_slot s ip DOUBLE_LINKED_INDIRECT_TABLE = Ok t sA"
        and r2: "bmap_entry sA (i_dev (icache sA ip)) t ?k = Ok t2 sB"
        and r3: "bmap_entry sB (i_dev (icache sB ip)) t2 ?j = Ok a s1"
        by (auto simp: bmap_def split: res.splits)
      note st1 = bmap_slot_step [OF wf disjI2 [OF disjI2 [OF refl]] r1, unfolded isl]
      note ex1 = bmap_slot_exact [OF wf disjI2 [OF disjI2 [OF refl]] r1, unfolded isl]
      have T: "slot_val sA ip Double \<noteq> 0" using st1(2,3) by simp
      have r2': "bmap_entry sA (i_dev (icache sA ip)) (slot_val sA ip Double) ?k = Ok t2 sB"
        using r2 st1(2) by simp
      note st2 = bmap_entry_step [OF st1(1) is_tbl_slotI(2) T k r2', unfolded child.simps]
      note ex2 = bmap_entry_exact [OF st1(1) is_tbl_slotI(2) T k r2', unfolded child.simps]
      have T2: "slot_val sB ip (DoubleEnt ?k) \<noteq> 0" using st2(2,3) by simp
      have r3': "bmap_entry sB (i_dev (icache sB ip)) (slot_val sB ip (DoubleEnt ?k)) ?j
                  = Ok a s1"
        using r3 st2(2) by simp
      note st3 = bmap_entry_step [OF st2(1) is_tbl_slotI(3) T2 j r3', unfolded child.simps]
      note ex3 = bmap_entry_exact [OF st2(1) is_tbl_slotI(3) T2 j r3', unfolded child.simps]
      note g12 = grows_trans [OF st1(4) st2(4)]
      have P: "?P = {Double, DoubleEnt ?k, Leaf ?k ?j}"
        using double by (simp add: path_slots_def)
      have sv: "slot_val s1 ip sl
                  = (if sl = Leaf ?k ?j then a else if sl = DoubleEnt ?k then t2
                     else if sl = Double then t else slot_val s ip sl)"
        using ex3(1) [of sl] ex2(1) [of sl] ex1(1) [of sl] by simp
      have f1: "unat t \<in> free_blks s ?dev" if "slot_val s ip Double = 0"
        using ex1(2) [OF that] .
      have f2: "unat t2 \<in> free_blks s ?dev" if "slot_val s ip (DoubleEnt ?k) = 0"
      proof -
        have "slot_val sA ip (DoubleEnt ?k) = 0"
          using ex1(1) [of "DoubleEnt ?k"] that by simp
        from free_blks_grows [OF st1(4) ex2(2) [OF this]] show ?thesis .
      qed
      have f3: "unat a \<in> free_blks s ?dev" if "slot_val s ip (Leaf ?k ?j) = 0"
      proof -
        have "slot_val sB ip (Leaf ?k ?j) = 0"
          using ex2(1) [of "Leaf ?k ?j"] ex1(1) [of "Leaf ?k ?j"] that by simp
        from free_blks_grows [OF g12 ex3(2) [OF this]] show ?thesis .
      qed
      show ?thesis
        unfolding P sv using st1(3) st2(3) st3(3) f1 f2 f3 by auto
    next
      case out
      with run show ?thesis by (simp add: bmap_def)
    qed
  qed
  from all show "sl \<notin> ?P \<Longrightarrow> slot_val s1 ip sl = slot_val s ip sl" by simp
  from all show "sl \<in> ?P \<Longrightarrow> slot_val s1 ip sl \<noteq> 0" by simp
  from all show "sl \<in> ?P \<Longrightarrow> slot_val s ip sl = 0 \<Longrightarrow>
           unat (slot_val s1 ip sl) \<in> free_blks s ?dev" by simp
qed

text \<open>\<open>bmap\<close> returns when there is a free block for every place on the way that holds
  no address.\<close>

lemma bmap_runs:
  assumes wf: "inode_wf s ip" and rng: "bn < MAXFILE"
      and e: "enough s ip N" and sub: "set (path_slots bn) \<subseteq> N"
  shows "\<exists>a s1. bmap s ip bn = Ok a s1"
proof -
  consider (direct) "bn < NDIRECT"
    | (single) "\<not> bn < NDIRECT" "bn - NDIRECT < NINDIRECT"
    | (double) "\<not> bn < NDIRECT" "\<not> bn - NDIRECT < NINDIRECT"
    by blast
  then show ?thesis
  proof cases
    case direct
    then have k: "unat bn < unat NDIRECT" by (simp add: word_less_nat_alt)
    then have isl: "islot (unat bn) = Direct (unat bn)"
      by (simp add: islot_def fs_consts)
    have "Direct (unat bn) \<in> N" using sub direct by (simp add: path_slots_def)
    from bmap_slot_runs [OF disjI1 [OF k], of s ip, unfolded isl, OF enough_nonempty [OF e this]]
    show ?thesis using direct by (simp add: bmap_def)
  next
    case single
    let ?j = "unat (bn - NDIRECT)"
    have j: "?j < 128"
      using single(2) by (simp add: word_less_nat_alt NINDIRECT_def)
    have isl: "islot SINGLE_LINKED_INDIRECT_TABLE = Single"
      by (simp add: islot_def)
    have inN: "Single \<in> N" "SingleEnt ?j \<in> N" using sub single by (simp_all add: path_slots_def)
    from bmap_slot_runs [OF disjI2 [OF disjI1 [OF refl]], of s ip, unfolded isl,
        OF enough_nonempty [OF e inN(1)]]
    obtain t sA where r1: "bmap_slot s ip SINGLE_LINKED_INDIRECT_TABLE = Ok t sA" by blast
    note st1 = bmap_slot_step [OF wf disjI2 [OF disjI1 [OF refl]] r1, unfolded isl]
    have T: "slot_val sA ip Single \<noteq> 0" using st1(2,3) by simp
    have sN: "{Single} \<subseteq> N" using inN(1) by simp
    note e1 = enough_step [OF e st1(4) new_in_step [OF st1(5) st1(2,3)] sN]
    have "SingleEnt ?j \<in> N - {Single}" using inN by simp
    from bmap_entry_runs [OF is_tbl_slotI(1) T j, unfolded child.simps,
        OF enough_nonempty [OF e1 this]]
    obtain a s1 where "bmap_entry sA (i_dev (icache sA ip)) (slot_val sA ip Single) ?j = Ok a s1"
      by blast
    with r1 st1(2) single show ?thesis by (simp add: bmap_def)
  next
    case double
    let ?x = "bn - NDIRECT - NINDIRECT"
    let ?k = "unat (?x div NINDIRECT)" and ?j = "unat (?x mod NINDIRECT)"
    note d3 = in_range_double [OF rng double]
    have "unat ?x < 16384"
      using d3 by (simp add: word_less_nat_alt NDINDIRECT_def)
    then have k: "?k < 128"
      by (simp add: unat_div NINDIRECT_def)
    have j: "?j < 128"
      by (simp add: unat_mod NINDIRECT_def)
    have isl: "islot DOUBLE_LINKED_INDIRECT_TABLE = Double"
      by (simp add: islot_def fs_consts)
    have inN: "Double \<in> N" "DoubleEnt ?k \<in> N" "Leaf ?k ?j \<in> N"
      using sub double by (simp_all add: path_slots_def)
    from bmap_slot_runs [OF disjI2 [OF disjI2 [OF refl]], of s ip, unfolded isl,
        OF enough_nonempty [OF e inN(1)]]
    obtain t sA where r1: "bmap_slot s ip DOUBLE_LINKED_INDIRECT_TABLE = Ok t sA" by blast
    note st1 = bmap_slot_step [OF wf disjI2 [OF disjI2 [OF refl]] r1, unfolded isl]
    have T: "slot_val sA ip Double \<noteq> 0" using st1(2,3) by simp
    have sN: "{Double} \<subseteq> N" using inN(1) by simp
    note e1 = enough_step [OF e st1(4) new_in_step [OF st1(5) st1(2,3)] sN]
    have "DoubleEnt ?k \<in> N - {Double}" using inN by simp
    from bmap_entry_runs [OF is_tbl_slotI(2) T k, unfolded child.simps,
        OF enough_nonempty [OF e1 this]]
    obtain t2 sB where
      r2: "bmap_entry sA (i_dev (icache sA ip)) (slot_val sA ip Double) ?k = Ok t2 sB"
      by blast
    note st2 = bmap_entry_step [OF st1(1) is_tbl_slotI(2) T k r2, unfolded child.simps]
    have T2: "slot_val sB ip (DoubleEnt ?k) \<noteq> 0" using st2(2,3) by simp
    have sN2: "{DoubleEnt ?k} \<subseteq> N - {Double}" using inN(2) by simp
    note e2 = enough_step [OF e1 st2(4) new_in_step [OF st2(5) st2(2,3)] sN2]
    have "Leaf ?k ?j \<in> N - {Double} - {DoubleEnt ?k}" using inN by simp
    from bmap_entry_runs [OF is_tbl_slotI(3) T2 j, unfolded child.simps,
        OF enough_nonempty [OF e2 this]]
    obtain a s1 where
      "bmap_entry sB (i_dev (icache sB ip)) (slot_val sB ip (DoubleEnt ?k)) ?j = Ok a s1"
      by blast
    with r1 r2 st1(2) st2(2) double d3 show ?thesis by (simp add: bmap_def)
  qed
qed


subsection \<open>The example file system is consistent\<close>

lemma ex_readsb:
  "readsb ex_fs 1 = \<lparr>sb_size = 32, sb_nblocks = 0, sb_ninodes = 8, sb_nlog = 0\<rparr>"
  by (simp add: readsb_def bread_def rd32_def ex_fs_def ex_sb_def)

lemma ex_data_start: "data_start ex_fs 1 = 5"
  by (simp add: data_start_def ex_readsb IPB_def BPB_def)

lemma ex_disk:
  "bread ex_fs 1 4 = ex_bitmap" "disk ex_fs (1, 4) = ex_bitmap"
  "disk ex_fs (1, 6) = (\<lambda>_. 0)" "disk ex_fs (1, 5) = ex_dir"
  by (simp_all add: bread_def ex_fs_def)

lemma ex_icache:
  "icache ex_fs 0 = ex_root" "icache ex_fs (Suc 0) = ex_file" "fs_log ex_fs = []"
  by (simp_all add: ex_fs_def)

lemma ex_blk_used:
  assumes "k < 6"
  shows "blk_used ex_fs 1 k"
proof -
  from assms consider "k = 0" | "k = 1" | "k = 2" | "k = 3" | "k = 4" | "k = 5"
    by linarith
  then show ?thesis
    by cases
      (simp_all add: blk_used_def bit_used_def ex_readsb BBLOCK_def IPB_def BPB_def ex_disk
        ex_bitmap_def)
qed

lemma ex_file_slots: "slot_val ex_fs (Suc 0) sl = 0"
  by (cases sl) (simp_all add: ex_fs_def ex_file_def ex_inode_def)

lemma ex_file_wf: "inode_wf ex_fs (Suc 0)"
proof -
  have dev: "i_dev (icache ex_fs (Suc 0)) = 1"
    by (simp add: ex_fs_def ex_file_def)
  show ?thesis
    unfolding inode_wf_def dev
    using ex_blk_used by (simp add: ex_file_slots meta_used_def ex_data_start)
qed

lemma ex_balloc_scan: "balloc_scan ex_bitmap 0 32 0 = Some 6"
  by (simp add: balloc_scan.simps ex_bitmap_def BPB_def)

lemma ex_balloc:
  "balloc ex_fs 1 = Ok 6 (ex_fs\<lparr>disk := (disk ex_fs)((1, 4) := ex_bitmap(0 := 0x7F),
           (1, 6) := (\<lambda>i. 0)), fs_log := [(1, 4), (1, 6)]\<rparr>)"
proof -
  have "balloc ex_fs 1 =
      Ok 6 (bzero (log_write (bstore ex_fs 1 4 (ex_bitmap(0 := ex_bitmap 0 OR 64))) 1 4) 1 6)"
    by (simp add: balloc_def balloc_loop.simps [of ex_fs] ex_readsb BBLOCK_def IPB_def
        ex_balloc_scan Let_def ex_disk(1))
  moreover have "bzero (log_write (bstore ex_fs 1 4 (ex_bitmap(0 := ex_bitmap 0 OR 64))) 1 4) 1 6
      = ex_fs\<lparr>disk := (disk ex_fs)((1, 4) := ex_bitmap(0 := 0x7F), (1, 6) := (\<lambda>i. 0)),
           fs_log := [(1, 4), (1, 6)]\<rparr>"
    by (simp add: bzero_def log_write_def bstore_def bread_def ex_disk ex_icache
        ex_bitmap_def)
  ultimately show ?thesis by simp
qed

lemma ex_bmap: "bmap ex_fs (Suc 0) 0 = Ok 6 ex_fs_alloc"
proof -
  have dev: "i_dev (icache ex_fs (Suc 0)) = 1" "i_addrs (icache ex_fs (Suc 0)) 0 = 0"
    by (simp_all add: ex_icache ex_file_def ex_inode_def)
  have "upd_inode (ex_fs\<lparr>disk := (disk ex_fs)((1, 4) := ex_bitmap(0 := 0x7F),
           (1, 6) := (\<lambda>i. 0)), fs_log := [(1, 4), (1, 6)]\<rparr>) (Suc 0)
           (\<lambda>i. i\<lparr>i_addrs := (i_addrs i)(0 := 6)\<rparr>) = ex_fs_alloc"
    by (simp add: upd_inode_def ex_fs_alloc_def ex_icache ex_file_def ex_inode_def)
  then show ?thesis
    by (simp add: bmap_def NDIRECT_def bmap_slot_def dev Let_def ex_balloc)
qed

lemma ex_free: "{6, 7, 8} \<subseteq> free_blks ex_fs 1"
  by (simp add: free_blks_def blk_used_def bit_used_def ex_readsb BBLOCK_def IPB_def BPB_def
      ex_disk ex_bitmap_def)

lemma ex_free_card: "3 \<le> card (free_blks ex_fs 1)"
proof -
  have "card {6, 7, 8 :: nat} \<le> card (free_blks ex_fs 1)"
    using ex_free by (intro card_mono) simp_all
  then show ?thesis by simp
qed

lemma ex_path_139: "path_slots 139 = [Double, DoubleEnt 0, Leaf 0 0]"
  by (simp add: path_slots_def NDIRECT_def NINDIRECT_def)

lemma ex_zero_slots: "zero_slots ex_fs (Suc 0) N = N"
  by (simp add: zero_slots_def ex_file_slots)

lemma ex_dev: "i_dev (icache ex_fs (Suc 0)) = 1"
  by (simp add: ex_icache ex_file_def ex_inode_def)

lemma ex_enough_139: "enough ex_fs (Suc 0) (set (path_slots 139))"
  using ex_free_card by (simp add: enough_def ex_zero_slots ex_dev ex_path_139)

subsection \<open>bmap, called again\<close>

lemma bmap_free_set:
  assumes wf: "inode_wf s ip" and run: "bmap s ip bn = Ok a s1"
  defines "Z \<equiv> zero_slots s ip (set (path_slots bn))"
  defines "dev \<equiv> i_dev (icache s ip)"
  shows "free_blks s1 dev = free_blks s dev - (\<lambda>sl. unat (slot_val s1 ip sl)) ` Z"
    and "card (free_blks s1 dev) + card Z = card (free_blks s dev)"
proof -
  let ?f = "\<lambda>sl. unat (slot_val s1 ip sl)"
  note st = bmap_step [OF wf run]
  note ex = bmap_exact [OF wf run]
  note sb = growsD(6) [OF st(4), folded dev_def]
  note dv = grows_dev(1) [OF st(4), of ip, folded dev_def]
  from st(1) have g1: "\<And>sl. slot_val s1 ip sl \<noteq> 0 \<Longrightarrow> good_blk s1 dev (slot_val s1 ip sl)"
    and inj: "\<And>sl sl'. slot_val s1 ip sl \<noteq> 0 \<Longrightarrow> slot_val s1 ip sl = slot_val s1 ip sl'
                \<Longrightarrow> sl = sl'"
    unfolding inode_wf_def dv by blast+
  have Zp: "sl \<in> set (path_slots bn)" and Zz: "slot_val s ip sl = 0" if "sl \<in> Z" for sl
    using that by (simp_all add: Z_def zero_slots_def)
  have fZ: "finite Z" by (simp add: Z_def zero_slots_def)
  have img: "?f ` Z \<subseteq> free_blks s dev"
    using ex(3) [OF Zp Zz] by (auto simp: dev_def)
  show eq: "free_blks s1 dev = free_blks s dev - ?f ` Z"
  proof (intro set_eqI iffI)
    fix k assume k: "k \<in> free_blks s1 dev"
    then have "k \<in> free_blks s dev"
      using grows_free [OF st(4)] unfolding dv dev_def by blast
    moreover have "k \<notin> ?f ` Z"
    proof
      assume "k \<in> ?f ` Z"
      then obtain sl where sl: "sl \<in> Z" "k = ?f sl" by blast
      from g1 [OF ex(2) [OF Zp [OF sl(1)]]] have "blk_used s1 dev k"
        by (simp add: good_blk_def sl(2))
      with k show False by (simp add: free_blks_def)
    qed
    ultimately show "k \<in> free_blks s dev - ?f ` Z" by simp
  next
    fix k assume k: "k \<in> free_blks s dev - ?f ` Z"
    then have ks: "k < unat (sb_size (readsb s dev))" and nu: "\<not> blk_used s dev k"
      by (simp_all add: free_blks_def)
    have "\<not> blk_used s1 dev k"
    proof
      assume "blk_used s1 dev k"
      with st(5) ks nu obtain sl where sl: "sl \<in> set (path_slots bn)"
        "slot_val s ip sl = 0" "slot_val s1 ip sl = of_nat k"
        unfolding new_in_def dev_def by blast
      have "?f sl = k" unfolding sl(3) using size_lt_32 [OF ks] by (simp add: unat_of_nat)
      moreover have "sl \<in> Z" using sl(1,2) by (simp add: Z_def zero_slots_def)
      ultimately show False using k by blast
    qed
    with ks show "k \<in> free_blks s1 dev" by (simp add: free_blks_def sb)
  qed
  have "inj_on ?f Z"
  proof (rule inj_onI)
    fix x y assume x: "x \<in> Z" and "y \<in> Z" and "?f x = ?f y"
    then have "slot_val s1 ip x = slot_val s1 ip y" by (intro unsigned_word_eqI)
    from inj [OF ex(2) [OF Zp [OF x]] this] show "x = y" .
  qed
  then have ci: "card (?f ` Z) = card Z" by (rule card_image)
  have "card (free_blks s1 dev) = card (free_blks s dev) - card (?f ` Z)"
    unfolding eq using img fZ by (intro card_Diff_subset) simp_all
  moreover have "card (?f ` Z) \<le> card (free_blks s dev)"
    using img by (intro card_mono) simp_all
  ultimately show "card (free_blks s1 dev) + card Z = card (free_blks s dev)"
    using ci by simp
qed

text \<open>C8. For a consistent inode and a block index in range (direct, single-indirect or
  double-indirect). The first call of \<open>bmap\<close> returns when there is a free block for
  every place on the way to the index that holds no address; its only other outcome is
  the panic of \<open>balloc\<close>, and then there are not that many free blocks. When the first
  call returns, a repeated call returns the same address and leaves the state as it is;
  the address is not 0 and is stored in the place of the index; every place on the way
  that held no address holds a block that was free, every other place of the inode
  holds what it held; the blocks that are no longer free are exactly those, one per
  place that held no address; and when the place of the index already held an address
  the first call changed nothing.\<close>

theorem bmap_idempotent:
  assumes wf: "inode_wf s ip" and rng: "bn < MAXFILE"
  shows "(enough s ip (set (path_slots bn)) \<longrightarrow> (\<exists>a s1. bmap s ip bn = Ok a s1))
       \<and> (\<forall>e. bmap s ip bn = Stop e \<longrightarrow>
             e = Panic_fs ''balloc: out of blocks'' \<and> \<not> enough s ip (set (path_slots bn)))
       \<and> (\<forall>a s1. bmap s ip bn = Ok a s1 \<longrightarrow>
             bmap s1 ip bn = Ok a s1 \<and> a \<noteq> 0 \<and> blk_of s1 ip bn = a
           \<and> (\<forall>sl. sl \<notin> set (path_slots bn) \<or> slot_val s ip sl \<noteq> 0
                  \<longrightarrow> slot_val s1 ip sl = slot_val s ip sl)
           \<and> (\<forall>sl \<in> set (path_slots bn). slot_val s ip sl = 0
                  \<longrightarrow> slot_val s1 ip sl \<noteq> 0
                      \<and> unat (slot_val s1 ip sl) \<in> free_blks s (i_dev (icache s ip)))
           \<and> free_blks s1 (i_dev (icache s ip))
               = free_blks s (i_dev (icache s ip))
                   - (\<lambda>sl. unat (slot_val s1 ip sl)) ` zero_slots s ip (set (path_slots bn))
           \<and> card (free_blks s1 (i_dev (icache s ip)))
                 + card (zero_slots s ip (set (path_slots bn)))
               = card (free_blks s (i_dev (icache s ip)))
           \<and> (blk_of s ip bn \<noteq> 0 \<longrightarrow> s1 = s))"
proof -
  have runs: "\<exists>a s1. bmap s ip bn = Ok a s1" if "enough s ip (set (path_slots bn))"
    using bmap_runs [OF wf rng that subset_refl] .
  have stop: "e = Panic_fs ''balloc: out of blocks'' \<and> \<not> enough s ip (set (path_slots bn))"
    if st: "bmap s ip bn = Stop e" for e
  proof
    from bmap_Stop [OF st rng] show "e = Panic_fs ''balloc: out of blocks''" .
    show "\<not> enough s ip (set (path_slots bn))"
    proof
      assume "enough s ip (set (path_slots bn))"
      from runs [OF this] st show False by auto
    qed
  qed
  have post: "bmap s1 ip bn = Ok a s1 \<and> a \<noteq> 0 \<and> blk_of s1 ip bn = a
           \<and> (\<forall>sl. sl \<notin> set (path_slots bn) \<or> slot_val s ip sl \<noteq> 0
                  \<longrightarrow> slot_val s1 ip sl = slot_val s ip sl)
           \<and> (\<forall>sl \<in> set (path_slots bn). slot_val s ip sl = 0
                  \<longrightarrow> slot_val s1 ip sl \<noteq> 0
                      \<and> unat (slot_val s1 ip sl) \<in> free_blks s (i_dev (icache s ip)))
           \<and> free_blks s1 (i_dev (icache s ip))
               = free_blks s (i_dev (icache s ip))
                   - (\<lambda>sl. unat (slot_val s1 ip sl)) ` zero_slots s ip (set (path_slots bn))
           \<and> card (free_blks s1 (i_dev (icache s ip)))
                 + card (zero_slots s ip (set (path_slots bn)))
               = card (free_blks s (i_dev (icache s ip)))
           \<and> (blk_of s ip bn \<noteq> 0 \<longrightarrow> s1 = s)"
    if run: "bmap s ip bn = Ok a s1" for a s1
  proof -
    note st = bmap_step [OF wf run]
    note ex = bmap_exact [OF wf run]
    have c1: "bmap s1 ip bn = Ok a s1"
      using bmap_mapped [of s1 ip bn] st(2,3) by simp
    have c2: "\<forall>sl. sl \<notin> set (path_slots bn) \<or> slot_val s ip sl \<noteq> 0
                  \<longrightarrow> slot_val s1 ip sl = slot_val s ip sl"
    proof (intro allI impI)
      fix sl assume "sl \<notin> set (path_slots bn) \<or> slot_val s ip sl \<noteq> 0"
      then show "slot_val s1 ip sl = slot_val s ip sl"
        using ex(1) [of sl] growsD(1) [OF st(4), of sl] by blast
    qed
    have c3: "\<forall>sl \<in> set (path_slots bn). slot_val s ip sl = 0
                  \<longrightarrow> slot_val s1 ip sl \<noteq> 0
                      \<and> unat (slot_val s1 ip sl) \<in> free_blks s (i_dev (icache s ip))"
      using ex(2,3) by blast
    have c4: "blk_of s ip bn \<noteq> 0 \<longrightarrow> s1 = s"
      using bmap_mapped [of s ip bn] run by auto
    from c1 st(3) st(2) c2 c3 bmap_free_set [OF wf run] c4 show ?thesis
      by (intro conjI)
  qed
  from runs stop post show ?thesis by (intro conjI allI impI) blast+
qed

lemma ex_bmap_139:
  "(case bmap ex_fs (Suc 0) 139 of
      Ok a s \<Rightarrow> a = 8 \<and> slot_val s (Suc 0) Double = 6 \<and> slot_val s (Suc 0) (DoubleEnt 0) = 7
    | Stop e \<Rightarrow> False)"
  by code_simp

lemma ex_bmap_11:
  "(case bmap ex_fs (Suc 0) 11 of
      Ok a s \<Rightarrow> a = 7 \<and> slot_val s (Suc 0) Single = 6 \<and> slot_val s (Suc 0) (SingleEnt 0) = 7
    | Stop e \<Rightarrow> False)"
  by code_simp

theorem bmap_idempotent_witness:
  "inode_wf ex_fs (Suc 0) \<and> path_slots 139 = [Double, DoubleEnt 0, Leaf 0 0]
   \<and> (\<exists>s1. bmap ex_fs (Suc 0) 139 = Ok 8 s1 \<and> bmap s1 (Suc 0) 139 = Ok 8 s1
         \<and> slot_val s1 (Suc 0) Double = 6 \<and> slot_val s1 (Suc 0) (DoubleEnt 0) = 7
         \<and> slot_val s1 (Suc 0) (Leaf 0 0) = 8 \<and> slot_val s1 (Suc 0) (Direct 0) = 0
         \<and> card (free_blks s1 1) + 3 = card (free_blks ex_fs 1))
   \<and> (\<exists>s1. bmap ex_fs (Suc 0) 11 = Ok 7 s1 \<and> bmap s1 (Suc 0) 11 = Ok 7 s1
         \<and> slot_val s1 (Suc 0) Single = 6 \<and> slot_val s1 (Suc 0) (SingleEnt 0) = 7)
   \<and> bmap ex_fs (Suc 0) 0 = Ok 6 ex_fs_alloc
   \<and> bmap ex_fs_alloc (Suc 0) 0 = Ok 6 ex_fs_alloc"
proof -
  have r139: "(139 :: u32) < MAXFILE" and r11: "(11 :: u32) < MAXFILE"
    and r0: "(0 :: u32) < MAXFILE"
    by (simp_all add: MAXFILE_def NDIRECT_def NINDIRECT_def NDINDIRECT_def)
  note a = bmap_idempotent [OF ex_file_wf r139]
  note b = bmap_idempotent [OF ex_file_wf r0]
  note d = bmap_idempotent [OF ex_file_wf r11]
  from a ex_enough_139 obtain x s1 where run: "bmap ex_fs (Suc 0) 139 = Ok x s1" by blast
  with ex_bmap_139 have x: "x = 8" and v: "slot_val s1 (Suc 0) Double = 6"
    "slot_val s1 (Suc 0) (DoubleEnt 0) = 7"
    by (simp_all del: slot_val.simps)
  from run a have p: "bmap s1 (Suc 0) 139 = Ok x s1" "blk_of s1 (Suc 0) 139 = x"
    and same: "\<And>sl. sl \<notin> set (path_slots 139) \<Longrightarrow>
                 slot_val s1 (Suc 0) sl = slot_val ex_fs (Suc 0) sl"
    and c: "card (free_blks s1 (i_dev (icache ex_fs (Suc 0))))
              + card (zero_slots ex_fs (Suc 0) (set (path_slots 139)))
            = card (free_blks ex_fs (i_dev (icache ex_fs (Suc 0))))"
    by blast+
  have leaf: "leaf_slot 139 = Leaf 0 0"
    by (simp add: leaf_slot_def NDIRECT_def NINDIRECT_def)
  have inP: "Direct 0 \<notin> set (path_slots 139)"
    by (simp add: ex_path_139)
  have n3: "slot_val s1 (Suc 0) (Leaf 0 0) = x"
    using p(2) unfolding blk_of_def leaf .
  have n4: "slot_val s1 (Suc 0) (Direct 0) = 0"
    using same [OF inP] unfolding ex_file_slots .
  have n5: "card (free_blks s1 1) + 3 = card (free_blks ex_fs 1)"
    using c unfolding ex_dev ex_zero_slots by (simp add: ex_path_139)
  from run p(1) v n3 n4 n5 have double:
    "\<exists>s1. bmap ex_fs (Suc 0) 139 = Ok 8 s1 \<and> bmap s1 (Suc 0) 139 = Ok 8 s1
         \<and> slot_val s1 (Suc 0) Double = 6 \<and> slot_val s1 (Suc 0) (DoubleEnt 0) = 7
         \<and> slot_val s1 (Suc 0) (Leaf 0 0) = 8 \<and> slot_val s1 (Suc 0) (Direct 0) = 0
         \<and> card (free_blks s1 1) + 3 = card (free_blks ex_fs 1)"
    unfolding x by blast
  obtain y s2 where run2: "bmap ex_fs (Suc 0) 11 = Ok y s2"
    using ex_bmap_11 by (cases "bmap ex_fs (Suc 0) 11") simp_all
  with ex_bmap_11 have y: "y = 7" and w: "slot_val s2 (Suc 0) Single = 6"
    "slot_val s2 (Suc 0) (SingleEnt 0) = 7"
    by (simp_all del: slot_val.simps)
  from run2 d have "bmap s2 (Suc 0) 11 = Ok y s2" by blast
  with run2 w have single:
    "\<exists>s1. bmap ex_fs (Suc 0) 11 = Ok 7 s1 \<and> bmap s1 (Suc 0) 11 = Ok 7 s1
         \<and> slot_val s1 (Suc 0) Single = 6 \<and> slot_val s1 (Suc 0) (SingleEnt 0) = 7"
    unfolding y by blast
  from b ex_bmap have n6: "bmap ex_fs_alloc (Suc 0) 0 = Ok 6 ex_fs_alloc" by blast
  from ex_file_wf ex_path_139 double single ex_bmap n6 show ?thesis by (intro conjI)
qed


subsection \<open>Bytes of a file\<close>

lemma keepsD:
  assumes "keeps s s1 ip"
  shows "slot_val s ip sl \<noteq> 0 \<Longrightarrow> slot_val s1 ip sl = slot_val s ip sl"
    and "icache s1 = (icache s)(ip := (icache s ip)\<lparr>i_addrs := i_addrs (icache s1 ip)\<rparr>)"
    and "cwd s1 = cwd s" and "devsw s1 = devsw s"
    and "readsb s1 (i_dev (icache s ip)) = readsb s (i_dev (icache s ip))"
  using assms unfolding keeps_def by blast+

lemma keeps_fields:
  assumes "keeps s s1 ip"
  shows "i_dev (icache s1 i) = i_dev (icache s i)"
    and "i_size (icache s1 i) = i_size (icache s i)"
    and "i_type (icache s1 i) = i_type (icache s i)"
    and "i_inum (icache s1 i) = i_inum (icache s i)"
proof -
  note ic = keepsD(2) [OF assms]
  show "i_dev (icache s1 i) = i_dev (icache s i)"
    by (subst ic) simp
  show "i_size (icache s1 i) = i_size (icache s i)"
    by (subst ic) simp
  show "i_type (icache s1 i) = i_type (icache s i)"
    by (subst ic) simp
  show "i_inum (icache s1 i) = i_inum (icache s i)"
    by (subst ic) simp
qed

lemma keeps_refl: "keeps s s ip"
  by (simp add: keeps_def)

lemma grows_keeps:
  assumes "grows s s1 ip"
  shows "keeps s s1 ip"
  using growsD(1,3,4,5,6) [OF assms] unfolding keeps_def by blast

lemma keeps_trans:
  assumes "keeps s s1 ip" and "keeps s1 s2 ip"
  shows "keeps s s2 ip"
  unfolding keeps_def
proof (intro conjI allI impI)
  note dev = keeps_fields(1) [OF assms(1), of ip]
  note a = keepsD [OF assms(1)]
  note b = keepsD [OF assms(2), unfolded dev a(5)]
  {
    fix sl assume "slot_val s ip sl \<noteq> 0"
    then show "slot_val s2 ip sl = slot_val s ip sl"
      using a(1) [of sl] b(1) [of sl] by simp
  next
    show "icache s2 = (icache s)(ip := (icache s ip)\<lparr>i_addrs := i_addrs (icache s2 ip)\<rparr>)"
      by (subst b(2), subst (1 2) a(2)) simp
  next
    show "cwd s2 = cwd s" using a(3) b(3) by simp
  next
    show "devsw s2 = devsw s" using a(4) b(4) by simp
  next
    show "readsb s2 (i_dev (icache s ip)) = readsb s (i_dev (icache s ip))"
      using a(5) b(5) by simp
  }
qed

lemma keeps_mapped:
  assumes "keeps s s1 ip" and "mapped s ip p"
  shows "mapped s1 ip p" and "blk_of s1 ip (of_nat (p div 512)) = blk_of s ip (of_nat (p div 512))"
  using assms keepsD(1) [OF assms(1)] by (simp_all add: mapped_def blk_of_def)

lemma leaf_not_tbl [simp]: "\<not> is_tbl_slot (leaf_slot bn)"
  by (simp add: leaf_slot_def)

lemma grows_file_byte:
  assumes "grows s s1 ip" and "mapped s ip p"
  shows "file_byte s1 ip p = file_byte s ip p"
proof -
  let ?sl = "leaf_slot (of_nat (p div 512))"
  from assms(2) have nz: "slot_val s ip ?sl \<noteq> 0"
    by (simp add: mapped_def blk_of_def)
  from growsD(1) [OF assms(1) nz] growsD(2) [OF assms(1) nz] grows_dev(1) [OF assms(1), of ip]
  show ?thesis
    by (simp add: file_byte_def blk_of_def)
qed

lemma unat_word_div_mod_eq:
  fixes x y :: u32
  assumes "unat x div 128 = unat y div 128" and "unat x mod 128 = unat y mod 128"
  shows "x = y"
proof -
  have "unat x = unat y"
    using assms by (metis div_mult_mod_eq)
  then show ?thesis by (rule unsigned_word_eqI)
qed

lemma leaf_slot_inj:
  assumes "leaf_slot bn = leaf_slot bn'"
  shows "bn = bn'"
proof -
  consider (direct) "bn < NDIRECT"
    | (single) "\<not> bn < NDIRECT" "bn - NDIRECT < NINDIRECT"
    | (double) "\<not> bn < NDIRECT" "\<not> bn - NDIRECT < NINDIRECT"
    by blast
  then show ?thesis
  proof cases
    case direct
    with assms have "unat bn = unat bn'"
      by (simp add: leaf_slot_def split: if_splits)
    then show ?thesis by (rule unsigned_word_eqI)
  next
    case single
    with assms have "unat (bn - NDIRECT) = unat (bn' - NDIRECT)"
      by (simp add: leaf_slot_def split: if_splits)
    then have "bn - NDIRECT = bn' - NDIRECT" by (rule unsigned_word_eqI)
    then show ?thesis by simp
  next
    case double
    with assms have
      "unat ((bn - NDIRECT - NINDIRECT) div NINDIRECT)
         = unat ((bn' - NDIRECT - NINDIRECT) div NINDIRECT)"
      "unat ((bn - NDIRECT - NINDIRECT) mod NINDIRECT)
         = unat ((bn' - NDIRECT - NINDIRECT) mod NINDIRECT)"
      by (simp_all add: leaf_slot_def split: if_splits)
    then have "bn - NDIRECT - NINDIRECT = bn' - NDIRECT - NINDIRECT"
      by (intro unat_word_div_mod_eq) (simp_all add: unat_div unat_mod NINDIRECT_def)
    then show ?thesis by simp
  qed
qed

text \<open>A store into the data block of a file block.\<close>

lemma store_data:
  fixes b :: blk
  assumes wf: "inode_wf s ip" and v: "blk_of s ip bn \<noteq> 0"
  defines "s3 \<equiv> log_write (bstore s (i_dev (icache s ip)) (blk_of s ip bn) b)
                  (i_dev (icache s ip)) (blk_of s ip bn)"
  shows "slot_val s3 ip sl = slot_val s ip sl" and "inode_wf s3 ip" and "keeps s s3 ip"
    and "blk_of s ip bn' \<noteq> 0 \<Longrightarrow> bn' \<noteq> bn \<Longrightarrow>
           disk s3 (i_dev (icache s ip), blk_of s ip bn')
             = disk s (i_dev (icache s ip), blk_of s ip bn')"
    and "disk s3 (i_dev (icache s ip), blk_of s ip bn) = b"
proof -
  let ?dev = "i_dev (icache s ip)"
  let ?v = "blk_of s ip bn"
  from wf have m: "meta_used s ?dev"
    and g: "\<And>sl. slot_val s ip sl \<noteq> 0 \<Longrightarrow> good_blk s ?dev (slot_val s ip sl)"
    and inj: "\<And>sl sl'. slot_val s ip sl \<noteq> 0 \<Longrightarrow> slot_val s ip sl = slot_val s ip sl'
                \<Longrightarrow> sl = sl'"
    by (auto simp: inode_wf_def)
  have gv: "good_blk s ?dev ?v" using g v by (simp add: blk_of_def)
  note fr = store_good_frame [OF gv, where b = b, folded s3_def]
  have ic: "icache s3 = icache s" by (simp add: s3_def)
  have sv: "slot_val s3 ip sl = slot_val s ip sl" for sl
  proof (rule slot_val_cong)
    fix t assume t: "is_tbl_slot t" "slot_val s ip t \<noteq> 0"
    have "slot_val s ip t \<noteq> ?v"
    proof
      assume "slot_val s ip t = ?v"
      then have "t = leaf_slot bn"
        using inj [OF t(2), of "leaf_slot bn"] by (simp add: blk_of_def)
      with t(1) show False by simp
    qed
    then show "disk s3 (?dev, slot_val s ip t) = disk s (?dev, slot_val s ip t)"
      by (simp add: s3_def)
  qed (simp_all add: ic)
  then show "slot_val s3 ip sl = slot_val s ip sl" .
  have ds: "data_start s3 ?dev = data_start s ?dev" by (rule fr(2))
  show "inode_wf s3 ip"
    unfolding inode_wf_def ic sv
  proof (intro conjI allI impI)
    show "meta_used s3 ?dev"
      using m fr(3) by (simp add: meta_used_def fr(1) ds)
  next
    fix sl assume "slot_val s ip sl \<noteq> 0"
    from g [OF this] show "good_blk s3 ?dev (slot_val s ip sl)"
      using fr(3) [of "unat (slot_val s ip sl)"] by (simp add: good_blk_def fr(1) ds)
  next
    fix sl sl' assume "slot_val s ip sl \<noteq> 0 \<and> slot_val s ip sl = slot_val s ip sl'"
    then show "sl = sl'" using inj by blast
  qed
  show "keeps s s3 ip"
    unfolding keeps_def by (simp add: sv ic fr(1)) (simp add: s3_def)
  show "disk s3 (?dev, blk_of s ip bn') = disk s (?dev, blk_of s ip bn')"
    if "blk_of s ip bn' \<noteq> 0" "bn' \<noteq> bn"
  proof -
    have "blk_of s ip bn' \<noteq> ?v"
    proof
      assume e: "blk_of s ip bn' = ?v"
      from that(1) have "slot_val s ip (leaf_slot bn') \<noteq> 0" by (simp add: blk_of_def)
      from inj [OF this, of "leaf_slot bn"] e have "leaf_slot bn' = leaf_slot bn"
        by (simp add: blk_of_def)
      with that(2) leaf_slot_inj show False by blast
    qed
    then show ?thesis by (simp add: s3_def)
  qed
  show "disk s3 (?dev, ?v) = b" by (simp add: s3_def)
qed


subsection \<open>The loop of writei\<close>

lemma blk_idx:
  fixes off :: u32
  shows "off div BSIZE = of_nat (unat off div 512)" and "unat (off mod BSIZE) = unat off mod 512"
proof -
  have "unat (off div BSIZE) = unat off div 512"
    by (simp add: unat_div BSIZE_def)
  moreover have "of_nat (unat (off div BSIZE)) = off div BSIZE" by simp
  ultimately show "off div BSIZE = of_nat (unat off div 512)" by simp
  show "unat (off mod BSIZE) = unat off mod 512"
    by (simp add: unat_mod BSIZE_def)
qed

lemma chunk_nat:
  assumes "tot < n"
  shows "unat (chunk off n tot) = min (unat n - unat tot) (512 - unat off mod 512)"
proof -
  have a: "unat (n - tot) = unat n - unat tot"
    using less_imp_le [OF assms] by (rule unat_sub_le)
  have "off mod BSIZE < BSIZE"
    by (simp add: BSIZE_def word_mod_less_divisor)
  then have "off mod BSIZE \<le> BSIZE" by (rule less_imp_le)
  then have "unat (BSIZE - off mod BSIZE) = unat BSIZE - unat (off mod BSIZE)"
    by (rule unat_sub_le)
  then have b: "unat (BSIZE - off mod BSIZE) = 512 - unat off mod 512"
    by (simp add: blk_idx(2)) (simp add: BSIZE_def)
  show ?thesis
    unfolding chunk_def using a b by (simp add: min_def word_le_nat_alt)
qed

lemma same_block:
  fixes p i :: nat
  assumes "i < 512 - p mod 512"
  shows "(p + i) div 512 = p div 512" and "(p + i) mod 512 = p mod 512 + i"
proof -
  have e: "p + i = (p mod 512 + i) + p div 512 * 512" by simp
  have l: "p mod 512 + i < 512" using assms by simp
  have "(p + i) div 512 = ((p mod 512 + i) + p div 512 * 512) div 512"
    by (subst e) (rule refl)
  also have "\<dots> = p div 512 + (p mod 512 + i) div 512"
    by (rule div_mult_self1) simp
  also have "\<dots> = p div 512" using l by simp
  finally show "(p + i) div 512 = p div 512" .
  have "(p + i) mod 512 = ((p mod 512 + i) + p div 512 * 512) mod 512"
    by (subst e) (rule refl)
  also have "\<dots> = (p mod 512 + i) mod 512"
    by (rule mod_mult_self1)
  also have "\<dots> = p mod 512 + i" using l by simp
  finally show "(p + i) mod 512 = p mod 512 + i" .
qed

lemma of_nat_blk_inj:
  assumes "(of_nat (q div 512) :: u32) = of_nat (p div 512)" and "q < 2 ^ 32" and "p < 2 ^ 32"
  shows "q div 512 = p div 512"
proof -
  have a: "unat (of_nat (q div 512) :: u32) = q div 512"
    using assms(2) by (simp add: unat_of_nat)
  have b: "unat (of_nat (p div 512) :: u32) = p div 512"
    using assms(3) by (simp add: unat_of_nat)
  have "unat (of_nat (q div 512) :: u32) = unat (of_nat (p div 512) :: u32)"
    using assms(1) by (rule arg_cong)
  then show ?thesis unfolding a b .
qed

lemma blk_in_range:
  fixes off :: u32
  assumes "unat off < 8459776"
  shows "off div BSIZE < MAXFILE"
proof -
  have "unat (off div BSIZE) = unat off div 512"
    by (simp add: unat_div BSIZE_def)
  moreover have "unat off div 512 < 16523" using assms by simp
  ultimately show ?thesis
    by (simp add: MAXFILE_def NDIRECT_def NINDIRECT_def NDINDIRECT_def word_less_nat_alt)
qed


lemma wrote_done:
  assumes "inode_wf s ip"
  shows "wrote s s ip src p 0"
  using assms by (simp add: wrote_def keeps_refl)

lemma wrote_step:
  assumes k: "keeps s s3 ip"
      and bytes: "\<And>i. i < M \<Longrightarrow> mapped s3 ip (p + i) \<and> file_byte s3 ip (p + i) = src i"
      and frame: "\<And>q. q < p \<Longrightarrow> mapped s ip q \<Longrightarrow> file_byte s3 ip q = file_byte s ip q"
      and w: "wrote s3 s' ip (\<lambda>k. src (M + k)) (p + M) (r - M)" and le: "M \<le> r"
  shows "wrote s s' ip src p r"
proof -
  from w have wf': "inode_wf s' ip" and k': "keeps s3 s' ip"
    and bytes': "\<And>i. i < r - M \<Longrightarrow>
                   mapped s' ip (p + M + i) \<and> file_byte s' ip (p + M + i) = src (M + i)"
    and frame': "\<And>q. q < p + M \<Longrightarrow> mapped s3 ip q \<Longrightarrow> file_byte s' ip q = file_byte s3 ip q"
    unfolding wrote_def by blast+
  show ?thesis
    unfolding wrote_def
  proof (intro conjI allI impI)
    show "inode_wf s' ip" by (rule wf')
    show "keeps s s' ip" using k k' by (rule keeps_trans)
  next
    fix i assume i: "i < r"
    show "mapped s' ip (p + i)"
    proof (cases "i < M")
      case True
      from bytes [OF True] keeps_mapped(1) [OF k'] show ?thesis by blast
    next
      case False
      with i have "i - M < r - M" and "p + M + (i - M) = p + i" by simp_all
      with bytes' [of "i - M"] show ?thesis by simp
    qed
    show "file_byte s' ip (p + i) = src i"
    proof (cases "i < M")
      case True
      from bytes [OF True] frame' [of "p + i"] True show ?thesis by simp
    next
      case False
      with i have "i - M < r - M" and "p + M + (i - M) = p + i" and "M + (i - M) = i"
        by simp_all
      with bytes' [of "i - M"] show ?thesis by simp
    qed
  next
    fix q assume q: "q < p \<and> mapped s ip q"
    then have "mapped s3 ip q" using keeps_mapped(1) [OF k] by blast
    with frame' [of q] frame [of q] q show "file_byte s' ip q = file_byte s ip q"
      by simp
  qed
qed

text \<open>One turn of the loop: the block is mapped, and the piece of the source is stored
  in it.\<close>

lemma writei_loop_step:
  assumes wf: "inode_wf s ip" and lt: "tot < n"
      and bound: "unat off + (unat n - unat tot) \<le> 8459776"
      and run: "bmap s ip (off div BSIZE) = Ok addr s1"
      and dev: "dev = i_dev (icache s1 ip)"
      and bp: "bp = bread s1 dev addr"
      and m: "m = chunk off n tot"
      and bo: "bo = unat (off mod BSIZE)"
      and s2: "s2 = bstore s1 dev addr
                      (\<lambda>i. if bo \<le> i \<and> i < bo + unat m then src (i - bo) else bp i)"
      and s3: "s3 = log_write s2 dev addr"
  shows "inode_wf s3 ip" and "keeps s s3 ip"
    and "\<And>i. i < unat m \<Longrightarrow>
           mapped s3 ip (unat off + i) \<and> file_byte s3 ip (unat off + i) = src i"
    and "\<And>q. q < unat off \<Longrightarrow> mapped s ip q \<Longrightarrow> file_byte s3 ip q = file_byte s ip q"
    and "unat (off + m) = unat off + unat m" and "tot + m \<le> n"
    and "unat n - unat (tot + m) = unat n - unat tot - unat m"
    and "unat m \<le> unat n - unat tot"
proof -
  let ?bn = "off div BSIZE"
  let ?b = "\<lambda>i. if bo \<le> i \<and> i < bo + unat m then src (i - bo) else bp i"
  note st = bmap_step [OF wf run]
  have v: "blk_of s1 ip ?bn \<noteq> 0" using st(2,3) by simp
  have s3': "s3 = log_write (bstore s1 (i_dev (icache s1 ip)) (blk_of s1 ip ?bn) ?b)
                    (i_dev (icache s1 ip)) (blk_of s1 ip ?bn)"
    unfolding s3 s2 dev st(2) ..
  note sd = store_data [OF st(1) v, where b = ?b, folded s3']
  have ic: "icache s3 = icache s1" unfolding s3' by simp
  have bl: "blk_of s3 ip x = blk_of s1 ip x" for x
    using sd(1) by (simp add: blk_of_def)
  have k01: "keeps s s1 ip" using st(4) by (rule grows_keeps)
  show "inode_wf s3 ip" by (rule sd(2))
  show "keeps s s3 ip" using k01 sd(3) by (rule keeps_trans)
  note cs = chunk_step [OF lt, of off, folded m]
  have M: "unat m = min (unat n - unat tot) (512 - unat off mod 512)"
    unfolding m using lt by (rule chunk_nat)
  show Mle: "unat m \<le> unat n - unat tot" using M by simp
  have "unat off + unat m < 2 ^ 32" using Mle bound by simp
  then show om: "unat (off + m) = unat off + unat m"
    by (simp add: unat_add_lem [THEN iffD1])
  show "tot + m \<le> n" using cs(1,3) by (simp add: word_le_nat_alt)
  show "unat n - unat (tot + m) = unat n - unat tot - unat m"
    using cs(1) by simp
  have bo': "bo = unat off mod 512" unfolding bo by (rule blk_idx(2))
  have off32: "unat off < 2 ^ 32" using bound by simp
  {
    fix i assume i: "i < unat m"
    then have "i < 512 - unat off mod 512" using M by simp
    note sb = same_block [OF this]
    have idx: "(of_nat ((unat off + i) div 512) :: u32) = ?bn"
      unfolding sb(1) by (rule blk_idx(1) [symmetric])
    have "mapped s3 ip (unat off + i)"
      unfolding mapped_def idx bl by (rule v)
    moreover have "file_byte s3 ip (unat off + i) = ?b (bo + i)"
      unfolding file_byte_def idx bl ic sb(2) sd(5) bo' ..
    ultimately show "mapped s3 ip (unat off + i) \<and> file_byte s3 ip (unat off + i) = src i"
      using i by simp
  next
    fix q assume q: "q < unat off" and mq: "mapped s ip q"
    let ?bq = "of_nat (q div 512) :: u32"
    have f1: "file_byte s1 ip q = file_byte s ip q"
      using st(4) mq by (rule grows_file_byte)
    have m1: "blk_of s1 ip ?bq \<noteq> 0"
      using keeps_mapped(1) [OF k01 mq] by (simp add: mapped_def)
    have "disk s3 (i_dev (icache s1 ip), blk_of s1 ip ?bq) (q mod 512)
            = disk s1 (i_dev (icache s1 ip), blk_of s1 ip ?bq) (q mod 512)"
    proof (cases "?bq = ?bn")
      case True
      then have "?bq = of_nat (unat off div 512)" by (simp add: blk_idx(1))
      then have "q div 512 = unat off div 512"
        using q off32 by (intro of_nat_blk_inj) simp_all
      moreover have "q = q div 512 * 512 + q mod 512"
        "unat off = unat off div 512 * 512 + unat off mod 512" by simp_all
      ultimately have "q mod 512 < bo" using q unfolding bo' by linarith
      then have "?b (q mod 512) = bp (q mod 512)" by simp
      moreover have "bp = disk s1 (i_dev (icache s1 ip), blk_of s1 ip ?bn)"
        unfolding bp dev st(2) bread_def ..
      ultimately show ?thesis
        unfolding True sd(5) by simp
    next
      case False
      from sd(4) [OF m1 False] show ?thesis by simp
    qed
    then have "file_byte s3 ip q = file_byte s1 ip q"
      unfolding file_byte_def bl ic .
    then show "file_byte s3 ip q = file_byte s ip q"
      using f1 by simp
  }
qed


lemma writei_loop_spec:
  "inode_wf s ip \<Longrightarrow> tot \<le> n \<Longrightarrow> unat off + (unat n - unat tot) \<le> 8459776 \<Longrightarrow>
     (\<forall>e. writei_loop s ip src off n tot = Stop e \<longrightarrow> e = Panic_fs ''balloc: out of blocks'')
     \<and> (\<forall>off' s'. writei_loop s ip src off n tot = Ok off' s' \<longrightarrow>
            off' = off + (n - tot) \<and> wrote s s' ip src (unat off) (unat n - unat tot))"
proof (induction s ip src off n tot rule: writei_loop.induct)
  case (1 s ip src off n tot)
  note wf = "1.prems"(1) and le = "1.prems"(2) and bound = "1.prems"(3)
  show ?case
  proof (cases "tot < n")
    case False
    with le have tn: "tot = n" by simp
    have eq: "writei_loop s ip src off n tot = Ok off s"
      by (subst writei_loop.simps) (simp add: False)
    show ?thesis
      unfolding eq using wf by (simp add: tn wrote_done)
  next
    case True
    then have "unat tot < unat n" by (simp add: word_less_nat_alt)
    with bound have inr: "unat off < 8459776" by simp
    show ?thesis
    proof (cases "bmap s ip (off div BSIZE)")
      case (Stop e)
      have eq: "writei_loop s ip src off n tot = Stop e"
        by (subst writei_loop.simps) (simp add: True Stop)
      show ?thesis
        unfolding eq using bmap_Stop [OF Stop blk_in_range [OF inr]] by simp
    next
      case (Ok addr s1)
      define dev where "dev = i_dev (icache s1 ip)"
      define bp where "bp = bread s1 dev addr"
      define m where "m = chunk off n tot"
      define bo where "bo = unat (off mod BSIZE)"
      define s2 where "s2 = bstore s1 dev addr
                        (\<lambda>i. if bo \<le> i \<and> i < bo + unat m then src (i - bo) else bp i)"
      define s3 where "s3 = log_write s2 dev addr"
      note step = writei_loop_step [OF wf True bound Ok dev_def bp_def m_def bo_def s2_def s3_def]
      have eq: "writei_loop s ip src off n tot
                  = writei_loop s3 ip (\<lambda>k. src (unat m + k)) (off + m) n (tot + m)"
        by (subst writei_loop.simps)
           (simp add: True Ok Let_def dev_def bp_def m_def bo_def s2_def s3_def cong: if_cong)
      have bound3: "unat (off + m) + (unat n - unat (tot + m)) \<le> 8459776"
        unfolding step(5) step(7) using step(8) bound by simp
      note IH = "1.IH" [OF True Ok dev_def bp_def m_def bo_def s2_def s3_def
                          step(1) step(6) bound3]
      show ?thesis
        unfolding eq
      proof (intro conjI allI impI)
        fix e assume "writei_loop s3 ip (\<lambda>k. src (unat m + k)) (off + m) n (tot + m) = Stop e"
        with IH show "e = Panic_fs ''balloc: out of blocks''" by blast
      next
        fix off' s'
        assume r: "writei_loop s3 ip (\<lambda>k. src (unat m + k)) (off + m) n (tot + m) = Ok off' s'"
        with IH have o: "off' = off + m + (n - (tot + m))"
          and w: "wrote s3 s' ip (\<lambda>k. src (unat m + k)) (unat (off + m))
                    (unat n - unat (tot + m))"
          by blast+
        from o show "off' = off + (n - tot)" by simp
        from w have "wrote s3 s' ip (\<lambda>k. src (unat m + k)) (unat off + unat m)
                       (unat n - unat tot - unat m)"
          unfolding step(5) step(7) .
        with step(2) step(3) step(4) show "wrote s s' ip src (unat off) (unat n - unat tot)"
          using step(8) by (rule wrote_step)
      qed
    qed
  qed
qed

subsection \<open>The loop of readi\<close>

lemma map_upt_split:
  assumes "M \<le> R"
  shows "map f [0..<M] @ map (\<lambda>i. f (M + i)) [0..<R - M] = map f [0..<R]"
proof -
  have "map (\<lambda>i. f (M + i)) [0..<R - M] = map f (map (\<lambda>i. i + M) [0..<R - M])"
    by (simp add: add.commute)
  also have "map (\<lambda>i. i + M) [0..<R - M] = [M..<R]"
    using assms by (simp add: map_add_upt)
  finally have "map f [0..<M] @ map (\<lambda>i. f (M + i)) [0..<R - M] = map f ([0..<M] @ [M..<R])"
    by simp
  also have "[0..<M] @ [M..<R] = [0..<R]"
    using assms upt_add_eq_append [of 0 M "R - M"] by simp
  finally show ?thesis .
qed

lemma readi_loop_spec:
  "(\<And>i. i < unat n - unat tot \<Longrightarrow> mapped s ip (unat off + i)) \<Longrightarrow> tot \<le> n \<Longrightarrow>
   unat off + (unat n - unat tot) \<le> 8459776 \<Longrightarrow>
     readi_loop s ip off n tot acc
       = Ok (acc @ map (\<lambda>i. file_byte s ip (unat off + i)) [0..<unat n - unat tot]) s"
proof (induction s ip off n tot acc rule: readi_loop.induct)
  case (1 s ip off n tot acc)
  note mp = "1.prems"(1) and le = "1.prems"(2) and bound = "1.prems"(3)
  show ?case
  proof (cases "tot < n")
    case False
    with le have tn: "tot = n" by simp
    show ?thesis
      by (subst readi_loop.simps) (simp add: tn)
  next
    case True
    let ?bn = "off div BSIZE"
    define m where "m = chunk off n tot"
    define bp where "bp = bread s (i_dev (icache s ip)) (blk_of s ip ?bn)"
    define acc' where "acc' = acc @ map (\<lambda>k. bp (unat (off mod BSIZE) + k)) [0..<unat m]"
    from True have pos: "0 < unat n - unat tot" by (simp add: word_less_nat_alt)
    have "mapped s ip (unat off + 0)" using pos by (rule mp)
    then have v: "blk_of s ip ?bn \<noteq> 0"
      by (simp add: mapped_def blk_idx(1))
    note run = bmap_mapped [OF v]
    note cs = chunk_step [OF True, of off, folded m_def]
    have M: "unat m = min (unat n - unat tot) (512 - unat off mod 512)"
      unfolding m_def using True by (rule chunk_nat)
    then have Mle: "unat m \<le> unat n - unat tot" by simp
    have "unat off + unat m < 2 ^ 32" using Mle bound by simp
    then have om: "unat (off + m) = unat off + unat m"
      by (simp add: unat_add_lem [THEN iffD1])
    have le3: "tot + m \<le> n" using cs(1,3) by (simp add: word_le_nat_alt)
    have r3: "unat n - unat (tot + m) = unat n - unat tot - unat m"
      using cs(1) by simp
    have bound3: "unat (off + m) + (unat n - unat (tot + m)) \<le> 8459776"
      unfolding om r3 using Mle bound by simp
    have mp3: "mapped s ip (unat (off + m) + i)" if "i < unat n - unat (tot + m)" for i
    proof -
      from that have "unat m + i < unat n - unat tot" unfolding r3 by simp
      from mp [OF this] show ?thesis unfolding om by (simp add: add.assoc)
    qed
    have eq: "readi_loop s ip off n tot acc = readi_loop s ip (off + m) n (tot + m) acc'"
      by (subst readi_loop.simps)
         (simp add: True run Let_def m_def bp_def acc'_def)
    have chunk_bytes: "map (\<lambda>k. bp (unat (off mod BSIZE) + k)) [0..<unat m]
                         = map (\<lambda>i. file_byte s ip (unat off + i)) [0..<unat m]"
    proof (rule map_cong [OF refl])
      fix k assume "k \<in> set [0..<unat m]"
      then have "k < 512 - unat off mod 512" using M by simp
      note sb = same_block [OF this]
      have idx: "(of_nat ((unat off + k) div 512) :: u32) = ?bn"
        unfolding sb(1) by (rule blk_idx(1) [symmetric])
      show "bp (unat (off mod BSIZE) + k) = file_byte s ip (unat off + k)"
        unfolding file_byte_def idx sb(2) bp_def bread_def blk_idx(2) ..
    qed
    have IH: "readi_loop s ip (off + m) n (tot + m) acc'
                = Ok (acc' @ map (\<lambda>i. file_byte s ip (unat (off + m) + i))
                               [0..<unat n - unat (tot + m)]) s"
    proof -
      have a: "\<And>i. i < unat n - unat (tot + chunk off n tot) \<Longrightarrow>
                 mapped s ip (unat (off + chunk off n tot) + i)"
        using mp3 unfolding m_def .
      have b: "tot + chunk off n tot \<le> n" using le3 unfolding m_def .
      have c: "unat (off + chunk off n tot) + (unat n - unat (tot + chunk off n tot))
                 \<le> 8459776"
        using bound3 unfolding m_def .
      show ?thesis
        unfolding acc'_def bp_def m_def by (rule "1.IH" [OF True run refl refl a b c])
    qed
    have "readi_loop s ip off n tot acc
            = Ok (acc' @ map (\<lambda>i. file_byte s ip (unat off + unat m + i))
                           [0..<unat n - unat tot - unat m]) s"
      unfolding eq IH unfolding om r3 ..
    also have "acc' @ map (\<lambda>i. file_byte s ip (unat off + unat m + i))
                       [0..<unat n - unat tot - unat m]
                 = acc @ map (\<lambda>i. file_byte s ip (unat off + i)) [0..<unat n - unat tot]"
      unfolding acc'_def chunk_bytes
      using map_upt_split [OF Mle, of "\<lambda>i. file_byte s ip (unat off + i)"]
      by (simp add: add.assoc)
    finally show ?thesis .
  qed
qed


subsection \<open>The loop of writei returns\<close>

lemma range_slots_finite [simp]: "finite (range_slots p r)"
  by (simp add: range_slots_def)

lemma range_slots_first:
  assumes "0 < r"
  shows "set (path_slots (of_nat (p div 512))) \<subseteq> range_slots p r"
proof -
  have "p \<in> {p..<p + r}" using assms by simp
  then show ?thesis unfolding range_slots_def by blast
qed

lemma range_slots_rest:
  assumes "m \<le> r"
  shows "range_slots (p + m) (r - m) \<subseteq> range_slots p r"
proof -
  have sub: "{p + m..<p + m + (r - m)} \<subseteq> {p..<p + r}" using assms by auto
  show ?thesis unfolding range_slots_def by (rule UN_mono [OF sub]) simp
qed

lemma store_data_enough:
  fixes b :: blk
  assumes wf: "inode_wf s ip" and v: "blk_of s ip bn \<noteq> 0" and e: "enough s ip N"
  shows "enough (log_write (bstore s (i_dev (icache s ip)) (blk_of s ip bn) b)
                  (i_dev (icache s ip)) (blk_of s ip bn)) ip N"
proof -
  let ?dev = "i_dev (icache s ip)"
  let ?s3 = "log_write (bstore s ?dev (blk_of s ip bn) b) ?dev (blk_of s ip bn)"
  from wf v have gv: "good_blk s ?dev (blk_of s ip bn)"
    by (simp add: inode_wf_def blk_of_def)
  note fr = store_good_frame [OF gv, where b = b]
  note sd = store_data [OF wf v, where b = b]
  have dev: "i_dev (icache ?s3 ip) = ?dev" by simp
  have "free_blks ?s3 ?dev = free_blks s ?dev"
    using fr(3) by (auto simp: free_blks_def fr(1))
  moreover have "zero_slots ?s3 ip N = zero_slots s ip N"
    by (simp add: zero_slots_def sd(1))
  ultimately show ?thesis
    using e unfolding enough_def dev by simp
qed

lemma writei_loop_runs:
  "inode_wf s ip \<Longrightarrow> tot \<le> n \<Longrightarrow> unat off + (unat n - unat tot) \<le> 8459776 \<Longrightarrow>
   enough s ip (range_slots (unat off) (unat n - unat tot)) \<Longrightarrow>
     \<exists>off' s'. writei_loop s ip src off n tot = Ok off' s'"
proof (induction s ip src off n tot rule: writei_loop.induct)
  case (1 s ip src off n tot)
  note wf = "1.prems"(1) and le = "1.prems"(2) and bound = "1.prems"(3) and e = "1.prems"(4)
  show ?case
  proof (cases "tot < n")
    case False
    show ?thesis
      by (subst writei_loop.simps) (simp add: False)
  next
    case True
    let ?N = "range_slots (unat off) (unat n - unat tot)"
    let ?bn = "off div BSIZE"
    let ?P = "set (path_slots ?bn)"
    from True have pos: "0 < unat n - unat tot" by (simp add: word_less_nat_alt)
    with bound have inr: "unat off < 8459776" by simp
    have sub: "?P \<subseteq> ?N"
      unfolding blk_idx(1) using pos by (rule range_slots_first)
    from bmap_runs [OF wf blk_in_range [OF inr] e sub]
    obtain addr s1 where Ok: "bmap s ip ?bn = Ok addr s1" by blast
    note st = bmap_step [OF wf Ok]
    note ex = bmap_exact [OF wf Ok]
    define dev where "dev = i_dev (icache s1 ip)"
    define bp where "bp = bread s1 dev addr"
    define m where "m = chunk off n tot"
    define bo where "bo = unat (off mod BSIZE)"
    define s2 where "s2 = bstore s1 dev addr
                      (\<lambda>i. if bo \<le> i \<and> i < bo + unat m then src (i - bo) else bp i)"
    define s3 where "s3 = log_write s2 dev addr"
    note step = writei_loop_step [OF wf True bound Ok dev_def bp_def m_def bo_def s2_def s3_def]
    have eq: "writei_loop s ip src off n tot
                = writei_loop s3 ip (\<lambda>k. src (unat m + k)) (off + m) n (tot + m)"
      by (subst writei_loop.simps)
         (simp add: True Ok Let_def dev_def bp_def m_def bo_def s2_def s3_def cong: if_cong)
    have bound3: "unat (off + m) + (unat n - unat (tot + m)) \<le> 8459776"
      unfolding step(5) step(7) using step(8) bound by simp
    let ?N' = "range_slots (unat off + unat m) (unat n - unat tot - unat m)"
    have NN: "?N' \<subseteq> ?N" using step(8) by (rule range_slots_rest)
    note e1 = enough_step [OF e st(4) st(5) sub]
    have zs: "zero_slots s1 ip ?N' \<subseteq> zero_slots s1 ip (?N - ?P)"
    proof
      fix x assume "x \<in> zero_slots s1 ip ?N'"
      then have x: "x \<in> ?N'" "slot_val s1 ip x = 0" by (simp_all add: zero_slots_def)
      from x(2) ex(2) [of x] have "x \<notin> ?P" by blast
      with x NN show "x \<in> zero_slots s1 ip (?N - ?P)" by (auto simp: zero_slots_def)
    qed
    have e1': "enough s1 ip ?N'"
      using e1 range_slots_finite zs by (rule enough_mono)
    have v: "blk_of s1 ip ?bn \<noteq> 0" using st(2,3) by simp
    have s3': "s3 = log_write (bstore s1 (i_dev (icache s1 ip)) (blk_of s1 ip ?bn)
                      (\<lambda>i. if bo \<le> i \<and> i < bo + unat m then src (i - bo) else bp i))
                    (i_dev (icache s1 ip)) (blk_of s1 ip ?bn)"
      unfolding s3_def s2_def dev_def st(2) ..
    have e3: "enough s3 ip (range_slots (unat (off + m)) (unat n - unat (tot + m)))"
      unfolding step(5) step(7) s3' using st(1) v e1' by (rule store_data_enough)
    from "1.IH" [OF True Ok dev_def bp_def m_def bo_def s2_def s3_def
                    step(1) step(6) bound3 e3]
    show ?thesis unfolding eq .
  qed
qed


subsection \<open>writei and readi\<close>

lemma unat_IBLOCK:
  assumes "inum < ni"
  shows "unat (IBLOCK inum) < unat (ni div IPB) + 3"
proof -
  have a: "unat (inum div IPB) = unat inum div 8" by (simp add: IPB_def unat_div)
  have b: "unat (ni div IPB) = unat ni div 8" by (simp add: IPB_def unat_div)
  have "unat inum < 2 ^ 32" using unsigned_less [of inum, where ?'a = nat] by simp
  then have "unat inum div 8 + 2 < 2 ^ 32" by simp
  then have "unat (inum div IPB + 2) = unat inum div 8 + 2"
    using a by (simp add: unat_add_lem [THEN iffD1])
  moreover have "unat inum div 8 \<le> unat ni div 8"
    using assms by (intro div_le_mono) (simp add: word_less_nat_alt)
  ultimately show ?thesis unfolding IBLOCK_def b by simp
qed

text \<open>\<open>iupdate\<close> after a change of the size: the block of the on-disk inode is below
  the data area, so the blocks of the file are as they were.\<close>

lemma iupdate_size:
  fixes z :: u32
  assumes wf: "inode_wf s ip"
      and ino: "i_inum (icache s ip) < sb_ninodes (readsb s (i_dev (icache s ip)))"
  defines "s2 \<equiv> iupdate (upd_inode s ip (\<lambda>i. i\<lparr>i_size := z\<rparr>)) ip"
  shows "icache s2 = (icache s)(ip := (icache s ip)\<lparr>i_size := z\<rparr>)"
    and "slot_val s2 ip sl = slot_val s ip sl"
    and "mapped s ip p \<Longrightarrow> file_byte s2 ip p = file_byte s ip p"
proof -
  let ?dev = "i_dev (icache s ip)"
  let ?bno = "IBLOCK (i_inum (icache s ip))"
  obtain b where s2: "s2 = log_write (bstore (upd_inode s ip (\<lambda>i. i\<lparr>i_size := z\<rparr>)) ?dev ?bno b)
                             ?dev ?bno"
    by (simp add: s2_def iupdate_def Let_def)
  show ic: "icache s2 = (icache s)(ip := (icache s ip)\<lparr>i_size := z\<rparr>)"
    unfolding s2 by (simp add: upd_inode_def)
  have below: "unat ?bno < data_start s ?dev"
    using unat_IBLOCK [OF ino] by (simp add: data_start_def)
  have other: "disk s2 (?dev, c) = disk s (?dev, c)" if "good_blk s ?dev c" for c
  proof -
    from that below have "unat c \<noteq> unat ?bno" by (simp add: good_blk_def)
    then have "c \<noteq> ?bno" by auto
    then show ?thesis unfolding s2 by (simp add: upd_inode_def)
  qed
  from wf have g: "\<And>sl. slot_val s ip sl \<noteq> 0 \<Longrightarrow> good_blk s ?dev (slot_val s ip sl)"
    by (simp add: inode_wf_def)
  show sv: "slot_val s2 ip sl = slot_val s ip sl" for sl
    by (rule slot_val_cong) (simp_all add: ic other g)
  show "file_byte s2 ip p = file_byte s ip p" if "mapped s ip p"
  proof -
    from that have "slot_val s ip (leaf_slot (of_nat (p div 512))) \<noteq> 0"
      by (simp add: mapped_def blk_of_def)
    from other [OF g [OF this]] show ?thesis
      by (simp add: file_byte_def blk_of_def sv ic)
  qed
qed

lemma unat_maxfile: "unat (MAXFILE * BSIZE) = 8459776"
  by (simp add: MAXFILE_def NDIRECT_def NINDIRECT_def NDINDIRECT_def BSIZE_def)

lemma upt_4: "[0..<4] = [0, 1, 2, 3]"
  by (simp add: upt_rec)

lemma ex_file_fields:
  "i_type (icache ex_fs (Suc 0)) = T_FILE"
  "i_size (icache ex_fs (Suc 0)) = 0"
  "i_inum (icache ex_fs (Suc 0)) = 2"
  "i_dev (icache ex_fs (Suc 0)) = 1"
  by (simp_all add: ex_icache ex_defs)

lemma ex_sized_slots: "slot_val (ex_sized z) (Suc 0) sl = 0"
  by (cases sl) (simp_all add: ex_sized_def upd_inode_def ex_fs_def ex_file_def ex_inode_def)

lemma ex_sized_fields:
  "i_type (icache (ex_sized z) (Suc 0)) = T_FILE"
  "i_size (icache (ex_sized z) (Suc 0)) = z"
  "i_inum (icache (ex_sized z) (Suc 0)) = 2"
  "i_dev (icache (ex_sized z) (Suc 0)) = 1"
  by (simp_all add: ex_sized_def ex_icache ex_file_def ex_inode_def)

lemma ex_sized_disk:
  "readsb (ex_sized z) 1 = readsb ex_fs 1"
  "meta_used (ex_sized z) 1 = meta_used ex_fs 1"
  "free_blks (ex_sized z) 1 = free_blks ex_fs 1"
  by (simp_all add: ex_sized_def meta_used_def free_blks_def data_start_def blk_used_def
      readsb_def bread_def)

lemma ex_sized_wf: "inode_wf (ex_sized z) (Suc 0)"
  using ex_file_wf
  by (simp add: inode_wf_def ex_sized_slots ex_file_slots ex_sized_fields ex_dev ex_sized_disk)

lemma ex_sized_enough:
  assumes "N \<subseteq> M" and "finite M" and "card M \<le> 3"
  shows "enough (ex_sized z) (Suc 0) N"
proof -
  have fN: "finite N" using assms(1,2) by (rule finite_subset)
  have "zero_slots (ex_sized z) (Suc 0) N = N"
    by (simp add: zero_slots_def ex_sized_slots)
  moreover have "card N \<le> card M" using assms(2,1) by (intro card_mono)
  ultimately show ?thesis
    using ex_free_card assms(3) fN by (simp add: enough_def ex_sized_fields ex_sized_disk)
qed

lemma ex_range_double: "range_slots 71168 4 \<subseteq> {Double, DoubleEnt 0, Leaf 0 0}"
proof -
  have "set (path_slots (of_nat (q div 512))) \<subseteq> {Double, DoubleEnt 0, Leaf 0 0}"
    if "q \<in> {71168..<71168 + 4}" for q :: nat
  proof -
    from that have "q div 512 = 139" by (intro div_nat_eqI) simp_all
    then show ?thesis by (simp add: ex_path_139)
  qed
  then show ?thesis unfolding range_slots_def by (rule UN_least)
qed

lemma ex_path_10_11: "path_slots 10 = [Direct 10]" "path_slots 11 = [Single, SingleEnt 0]"
  by (simp_all add: path_slots_def NDIRECT_def NINDIRECT_def)

lemma ex_range_cross: "range_slots 5630 4 \<subseteq> {Direct 10, Single, SingleEnt 0}"
proof -
  have "set (path_slots (of_nat (q div 512))) \<subseteq> {Direct 10, Single, SingleEnt 0}"
    if "q \<in> {5630..<5630 + 4}" for q :: nat
  proof -
    have "q div 512 = 10" if "q < 5632"
      using that \<open>q \<in> {5630..<5630 + 4}\<close> by (intro div_nat_eqI) simp_all
    moreover have "q div 512 = 11" if "\<not> q < 5632"
      using that \<open>q \<in> {5630..<5630 + 4}\<close> by (intro div_nat_eqI) simp_all
    ultimately have "q div 512 = 10 \<or> q div 512 = 11" by blast
    then show ?thesis by (auto simp: ex_path_10_11)
  qed
  then show ?thesis unfolding range_slots_def by (rule UN_least)
qed

lemma ex_writei_cross:
  "(case writei_loop (ex_sized 5630) (Suc 0) (\<lambda>k. of_nat k + 65) 5630 4 0 of
      Ok r s \<Rightarrow> slot_val s (Suc 0) (Direct 10) = 6 \<and> slot_val s (Suc 0) Single = 7
                \<and> slot_val s (Suc 0) (SingleEnt 0) = 8
    | Stop e \<Rightarrow> False)"
  by code_simp

lemma ex_writei_double:
  "(case writei_loop (ex_sized 71168) (Suc 0) (\<lambda>k. of_nat k + 65) 71168 4 0 of
      Ok r s \<Rightarrow> slot_val s (Suc 0) Double = 6 \<and> slot_val s (Suc 0) (DoubleEnt 0) = 7
                \<and> slot_val s (Suc 0) (Leaf 0 0) = 8
    | Stop e \<Rightarrow> False)"
  by code_simp

text \<open>The places of the inode after \<open>writei\<close> are those the loop left.\<close>

lemma writei_after_loop:
  assumes wf: "inode_wf s ip"
      and ino: "i_inum (icache s ip) < sb_ninodes (readsb s (i_dev (icache s ip)))"
      and ty: "i_type (icache s ip) \<noteq> T_DEV"
      and a: "off \<le> i_size (icache s ip)"
      and b: "\<not> off + n < off"
      and c: "off + n \<le> MAXFILE * BSIZE"
      and loop: "writei_loop s ip src off n 0 = Ok off1 s'"
      and run: "writei s ip src off n = Ok r s1"
  shows "slot_val s1 ip sl = slot_val s' ip sl"
proof -
  from b have le: "off \<le> off + n" by (simp add: not_less)
  then have sum: "unat (off + n) = unat off + unat n" by (simp add: unat_plus_simple)
  from c have "unat (off + n) \<le> 8459776"
    unfolding word_le_nat_alt unat_maxfile .
  then have bound: "unat off + (unat n - unat (0 :: u32)) \<le> 8459776"
    using sum by simp
  have g1: "\<not> (i_size (icache s ip) < off \<or> off + n < off)" using a b by (simp add: not_less)
  have g2: "\<not> MAXFILE * BSIZE < off + n" using c by (simp add: not_less)
  have zle: "(0 :: u32) \<le> n" by simp
  from writei_loop_spec [OF wf zle bound, of src] loop
  have w: "wrote s s' ip src (unat off) (unat n)" by simp
  then have wf': "inode_wf s' ip" and k: "keeps s s' ip"
    unfolding wrote_def by blast+
  have ino': "i_inum (icache s' ip) < sb_ninodes (readsb s' (i_dev (icache s' ip)))"
    unfolding keeps_fields [OF k, of ip] keepsD(5) [OF k] by (rule ino)
  from run have "s1 = s' \<or> s1 = iupdate (upd_inode s' ip (\<lambda>i. i\<lparr>i_size := off1\<rparr>)) ip"
    using ty g1 g2 by (auto simp: writei_def Let_def loop split: if_splits)
  then show ?thesis
    using iupdate_size(2) [OF wf' ino', of off1 sl] by auto
qed

text \<open>C4 (as the code has it). A write of \<open>n\<close> bytes at offset \<open>off\<close> that starts inside
  the file or at its end (offset at most the size), does not wrap, ends within
  \<open>MAXFILE * BSIZE\<close> and ends beyond the size, on a consistent inode that is not a device.
  \<open>writei\<close> returns when there is a free block for every place, on the way to the
  blocks of the range, that holds no address; its only other outcome is the panic of
  \<open>balloc\<close>, and then there are not that many free blocks. When \<open>writei\<close> returns, it
  returns \<open>n\<close>, the size of the inode is \<open>off + n\<close>, and \<open>readi\<close> of the range \<open>off\<close>, \<open>n\<close>
  returns \<open>n\<close> and the bytes of the source, with no change of the state.\<close>

theorem writei_extends_readi_returns:
  assumes wf: "inode_wf s ip"
      and ino: "i_inum (icache s ip) < sb_ninodes (readsb s (i_dev (icache s ip)))"
      and ty: "i_type (icache s ip) \<noteq> T_DEV"
      and a: "off \<le> i_size (icache s ip)"
      and b: "\<not> off + n < off"
      and c: "off + n \<le> MAXFILE * BSIZE"
      and d: "i_size (icache s ip) < off + n"
  shows "(enough s ip (range_slots (unat off) (unat n))
            \<longrightarrow> (\<exists>s1. writei s ip src off n = Ok n s1))
       \<and> (\<forall>e. writei s ip src off n = Stop e \<longrightarrow>
             e = Panic_fs ''balloc: out of blocks''
             \<and> \<not> enough s ip (range_slots (unat off) (unat n)))
       \<and> (\<forall>r s1. writei s ip src off n = Ok r s1 \<longrightarrow>
             r = n \<and> i_size (icache s1 ip) = off + n
             \<and> readi s1 ip off n = Ok (n, map src [0..<unat n]) s1)"
proof -
  from b have le: "off \<le> off + n" by (simp add: not_less)
  then have sum: "unat (off + n) = unat off + unat n" by (simp add: unat_plus_simple)
  from c have "unat (off + n) \<le> 8459776"
    unfolding word_le_nat_alt unat_maxfile .
  then have bound: "unat off + (unat n - unat (0 :: u32)) \<le> 8459776"
    using sum by simp
  from a d have npos: "0 < n" by (cases "n = 0") (simp_all add: word_neq_0_conv)
  have g1: "\<not> (i_size (icache s ip) < off \<or> off + n < off)" using a b by (simp add: not_less)
  have g2: "\<not> MAXFILE * BSIZE < off + n" using c by (simp add: not_less)
  have wr: "writei s ip src off n =
              (case writei_loop s ip src off n 0 of
                 Ok off1 s1 \<Rightarrow>
                   if 0 < n \<and> i_size (icache s1 ip) < off1
                   then Ok n (iupdate (upd_inode s1 ip (\<lambda>i. i\<lparr>i_size := off1\<rparr>)) ip)
                   else Ok n s1
               | Stop e \<Rightarrow> Stop e)"
    using ty g1 g2 by (simp add: writei_def Let_def)
  have zle: "(0 :: u32) \<le> n" by simp
  note spec = writei_loop_spec [OF wf zle bound, of src]
  have stopc: "writei s ip src off n = Stop e \<and> e = Panic_fs ''balloc: out of blocks''"
    if Stop: "writei_loop s ip src off n 0 = Stop e" for e
  proof -
    from Stop spec have "e = Panic_fs ''balloc: out of blocks''" by blast
    with Stop wr show ?thesis by simp
  qed
  have post: "\<exists>s2. writei s ip src off n = Ok n s2 \<and> i_size (icache s2 ip) = off + n
                \<and> readi s2 ip off n = Ok (n, map src [0..<unat n]) s2"
    if Ok: "writei_loop s ip src off n 0 = Ok off1 s'" for off1 s'
  proof -
    from Ok spec have o: "off1 = off + n" and w: "wrote s s' ip src (unat off) (unat n)"
      by simp_all
    from w have wf': "inode_wf s' ip" and k: "keeps s s' ip"
      and bytes: "\<And>i. i < unat n \<Longrightarrow>
                    mapped s' ip (unat off + i) \<and> file_byte s' ip (unat off + i) = src i"
      unfolding wrote_def by blast+
    note kf = keeps_fields [OF k, of ip]
    define s2 where "s2 = iupdate (upd_inode s' ip (\<lambda>i. i\<lparr>i_size := off + n\<rparr>)) ip"
    have ino': "i_inum (icache s' ip) < sb_ninodes (readsb s' (i_dev (icache s' ip)))"
      unfolding kf keepsD(5) [OF k] by (rule ino)
    note iu = iupdate_size [OF wf' ino', where z = "off + n", folded s2_def]
    have res: "writei s ip src off n = Ok n s2"
      unfolding wr Ok using npos d by (simp add: kf o s2_def)
    have sz: "i_size (icache s2 ip) = off + n" unfolding iu(1) by simp
    have ty2: "i_type (icache s2 ip) \<noteq> T_DEV" unfolding iu(1) using ty kf by simp
    have mp2: "mapped s2 ip (unat off + i)" if "i < unat n - unat (0 :: u32)" for i
      using bytes [of i] that by (simp add: mapped_def blk_of_def iu(2))
    have "readi_loop s2 ip off n 0 []
            = Ok ([] @ map (\<lambda>i. file_byte s2 ip (unat off + i)) [0..<unat n - unat (0 :: u32)]) s2"
      using mp2 zle bound by (rule readi_loop_spec)
    moreover have "map (\<lambda>i. file_byte s2 ip (unat off + i)) [0..<unat n] = map src [0..<unat n]"
    proof (rule map_cong [OF refl])
      fix i assume "i \<in> set [0..<unat n]"
      then have "i < unat n" by simp
      from bytes [OF this] iu(3) [of "unat off + i"]
      show "file_byte s2 ip (unat off + i) = src i" by simp
    qed
    ultimately have rl: "readi_loop s2 ip off n 0 [] = Ok (map src [0..<unat n]) s2"
      by simp
    have nb: "(off + n < off) = False" using b by simp
    have "readi s2 ip off n = Ok (n, map src [0..<unat n]) s2"
      using ty2 by (simp add: readi_def Let_def sz rl nb)
    with res sz show ?thesis by blast
  qed
  have runs: "\<exists>s1. writei s ip src off n = Ok n s1"
    if e: "enough s ip (range_slots (unat off) (unat n))"
  proof -
    from e have "enough s ip (range_slots (unat off) (unat n - unat (0 :: u32)))" by simp
    from writei_loop_runs [OF wf zle bound this, of src]
    obtain off1 s' where "writei_loop s ip src off n 0 = Ok off1 s'" by blast
    from post [OF this] show ?thesis by blast
  qed
  have c2: "e = Panic_fs ''balloc: out of blocks''
              \<and> \<not> enough s ip (range_slots (unat off) (unat n))"
    if st: "writei s ip src off n = Stop e" for e
  proof
    show "e = Panic_fs ''balloc: out of blocks''"
    proof (cases "writei_loop s ip src off n 0")
      case (Ok off1 s')
      from post [OF Ok] st show ?thesis by auto
    next
      case (Stop e')
      from stopc [OF Stop] st show ?thesis by simp
    qed
    show "\<not> enough s ip (range_slots (unat off) (unat n))"
    proof
      assume "enough s ip (range_slots (unat off) (unat n))"
      from runs [OF this] st show False by auto
    qed
  qed
  have c3: "r = n \<and> i_size (icache s1 ip) = off + n
              \<and> readi s1 ip off n = Ok (n, map src [0..<unat n]) s1"
    if ok: "writei s ip src off n = Ok r s1" for r s1
  proof (cases "writei_loop s ip src off n 0")
    case (Ok off1 s')
    from post [OF Ok] ok show ?thesis by auto
  next
    case (Stop e')
    from stopc [OF Stop] ok show ?thesis by simp
  qed
  from runs c2 c3 show ?thesis by (intro conjI allI impI) blast+
qed

theorem writei_extends_readi_returns_witness:
  "inode_wf (ex_sized 5630) (Suc 0) \<and> i_size (icache (ex_sized 5630) (Suc 0)) = 5630
   \<and> (\<exists>s1. writei (ex_sized 5630) (Suc 0) (\<lambda>k. of_nat k + 65) 5630 4 = Ok 4 s1
         \<and> i_size (icache s1 (Suc 0)) = 5634
         \<and> readi s1 (Suc 0) 5630 4 = Ok (4, [65, 66, 67, 68]) s1
         \<and> slot_val s1 (Suc 0) (Direct 10) = 6 \<and> slot_val s1 (Suc 0) Single = 7
         \<and> slot_val s1 (Suc 0) (SingleEnt 0) = 8)
   \<and> (\<exists>s1. writei (ex_sized 71168) (Suc 0) (\<lambda>k. of_nat k + 65) 71168 4 = Ok 4 s1
         \<and> i_size (icache s1 (Suc 0)) = 71172
         \<and> readi s1 (Suc 0) 71168 4 = Ok (4, [65, 66, 67, 68]) s1
         \<and> slot_val s1 (Suc 0) Double = 6 \<and> slot_val s1 (Suc 0) (DoubleEnt 0) = 7
         \<and> slot_val s1 (Suc 0) (Leaf 0 0) = 8)"
proof -
  let ?src = "\<lambda>k. of_nat k + 65 :: u8"
  have m1: "(5634 :: u32) \<le> MAXFILE * BSIZE" and m2: "(71172 :: u32) \<le> MAXFILE * BSIZE"
    unfolding word_le_nat_alt unat_maxfile by simp_all
  have rb: "sb_ninodes (readsb (ex_sized z) 1) = 8" for z
    by (simp add: ex_sized_disk ex_readsb)
  have ty: "i_type (icache (ex_sized z) (Suc 0)) \<noteq> T_DEV" for z
    by (simp add: ex_sized_fields fs_consts)
  have ino: "i_inum (icache (ex_sized z) (Suc 0))
               < sb_ninodes (readsb (ex_sized z) (i_dev (icache (ex_sized z) (Suc 0))))" for z
    by (simp add: ex_sized_fields rb)
  have e1: "enough (ex_sized 5630) (Suc 0) (range_slots (unat (5630 :: u32)) (unat (4 :: u32)))"
    using ex_range_cross by (intro ex_sized_enough [where M = "{Direct 10, Single, SingleEnt 0}"])
      simp_all
  have e2: "enough (ex_sized 71168) (Suc 0) (range_slots (unat (71168 :: u32)) (unat (4 :: u32)))"
    using ex_range_double by (intro ex_sized_enough [where M = "{Double, DoubleEnt 0, Leaf 0 0}"])
      simp_all
  have t1: "(enough (ex_sized 5630) (Suc 0) (range_slots (unat (5630 :: u32)) (unat (4 :: u32)))
              \<longrightarrow> (\<exists>s1. writei (ex_sized 5630) (Suc 0) ?src 5630 4 = Ok 4 s1))
       \<and> (\<forall>e. writei (ex_sized 5630) (Suc 0) ?src 5630 4 = Stop e \<longrightarrow>
             e = Panic_fs ''balloc: out of blocks''
             \<and> \<not> enough (ex_sized 5630) (Suc 0) (range_slots (unat (5630 :: u32)) (unat (4 :: u32))))
       \<and> (\<forall>r s1. writei (ex_sized 5630) (Suc 0) ?src 5630 4 = Ok r s1 \<longrightarrow>
             r = 4 \<and> i_size (icache s1 (Suc 0)) = 5630 + 4
             \<and> readi s1 (Suc 0) 5630 4 = Ok (4, map ?src [0..<unat (4 :: u32)]) s1)"
    by (rule writei_extends_readi_returns [OF ex_sized_wf ino ty])
       (simp_all add: ex_sized_fields m1)
  have t2: "(enough (ex_sized 71168) (Suc 0) (range_slots (unat (71168 :: u32)) (unat (4 :: u32)))
              \<longrightarrow> (\<exists>s1. writei (ex_sized 71168) (Suc 0) ?src 71168 4 = Ok 4 s1))
       \<and> (\<forall>e. writei (ex_sized 71168) (Suc 0) ?src 71168 4 = Stop e \<longrightarrow>
             e = Panic_fs ''balloc: out of blocks''
             \<and> \<not> enough (ex_sized 71168) (Suc 0) (range_slots (unat (71168 :: u32)) (unat (4 :: u32))))
       \<and> (\<forall>r s1. writei (ex_sized 71168) (Suc 0) ?src 71168 4 = Ok r s1 \<longrightarrow>
             r = 4 \<and> i_size (icache s1 (Suc 0)) = 71168 + 4
             \<and> readi s1 (Suc 0) 71168 4 = Ok (4, map ?src [0..<unat (4 :: u32)]) s1)"
    by (rule writei_extends_readi_returns [OF ex_sized_wf ino ty])
       (simp_all add: ex_sized_fields m2)
  from t1 e1 obtain s1 where r1: "writei (ex_sized 5630) (Suc 0) ?src 5630 4 = Ok 4 s1"
    by blast
  with t1 have p1: "i_size (icache s1 (Suc 0)) = 5630 + 4"
    "readi s1 (Suc 0) 5630 4 = Ok (4, map ?src [0..<unat (4 :: u32)]) s1"
    by blast+
  obtain o1 l1 where lp1: "writei_loop (ex_sized 5630) (Suc 0) ?src 5630 4 0 = Ok o1 l1"
    using ex_writei_cross
    by (cases "writei_loop (ex_sized 5630) (Suc 0) ?src 5630 4 0") simp_all
  have al1: "slot_val s1 (Suc 0) sl = slot_val l1 (Suc 0) sl" for sl
    by (rule writei_after_loop [OF ex_sized_wf ino ty _ _ _ lp1 r1])
       (simp_all add: ex_sized_fields m1)
  from lp1 ex_writei_cross have v1: "slot_val s1 (Suc 0) (Direct 10) = 6"
    "slot_val s1 (Suc 0) Single = 7" "slot_val s1 (Suc 0) (SingleEnt 0) = 8"
    unfolding al1 by (simp_all del: slot_val.simps)
  from t2 e2 obtain s2 where r2: "writei (ex_sized 71168) (Suc 0) ?src 71168 4 = Ok 4 s2"
    by blast
  with t2 have p2: "i_size (icache s2 (Suc 0)) = 71168 + 4"
    "readi s2 (Suc 0) 71168 4 = Ok (4, map ?src [0..<unat (4 :: u32)]) s2"
    by blast+
  obtain o2 l2 where lp2: "writei_loop (ex_sized 71168) (Suc 0) ?src 71168 4 0 = Ok o2 l2"
    using ex_writei_double
    by (cases "writei_loop (ex_sized 71168) (Suc 0) ?src 71168 4 0") simp_all
  have al2: "slot_val s2 (Suc 0) sl = slot_val l2 (Suc 0) sl" for sl
    by (rule writei_after_loop [OF ex_sized_wf ino ty _ _ _ lp2 r2])
       (simp_all add: ex_sized_fields m2)
  from lp2 ex_writei_double have v2: "slot_val s2 (Suc 0) Double = 6"
    "slot_val s2 (Suc 0) (DoubleEnt 0) = 7" "slot_val s2 (Suc 0) (Leaf 0 0) = 8"
    unfolding al2 by (simp_all del: slot_val.simps)
  have bytes: "map ?src [0..<unat (4 :: u32)] = [65, 66, 67, 68]"
    by (simp add: upt_4)
  from r1 p1 v1 have A:
    "\<exists>s1. writei (ex_sized 5630) (Suc 0) ?src 5630 4 = Ok 4 s1
         \<and> i_size (icache s1 (Suc 0)) = 5634
         \<and> readi s1 (Suc 0) 5630 4 = Ok (4, [65, 66, 67, 68]) s1
         \<and> slot_val s1 (Suc 0) (Direct 10) = 6 \<and> slot_val s1 (Suc 0) Single = 7
         \<and> slot_val s1 (Suc 0) (SingleEnt 0) = 8"
    unfolding bytes by (intro exI [of _ s1]) simp
  from r2 p2 v2 have B:
    "\<exists>s1. writei (ex_sized 71168) (Suc 0) ?src 71168 4 = Ok 4 s1
         \<and> i_size (icache s1 (Suc 0)) = 71172
         \<and> readi s1 (Suc 0) 71168 4 = Ok (4, [65, 66, 67, 68]) s1
         \<and> slot_val s1 (Suc 0) Double = 6 \<and> slot_val s1 (Suc 0) (DoubleEnt 0) = 7
         \<and> slot_val s1 (Suc 0) (Leaf 0 0) = 8"
    unfolding bytes by (intro exI [of _ s2]) simp
  from ex_sized_wf [of 5630] ex_sized_fields(2) [of 5630] A B show ?thesis
    by (intro conjI)
qed

text \<open>C4 as stated fails: a write that starts strictly beyond the size is refused. The
  file of \<open>ex_fs\<close> has size 0, and \<open>writei\<close> of 3 bytes at offset 2 returns \<open>-1\<close> and
  changes nothing.\<close>

theorem writei_beyond_size_counterexample:
  "i_type (icache ex_fs (Suc 0)) \<noteq> T_DEV \<and> i_size (icache ex_fs (Suc 0)) = 0
   \<and> writei ex_fs (Suc 0) (\<lambda>k. of_nat k + 65) 2 3 = Ok (- 1) ex_fs"
  by (simp add: writei_def Let_def ex_file_fields fs_consts)


subsection \<open>dirlink on a name that is present\<close>

lemma unat_entry_off:
  fixes off sz :: u32
  assumes o: "unat off = 16 * k" and k: "16 * k + 16 \<le> unat sz"
  shows "unat (off + 16) = 16 * Suc k"
    and "off < sz"
    and "(sz < off + 16) = False"
    and "(off + 16 < off) = False"
    and "(sz < off) = False"
proof -
  have lt: "unat sz < 2 ^ 32" using unsigned_less [of sz, where ?'a = nat] by simp
  with k have "unat off + unat (16 :: u32) < 2 ^ 32" unfolding o by simp
  then have "unat (off + 16) = unat off + unat (16 :: u32)"
    by (simp add: unat_add_lem [THEN iffD1])
  then show c: "unat (off + 16) = 16 * Suc k" unfolding o by simp
  show "off < sz"
    unfolding word_less_nat_alt o using k by simp
  show "(sz < off + 16) = False"
    unfolding word_less_nat_alt c using k by simp
  show "(off + 16 < off) = False"
    unfolding word_less_nat_alt c o by simp
  show "(sz < off) = False"
    unfolding word_less_nat_alt o using k by simp
qed

text \<open>\<open>readi\<close> of an entry of a directory whose blocks are all mapped.\<close>

lemma readi_entry:
  assumes ty: "i_type (icache s dp) \<noteq> T_DEV"
      and mp: "\<And>p. p < unat (i_size (icache s dp)) \<Longrightarrow> mapped s dp p"
      and sz: "unat (i_size (icache s dp)) \<le> 8459776"
      and k: "16 * k + 16 \<le> unat (i_size (icache s dp))"
      and o: "unat off = 16 * k"
  shows "readi s dp off 16 = Ok (16, dirent_at s dp k) s"
proof -
  note u = unat_entry_off [OF o k]
  have zle: "(0 :: u32) \<le> 16" by simp
  have bound: "unat off + (unat (16 :: u32) - unat (0 :: u32)) \<le> 8459776"
    unfolding o using k sz by simp
  have m: "mapped s dp (unat off + i)" if "i < unat (16 :: u32) - unat (0 :: u32)" for i
    unfolding o using that k by (intro mp) simp
  have "readi_loop s dp off 16 0 []
          = Ok ([] @ map (\<lambda>i. file_byte s dp (unat off + i))
                       [0..<unat (16 :: u32) - unat (0 :: u32)]) s"
    using m zle bound by (rule readi_loop_spec)
  then have rl: "readi_loop s dp off 16 0 [] = Ok (dirent_at s dp k) s"
    unfolding o dirent_at_def by simp
  show ?thesis
    using ty by (simp add: readi_def Let_def u(3,4,5) rl)
qed

text \<open>The loop of \<open>dirlookup\<close> from entry \<open>j\<close> on, when an entry \<open>k\<close> from there on
  matches: it ends at the first match \<open>j'\<close>, with the call of \<open>iget\<close>.\<close>

lemma dirlookup_loop_finds:
  assumes ty: "i_type (icache s dp) \<noteq> T_DEV"
      and mp: "\<And>p. p < unat (i_size (icache s dp)) \<Longrightarrow> mapped s dp p"
      and sz: "unat (i_size (icache s dp)) \<le> 8459776"
      and k: "16 * k + 16 \<le> unat (i_size (icache s dp))"
      and mt: "dir_match s dp name k"
  shows "j \<le> k \<Longrightarrow> unat off = 16 * j \<Longrightarrow>
    \<exists>j' off'. j' \<le> k \<and> dir_match s dp name j' \<and> unat off' = 16 * j' \<and>
      dirlookup_loop s dp name off
        = (case iget s (i_dev (icache s dp)) (ucast (de_inum (dirent_at s dp j'))) of
             Ok ip s2 \<Rightarrow> Some (Ok (Some (ip, off')) s2)
           | Stop e \<Rightarrow> Some (Stop e))"
proof (induction "k - j" arbitrary: j off)
  case 0
  then have jk: "j = k" and o: "unat off = 16 * k" by simp_all
  note u = unat_entry_off [OF o k]
  note r = readi_entry [OF ty mp sz k o]
  from mt have a: "de_inum (dirent_at s dp k) \<noteq> 0"
    and b: "namecmp name (de_name (dirent_at s dp k)) = 0"
    by (simp_all add: dir_match_def)
  have "dirlookup_loop s dp name off
          = (case iget s (i_dev (icache s dp)) (ucast (de_inum (dirent_at s dp k))) of
               Ok ip s2 \<Rightarrow> Some (Ok (Some (ip, off)) s2)
             | Stop e \<Rightarrow> Some (Stop e))"
    by (subst dirlookup_loop.simps) (simp add: u(2) r a b)
  with mt o show ?case by blast
next
  case (Suc d)
  then have lt: "j < k" and d: "d = k - Suc j" and le: "Suc j \<le> k"
    and o: "unat off = 16 * j" by simp_all
  from lt k have kj: "16 * j + 16 \<le> unat (i_size (icache s dp))" by simp
  note u = unat_entry_off [OF o kj]
  note r = readi_entry [OF ty mp sz kj o]
  show ?case
  proof (cases "dir_match s dp name j")
    case True
    then have a: "de_inum (dirent_at s dp j) \<noteq> 0"
      and b: "namecmp name (de_name (dirent_at s dp j)) = 0"
      by (simp_all add: dir_match_def)
    have "dirlookup_loop s dp name off
            = (case iget s (i_dev (icache s dp)) (ucast (de_inum (dirent_at s dp j))) of
                 Ok ip s2 \<Rightarrow> Some (Ok (Some (ip, off)) s2)
               | Stop e \<Rightarrow> Some (Stop e))"
      by (subst dirlookup_loop.simps) (simp add: u(2) r a b)
    moreover have "j \<le> k" using lt by simp
    ultimately show ?thesis using True o by blast
  next
    case False
    have "dirlookup_loop s dp name off = dirlookup_loop s dp name (off + 16)"
      using False
      by (subst dirlookup_loop.simps) (auto simp: u(2) r dir_match_def)
    with Suc.hyps(1) [OF d le u(1)] show ?thesis by simp
  qed
qed

text \<open>\<open>iget\<close> with a free slot in the cache, and the \<open>iput\<close> that gives the reference
  back.\<close>

lemma iget_scan_Inl:
  "iget_scan s dev inum xs emp = Inl i \<Longrightarrow> 0 < i_ref (icache s i)"
  by (induction xs arbitrary: emp) (auto split: if_splits)

lemma iget_scan_keeps:
  "iget_scan s dev inum xs (Some y) \<noteq> Inr None"
  by (induction xs) auto

lemma iget_scan_Inr:
  "iget_scan s dev inum xs emp = Inr r \<Longrightarrow>
     (r = None \<longrightarrow> (\<forall>i \<in> set xs. i_ref (icache s i) \<noteq> 0))
     \<and> (\<forall>i. r = Some i \<longrightarrow> emp = Some i \<or> i_ref (icache s i) = 0)"
proof (induction xs arbitrary: emp)
  case Nil
  then show ?case by simp
next
  case (Cons x xs)
  show ?case
  proof (cases "0 < i_ref (icache s x) \<and> i_dev (icache s x) = dev \<and> i_inum (icache s x) = inum")
    case True
    with Cons.prems show ?thesis by simp
  next
    case False
    let ?e = "if emp = None \<and> i_ref (icache s x) = 0 then Some x else emp"
    have run: "iget_scan s dev inum xs ?e = Inr r"
      using Cons.prems unfolding iget_scan.simps if_not_P [OF False] .
    note ih = Cons.IH [OF run]
    show ?thesis
    proof (intro conjI allI impI ballI)
      fix i assume "r = None" and i: "i \<in> set (x # xs)"
      with ih have a: "\<forall>i \<in> set xs. i_ref (icache s i) \<noteq> 0" by simp
      have "i_ref (icache s x) \<noteq> 0"
      proof
        assume z: "i_ref (icache s x) = 0"
        show False
        proof (cases emp)
          case None
          with z run \<open>r = None\<close> have "iget_scan s dev inum xs (Some x) = Inr None" by simp
          then show False using iget_scan_keeps by blast
        next
          case (Some y)
          with run \<open>r = None\<close> have "iget_scan s dev inum xs (Some y) = Inr None" by simp
          then show False using iget_scan_keeps by blast
        qed
      qed
      with a i show "i_ref (icache s i) \<noteq> 0" by auto
    next
      fix i assume "r = Some i"
      with ih have "?e = Some i \<or> i_ref (icache s i) = 0" by simp
      then show "emp = Some i \<or> i_ref (icache s i) = 0"
        by (auto split: if_splits)
    qed
  qed
qed


lemma iget_iput:
  "(\<forall>i<NINODE. i_ref (icache s i) \<noteq> 0) \<and> iget s dev inum = Stop (Panic_fs ''iget: no inodes'')
   \<or> (\<exists>ip s2 s3. iget s dev inum = Ok ip s2 \<and> iput s2 ip = Ok () s3
         \<and> disk s3 = disk s \<and> fs_log s3 = fs_log s
         \<and> (\<forall>i. 0 < i_ref (icache s i) \<longrightarrow> icache s3 i = icache s i))"
proof (cases "iget_scan s dev inum [0..<NINODE] None")
  case (Inl ip)
  then have pos: "0 < i_ref (icache s ip)" by (rule iget_scan_Inl)
  let ?s2 = "upd_inode s ip (\<lambda>i. i\<lparr>i_ref := i_ref i + 1\<rparr>)"
  let ?s3 = "upd_inode ?s2 ip (\<lambda>i. i\<lparr>i_ref := i_ref i - 1\<rparr>)"
  have g: "iget s dev inum = Ok ip ?s2" by (simp add: iget_def Inl)
  have p: "iput ?s2 ip = Ok () ?s3" using pos by (simp add: iput_def)
  have "icache ?s3 = icache s" by (simp add: fun_eq_iff)
  then have "disk ?s3 = disk s \<and> fs_log ?s3 = fs_log s
      \<and> (\<forall>i. 0 < i_ref (icache s i) \<longrightarrow> icache ?s3 i = icache s i)"
    by simp
  with g p show ?thesis by blast
next
  case (Inr r)
  note sc = iget_scan_Inr [OF Inr]
  show ?thesis
  proof (cases r)
    case None
    with sc have "\<forall>i<NINODE. i_ref (icache s i) \<noteq> 0" by simp
    moreover have "iget s dev inum = Stop (Panic_fs ''iget: no inodes'')"
      by (simp add: iget_def Inr None)
    ultimately show ?thesis by blast
  next
    case (Some ip)
    with sc have z: "i_ref (icache s ip) = 0" by simp
    let ?s2 = "upd_inode s ip (\<lambda>i. i\<lparr>i_dev := dev, i_inum := inum, i_ref := 1, i_flags := 0\<rparr>)"
    let ?s3 = "upd_inode ?s2 ip (\<lambda>i. i\<lparr>i_ref := i_ref i - 1\<rparr>)"
    have g: "iget s dev inum = Ok ip ?s2" by (simp add: iget_def Inr Some)
    have p: "iput ?s2 ip = Ok () ?s3" by (simp add: iput_def)
    have "disk ?s3 = disk s \<and> fs_log ?s3 = fs_log s
        \<and> (\<forall>i. 0 < i_ref (icache s i) \<longrightarrow> icache ?s3 i = icache s i)"
      using z by auto
    with g p show ?thesis by blast
  qed
qed

lemma file_byte_cong:
  assumes "disk s2 = disk s" and "icache s2 dp = icache s dp"
  shows "file_byte s2 dp p = file_byte s dp p" and "dirent_at s2 dp j = dirent_at s dp j"
proof -
  have sv: "slot_val s2 dp sl = slot_val s dp sl" for sl
    by (rule slot_val_cong) (simp_all add: assms)
  show fb: "file_byte s2 dp p = file_byte s dp p" for p
    by (simp add: file_byte_def blk_of_def sv assms)
  show "dirent_at s2 dp j = dirent_at s dp j"
    by (simp add: dirent_at_def fb)
qed

text \<open>C7. A directory in use whose blocks are all mapped, with an entry \<open>k\<close> that
  \<open>dirlookup\<close> takes for the name (inode number not 0, \<open>namecmp\<close> gives 0): \<open>dirlink\<close>
  returns \<open>-1\<close>; the disk, the log and the in-memory inode of the directory are as
  before, so every entry of the directory is as before. The one other outcome is the
  panic of \<open>iget\<close> when no slot of the inode cache is free.\<close>

theorem dirlink_existing_name:
  assumes ty: "i_type (icache s dp) = T_DIR"
      and rf: "0 < i_ref (icache s dp)"
      and sz: "i_size (icache s dp) \<le> MAXFILE * BSIZE"
      and mp: "\<forall>p < unat (i_size (icache s dp)). mapped s dp p"
      and k: "16 * k + 16 \<le> unat (i_size (icache s dp))"
      and mt: "dir_match s dp name k"
  shows "(\<forall>i<NINODE. i_ref (icache s i) \<noteq> 0)
           \<and> dirlink s dp name inum = Some (Stop (Panic_fs ''iget: no inodes''))
       \<or> (\<exists>s2. dirlink s dp name inum = Some (Ok (- 1) s2)
             \<and> disk s2 = disk s \<and> fs_log s2 = fs_log s \<and> icache s2 dp = icache s dp
             \<and> (\<forall>j. dirent_at s2 dp j = dirent_at s dp j))"
proof -
  have ty': "i_type (icache s dp) \<noteq> T_DEV" using ty by (simp add: fs_consts)
  have mp': "\<And>p. p < unat (i_size (icache s dp)) \<Longrightarrow> mapped s dp p" using mp by blast
  have sz': "unat (i_size (icache s dp)) \<le> 8459776"
    using sz unfolding word_le_nat_alt unat_maxfile .
  have z: "unat (0 :: u32) = 16 * 0" by simp
  have "0 \<le> k" by simp
  from dirlookup_loop_finds [OF ty' mp' sz' k mt this z]
  obtain j' off' where
    lk: "dirlookup_loop s dp name 0
          = (case iget s (i_dev (icache s dp)) (ucast (de_inum (dirent_at s dp j'))) of
               Ok ip s2 \<Rightarrow> Some (Ok (Some (ip, off')) s2)
             | Stop e \<Rightarrow> Some (Stop e))"
    by blast
  have dl: "dirlookup s dp name = dirlookup_loop s dp name 0"
    using ty by (simp add: dirlookup_def)
  let ?dev = "i_dev (icache s dp)"
  let ?in = "ucast (de_inum (dirent_at s dp j')) :: u32"
  from iget_iput [of s ?dev ?in]
  show ?thesis
  proof
    assume "(\<forall>i<NINODE. i_ref (icache s i) \<noteq> 0)
              \<and> iget s ?dev ?in = Stop (Panic_fs ''iget: no inodes'')"
    then have "(\<forall>i<NINODE. i_ref (icache s i) \<noteq> 0)
                 \<and> dirlink s dp name inum = Some (Stop (Panic_fs ''iget: no inodes''))"
      by (simp add: dirlink_def dl lk)
    then show ?thesis by (rule disjI1)
  next
    assume "\<exists>ip s2 s3. iget s ?dev ?in = Ok ip s2 \<and> iput s2 ip = Ok () s3
              \<and> disk s3 = disk s \<and> fs_log s3 = fs_log s
              \<and> (\<forall>i. 0 < i_ref (icache s i) \<longrightarrow> icache s3 i = icache s i)"
    then obtain ip s2 s3 where g: "iget s ?dev ?in = Ok ip s2" and p: "iput s2 ip = Ok () s3"
      and d: "disk s3 = disk s" and l: "fs_log s3 = fs_log s"
      and ic: "\<forall>i. 0 < i_ref (icache s i) \<longrightarrow> icache s3 i = icache s i"
      by blast
    from ic rf have icd: "icache s3 dp = icache s dp" by blast
    have "dirlink s dp name inum = Some (Ok (- 1) s3)"
      by (simp add: dirlink_def dl lk g p)
    moreover have "\<forall>j. dirent_at s3 dp j = dirent_at s dp j"
      using file_byte_cong(2) [OF d icd] by blast
    ultimately show ?thesis using d l icd by blast
  qed
qed

lemma upt_16: "[0..<16] = [0, 1, 2, 3, 4, 5, 6, 7, 8, 9, 10, 11, 12, 13, 14, 15]"
  by (simp add: upt_rec)

lemma ex_root_fields:
  "i_type (icache ex_fs 0) = T_DIR" "i_ref (icache ex_fs 0) = 1"
  "i_size (icache ex_fs 0) = 16" "i_dev (icache ex_fs 0) = 1"
  "i_addrs (icache ex_fs 0) 0 = 5"
  by (simp_all add: ex_icache ex_root_def ex_inode_def)

lemma ex_root_blk: "blk_of ex_fs 0 0 = 5"
  by (simp add: blk_of_def leaf_slot_def NDIRECT_def ex_root_fields)

lemma ex_root_byte:
  assumes "p < 16"
  shows "mapped ex_fs 0 p" and "file_byte ex_fs 0 p = ex_dir p"
  using assms by (simp_all add: mapped_def file_byte_def ex_root_blk ex_root_fields ex_disk)

lemma ex_dirent: "dirent_at ex_fs 0 0 = [2, 0, 0x78, 0, 0, 0, 0, 0, 0, 0, 0, 0, 0, 0, 0, 0]"
  by (simp add: dirent_at_def upt_16 ex_root_byte ex_dir_def)

lemma ex_dir_match: "dir_match ex_fs 0 [0x78] 0"
proof -
  have a: "de_inum (dirent_at ex_fs 0 0) = 2"
    by (simp add: ex_dirent de_inum_def rd16_def cnth_def)
  have b: "de_name (dirent_at ex_fs 0 0) = [0x78, 0, 0, 0, 0, 0, 0, 0, 0, 0, 0, 0, 0, 0]"
    by (simp add: ex_dirent de_name_def DIRSIZ_def)
  have c: "DIRSIZ = Suc (Suc 12)" by (simp add: DIRSIZ_def)
  have "namecmp [0x78] (de_name (dirent_at ex_fs 0 0)) = 0"
    unfolding b namecmp_def c by (simp only: strncmp.simps) (simp add: cnth_def)
  with a show ?thesis by (simp add: dir_match_def)
qed

theorem dirlink_existing_name_witness:
  "i_type (icache ex_fs 0) = T_DIR \<and> dir_match ex_fs 0 [0x78] 0
   \<and> (\<exists>s2. dirlink ex_fs 0 [0x78] 7 = Some (Ok (- 1) s2)
         \<and> disk s2 = disk ex_fs \<and> fs_log s2 = fs_log ex_fs \<and> icache s2 0 = icache ex_fs 0
         \<and> (\<forall>j. dirent_at s2 0 j = dirent_at ex_fs 0 j))"
proof -
  have m: "(16 :: u32) \<le> MAXFILE * BSIZE"
    unfolding word_le_nat_alt unat_maxfile by simp
  have free: "\<not> (\<forall>i<NINODE. i_ref (icache ex_fs i) \<noteq> 0)"
  proof -
    have "(2 :: nat) < NINODE \<and> i_ref (icache ex_fs 2) = 0"
      by (simp add: NINODE_def ex_fs_def ex_inode_def)
    then show ?thesis by blast
  qed
  have "(\<forall>i<NINODE. i_ref (icache ex_fs i) \<noteq> 0)
           \<and> dirlink ex_fs 0 [0x78] 7 = Some (Stop (Panic_fs ''iget: no inodes''))
       \<or> (\<exists>s2. dirlink ex_fs 0 [0x78] 7 = Some (Ok (- 1) s2)
             \<and> disk s2 = disk ex_fs \<and> fs_log s2 = fs_log ex_fs \<and> icache s2 0 = icache ex_fs 0
             \<and> (\<forall>j. dirent_at s2 0 j = dirent_at ex_fs 0 j))"
    by (rule dirlink_existing_name [where k = 0])
       (simp_all add: ex_root_fields m ex_root_byte(1) ex_dir_match)
  with free show ?thesis
    using ex_root_fields(1) ex_dir_match by blast
qed


end
